(* ===== verification/Loco_Prelude.thy ===== *)
theory Loco_Prelude
  imports
    Main
    "HOL-Library.Word"
    "HOL-Library.Monad_Syntax"
    "HOL-Library.List_Lexorder"
begin

text \<open>
  What every component of loco shares: the machine integers of the C types on an LP64
  platform, read-only pointers into a byte block, bounds-checked stores into a byte array,
  and the generic lemmas on words and lists that the component theories use.

  A value of type \<open>'a option\<close> at the outermost level of an operation says whether the C
  code has a defined result: \<open>None\<close> stands for an access outside the object a pointer
  points into (undefined behaviour). What the code itself reports (a \<open>bool\<close> result, a NULL
  result) is a value inside the \<open>Some\<close>.
\<close>

unbundle bit_operations_syntax

section \<open>Integer types\<close>

type_synonym byte = "8 word"
type_synonym uint16 = "16 word"
type_synonym uint32 = "32 word"
type_synonym uint64 = "64 word"
type_synonym int64 = "64 word"
type_synonym size_t = "64 word"

abbreviation SIZE_MAX :: size_t where
  "SIZE_MAX \<equiv> - 1"

abbreviation INT64_MAX :: uint64 where
  "INT64_MAX \<equiv> 9223372036854775807"

abbreviation INT64_MIN :: int64 where
  "INT64_MIN \<equiv> 9223372036854775808"

text \<open>A character constant of the source, as the byte it denotes.\<close>

definition chr :: "char \<Rightarrow> byte" where
  "chr c = of_nat (of_char c)"

text \<open>A string literal of the source without its terminating NUL byte.\<close>

definition bytes_of :: "string \<Rightarrow> byte list" where
  "bytes_of s = map chr s"

named_theorems word_facts \<open>facts that move word arithmetic without overflow to the naturals\<close>
named_theorems memory_simps \<open>reads and stores inside their block\<close>

lemma length_bytes_of [simp]: "length (bytes_of s) = length s"
  by (simp add: bytes_of_def)

lemma unat_SIZE_MAX [simp]: "unat SIZE_MAX = 18446744073709551615"
  by (simp add: unsigned_minus_1_eq_mask mask_eq_exp_minus_1)

lemma unat_size_lt: "unat (a :: size_t) < 2 ^ 64"
  using unsigned_less [of a] by simp

lemma unat_inc [word_facts]: "a < b \<Longrightarrow> unat (a + 1) = Suc (unat a)" for a b :: "'a::len word"
  by (metis Suc_eq_plus1 add.commute add_diff_cancel_right' diff_0 unatSuc word_order.extremum_strict)

lemma inc_le: "a < b \<Longrightarrow> a + 1 \<le> b" for a b :: "'a::len word"
  by (simp add: inc_le)

lemma unat_diff [word_facts]: "a \<le> b \<Longrightarrow> unat (b - a) = unat b - unat a" for a b :: "'a::len word"
  by (simp add: unat_sub)

lemma unat_plus_bounded [word_facts]:
  "unat a + unat b < 2 ^ LENGTH('a) \<Longrightarrow> unat (a + b) = unat a + unat b" for a b :: "'a::len word"
  by (rule unat_add_lem [THEN iffD1])

lemma unat_times_bounded [word_facts]:
  "unat a * unat b < 2 ^ LENGTH('a) \<Longrightarrow> unat (a * b) = unat a * unat b" for a b :: "'a::len word"
  by (rule unat_mult_lem [THEN iffD1])

lemma unat_of_nat_size [word_facts]: "n < 2 ^ 64 \<Longrightarrow> unat (of_nat n :: size_t) = n"
  by (simp add: unat_of_nat take_bit_eq_mod)

lemma unat_advance: "n \<le> b - a \<Longrightarrow> a \<le> b \<Longrightarrow> unat (a + n) = unat a + unat n"
  for a b n :: size_t
proof -
  assume "n \<le> b - a" "a \<le> b"
  then have "unat a + unat n \<le> unat b"
    by (simp add: word_le_nat_alt unat_sub)
  also have "unat b < 2 ^ 64" by (rule unat_size_lt)
  finally show ?thesis by (simp add: unat_plus_bounded)
qed

section \<open>Blocks, pointers and stores\<close>

text \<open>
  A pointer to constant bytes is NULL or a block with an offset into it. The blocks such
  pointers point into (a file's contents, a tracker response, a received payload) are never
  written through them, so a pointer carries its block by value.
\<close>

datatype ptr = NULL | Ptr (block: "byte list") (offset: nat)

fun readable :: "ptr \<Rightarrow> nat \<Rightarrow> bool" where
  "readable NULL n = False"
| "readable (Ptr b i) n = (i + n \<le> length b)"

text \<open>\<open>*(p + i)\<close>\<close>

fun deref :: "ptr \<Rightarrow> nat \<Rightarrow> byte option" where
  "deref NULL i = None"
| "deref (Ptr b k) i = (if k + i < length b then Some (b ! (k + i)) else None)"

text \<open>\<open>p + i\<close>, defined up to one past the end of the block.\<close>

fun ptr_add :: "ptr \<Rightarrow> nat \<Rightarrow> ptr option" where
  "ptr_add NULL i = None"
| "ptr_add (Ptr b k) i = (if k + i \<le> length b then Some (Ptr b (k + i)) else None)"

text \<open>The \<open>n\<close> bytes a \<open>memcpy\<close> or \<open>memcmp\<close> reads at \<open>p\<close>.\<close>

fun read_bytes :: "ptr \<Rightarrow> nat \<Rightarrow> byte list option" where
  "read_bytes NULL n = None"
| "read_bytes (Ptr b k) n = (if k + n \<le> length b then Some (take n (drop k b)) else None)"

text \<open>The bytes a \<open>memcpy\<close> stores at index \<open>i\<close> of an array.\<close>

definition store_bytes :: "byte list \<Rightarrow> nat \<Rightarrow> byte list \<Rightarrow> byte list option" where
  "store_bytes a i bs =
     (if i + length bs \<le> length a then Some (take i a @ bs @ drop (i + length bs) a) else None)"

lemma deref_readable [memory_simps]: "readable p n \<Longrightarrow> i < n \<Longrightarrow> \<exists>b. deref p i = Some b"
  by (cases p) auto

lemma read_bytes_readable [memory_simps]: "read_bytes p n = None \<longleftrightarrow> \<not> readable p n"
  by (cases p) auto

lemma read_bytes_Some: "read_bytes p n = Some bs \<longleftrightarrow> readable p n \<and> bs = take n (drop (offset p) (block p))"
  by (cases p) auto

lemma length_read_bytes: "read_bytes p n = Some bs \<Longrightarrow> length bs = n"
  by (cases p) (auto split: if_splits)

lemma deref_read_bytes: "read_bytes p n = Some bs \<Longrightarrow> i < n \<Longrightarrow> deref p i = Some (bs ! i)"
  by (cases p) (auto split: if_splits)

lemma length_store_bytes: "store_bytes a i bs = Some a' \<Longrightarrow> length a' = length a"
  by (auto simp: store_bytes_def split: if_splits)

lemma store_bytes_Some [memory_simps]:
  "i + length bs \<le> length a \<Longrightarrow> store_bytes a i bs = Some (take i a @ bs @ drop (i + length bs) a)"
  by (simp add: store_bytes_def)

text \<open>Filling an array from left to right: the prefix already written stays.\<close>

lemma take_store_bytes:
  "store_bytes a i bs = Some a' \<Longrightarrow> take (i + length bs) a' = take i a @ bs"
  by (auto simp: store_bytes_def split: if_splits)

section \<open>Comparing byte strings\<close>

text \<open>\<open>memcmp\<close> of two byte strings of the same length: the first difference decides.\<close>

fun memcmp :: "byte list \<Rightarrow> byte list \<Rightarrow> int" where
  "memcmp (x # xs) (y # ys) = (if x < y then - 1 else if y < x then 1 else memcmp xs ys)"
| "memcmp _ _ = 0"

lemma memcmp_refl [simp]: "memcmp xs xs = 0"
  by (induction xs) auto

lemma memcmp_eq_0 [simp]: "length xs = length ys \<Longrightarrow> memcmp xs ys = 0 \<longleftrightarrow> xs = ys"
  by (induction xs ys rule: list_induct2) (auto simp: not_less_iff_gr_or_eq)

text \<open>
  The order the parser wants of dictionary keys, \<open>memcmp\<close> on the common length and then the
  lengths, is the lexicographic order on byte strings.
\<close>

lemma memcmp_take_less:
  "memcmp (take (min (length xs) (length ys)) xs) (take (min (length xs) (length ys)) ys) < 0 \<or>
   memcmp (take (min (length xs) (length ys)) xs) (take (min (length xs) (length ys)) ys) = 0 \<and>
     length xs < length ys
   \<longleftrightarrow> xs < ys"
proof (induction xs arbitrary: ys)
  case Nil
  then show ?case by (cases ys) auto
next
  case (Cons x xs)
  then show ?case
  proof (cases ys)
    case (Cons y ys')
    then show ?thesis using Cons.IH [of ys'] by (auto simp: min_def)
  qed simp
qed

section \<open>Truth values and lists\<close>

lemma ex_truth [simp]: "\<exists>b. b" "\<exists>b. \<not> b"
  by blast+

lemma list_all_append_iff [simp]: "list_all P (xs @ [x]) \<longleftrightarrow> list_all P xs \<and> P x"
  by auto

lemma drop_eq_ConsD: "drop n xs = y # ys \<Longrightarrow> n < length xs \<and> xs ! n = y \<and> drop (Suc n) xs = ys"
  by (metis drop_Suc drop_eq_Nil2 leI list.distinct(1) list.sel(3) nth_via_drop tl_drop)

lemma take_drop_Suc: "n < length xs \<Longrightarrow> 0 < k \<Longrightarrow> take k (drop n xs) = xs ! n # take (k - 1) (drop (Suc n) xs)"
  by (metis Cons_nth_drop_Suc Suc_diff_1 take_Suc_Cons)

end
