(* ===== verification/Byte_Order.thy ===== *)
theory Byte_Order
  imports Loco_Prelude
begin

text \<open>
  Fixed-width big-endian fields, as src/peer_connection.c writes them
  (\<open>write_uint32_big_endian\<close>, \<open>append_uint32_big_endian\<close>) and reads them back (the
  shift-and-or expressions of \<open>receive_peer_wire_message\<close>,
  \<open>determine_piece_info_from_piece_payload\<close> and \<open>update_bitfield\<close>), and the 16-bit port of
  src/tracker.c. The locale \<open>field_codec\<close> is the contract of one such field; both fields
  interpret it.
\<close>

section \<open>The contract of a fixed-width field\<close>

locale field_codec =
  fixes encode :: "'a \<Rightarrow> byte list"
    and decode :: "byte list \<Rightarrow> 'a"
    and width :: nat
  assumes length_encode: "length (encode v) = width"
    and decode_encode: "decode (encode v) = v"
    and encode_decode: "length bs = width \<Longrightarrow> encode (decode bs) = bs"
begin

lemma decode_prefix: "decode (take width (encode v @ rest)) = v"
  by (simp add: length_encode decode_encode)

lemma encode_inject: "encode v = encode w \<longleftrightarrow> v = w"
  by (metis decode_encode)

lemma decode_inject: "length as = width \<Longrightarrow> length bs = width \<Longrightarrow> decode as = decode bs \<longleftrightarrow> as = bs"
  by (metis encode_decode)

lemma decode_append: "length as = width \<Longrightarrow> decode (take width (as @ rest)) = decode as"
  by simp

end

section \<open>Sequences of records\<close>

text \<open>
  Cutting a byte string into pieces of \<open>n\<close> bytes; a shorter rest is dropped. The compact peer
  list (6 bytes a peer) and the \<open>pieces\<close> string (20 bytes a hash) are such sequences.
\<close>

function chunks :: "nat \<Rightarrow> byte list \<Rightarrow> byte list list" where
  "chunks n bs = (if n = 0 \<or> length bs < n then [] else take n bs # chunks n (drop n bs))"
  by auto
termination by (relation "measure (\<lambda>(n, bs). length bs)") auto

declare chunks.simps [simp del]

lemma chunks_Nil [simp]: "chunks n [] = []"
  by (subst chunks.simps) auto

lemma chunks_step: "0 < n \<Longrightarrow> length a = n \<Longrightarrow> chunks n (a @ bs) = a # chunks n bs"
  by (subst chunks.simps) simp

lemma length_chunks: "0 < n \<Longrightarrow> length (chunks n bs) = length bs div n"
proof (induction n bs rule: chunks.induct)
  case (1 n bs)
  then show ?case by (subst chunks.simps) (simp add: le_div_geq)
qed

lemma chunks_nth: "i < length (chunks n bs) \<Longrightarrow> chunks n bs ! i = take n (drop (i * n) bs)"
proof (induction n bs arbitrary: i rule: chunks.induct)
  case (1 n bs)
  then have step: "chunks n bs = take n bs # chunks n (drop n bs)"
    by (subst chunks.simps, subst (asm) (2) chunks.simps) (auto split: if_splits)
  show ?case
  proof (cases i)
    case (Suc j)
    have "\<not> (n = 0 \<or> length bs < n)" using 1(2) by (subst (asm) chunks.simps) (auto split: if_splits)
    then show ?thesis using 1(1) [of j] 1(2) by (simp add: step Suc add.commute)
  qed (simp add: step)
qed

locale record_codec = field_codec +
  assumes width_positive: "0 < width"
begin

lemma decode_records: "map decode (chunks width (concat (map encode vs))) = vs"
  by (induction vs) (simp_all add: chunks_step width_positive length_encode decode_encode)

lemma encode_records: "width dvd length bs \<Longrightarrow> concat (map encode (map decode (chunks width bs))) = bs"
proof (induction bs rule: measure_induct_rule [of length])
  case (less bs)
  show ?case
  proof (cases "length bs < width")
    case True
    then have "bs = []" using less.prems nat_dvd_not_less [of "length bs" width] by (cases bs) auto
    then show ?thesis by simp
  next
    case False
    then have "concat (map encode (map decode (chunks width (drop width bs)))) = drop width bs"
      using less.prems width_positive by (intro less.IH) (auto simp: dvd_minus_self)
    then show ?thesis
      using False width_positive encode_decode [of "take width bs"] by (subst chunks.simps) simp
  qed
qed

end

section \<open>32-bit fields\<close>

text \<open>The four bytes \<open>write_uint32_big_endian\<close> stores, narrowed from the shifted value.\<close>

definition uint32_bytes :: "uint32 \<Rightarrow> byte list" where
  "uint32_bytes value =
     [ucast (drop_bit 24 value), ucast (drop_bit 16 value), ucast (drop_bit 8 value), ucast value]"

text \<open>\<open>(b0 << 24) | (b1 << 16) | (b2 << 8) | b3\<close> on \<open>uint32_t\<close>.\<close>

definition uint32_of :: "byte \<Rightarrow> byte \<Rightarrow> byte \<Rightarrow> byte \<Rightarrow> uint32" where
  "uint32_of b0 b1 b2 b3 =
     push_bit 24 (ucast b0) OR push_bit 16 (ucast b1) OR push_bit 8 (ucast b2) OR ucast b3"

definition read_uint32 :: "byte list \<Rightarrow> uint32" where
  "read_uint32 bs = uint32_of (bs ! 0) (bs ! 1) (bs ! 2) (bs ! 3)"

lemma uint32_of_bytes:
  "uint32_of (ucast (drop_bit 24 v)) (ucast (drop_bit 16 v)) (ucast (drop_bit 8 v)) (ucast v) = v"
proof (rule bit_word_eqI)
  fix n assume "n < LENGTH(32)"
  then consider "n < 8" | "8 \<le> n" "n < 16" | "16 \<le> n" "n < 24" | "24 \<le> n" "n < 32"
    by fastforce
  then show "bit (uint32_of (ucast (drop_bit 24 v)) (ucast (drop_bit 16 v)) (ucast (drop_bit 8 v)) (ucast v)) n
    = bit v n"
    by cases (auto simp: uint32_of_def bit_simps dest: bit_imp_le_length)
qed

lemma bytes_of_uint32_of: "uint32_bytes (uint32_of a b c d) = [a, b, c, d]"
  unfolding uint32_bytes_def uint32_of_def list.inject
  by (intro conjI; (rule bit_word_eqI)?) (auto simp: bit_simps dest: bit_imp_le_length)

interpretation be32: field_codec uint32_bytes read_uint32 4
proof unfold_locales
  show "length (uint32_bytes v) = 4" for v
    by (simp add: uint32_bytes_def)
  show "read_uint32 (uint32_bytes v) = v" for v
    by (simp add: read_uint32_def uint32_bytes_def uint32_of_bytes)
  show "uint32_bytes (read_uint32 bs) = bs" if len: "length bs = 4" for bs
  proof -
    from len obtain a b c d where "bs = [a, b, c, d]"
      by (auto simp: length_Suc_conv numeral_eq_Suc)
    then show ?thesis by (simp add: read_uint32_def bytes_of_uint32_of)
  qed
qed

section \<open>Writing into a message buffer\<close>

text \<open>
  \<open>write_uint32_big_endian buffer i capacity value\<close> writes at \<open>buffer + i\<close>; the second
  component of the result is the buffer afterwards.
\<close>

definition write_uint32_big_endian ::
    "byte list \<Rightarrow> nat \<Rightarrow> size_t \<Rightarrow> uint32 \<Rightarrow> (bool \<times> byte list) option" where
  "write_uint32_big_endian buffer i capacity value =
     (if capacity < 4 then Some (False, buffer)
      else do {
        let first_byte = (ucast (drop_bit 24 value) :: byte);
        let second_byte = (ucast (drop_bit 16 value) :: byte);
        let third_byte = (ucast (drop_bit 8 value) :: byte);
        let fourth_byte = (ucast value :: byte);
        buffer \<leftarrow> store_bytes buffer i [first_byte, second_byte, third_byte, fourth_byte];
        Some (True, buffer)
      })"

definition append_uint32_big_endian ::
    "byte list \<Rightarrow> size_t \<Rightarrow> size_t \<Rightarrow> uint32 \<Rightarrow> (bool \<times> byte list \<times> size_t) option" where
  "append_uint32_big_endian buffer total_buffer_length byte_offset value =
     (if byte_offset > total_buffer_length then Some (False, buffer, byte_offset)
      else if total_buffer_length - byte_offset < 4 then Some (False, buffer, byte_offset)
      else do {
        (written, buffer) \<leftarrow> write_uint32_big_endian buffer (unat byte_offset)
                               (total_buffer_length - byte_offset) value;
        if \<not> written then Some (False, buffer, byte_offset)
        else Some (True, buffer, byte_offset + 4)
      })"

lemma write_uint32_ok:
  "4 \<le> capacity \<Longrightarrow> i + 4 \<le> length buffer \<Longrightarrow>
   write_uint32_big_endian buffer i capacity value =
     Some (True, take i buffer @ uint32_bytes value @ drop (i + 4) buffer)"
  unfolding write_uint32_big_endian_def Let_def uint32_bytes_def [symmetric]
  by (simp add: not_less store_bytes_Some be32.length_encode)

lemma size_room: "b \<le> t \<Longrightarrow> t - b < 4 \<longleftrightarrow> unat t < unat b + 4" for b t :: size_t
  by (auto simp: word_less_nat_alt word_le_nat_alt unat_sub)

text \<open>
  Appending never writes outside the buffer: with a truthful length it is defined for every
  offset, and it changes the buffer exactly when four more bytes fit, however close to
  \<open>SIZE_MAX\<close> the offset is.
\<close>

lemma append_uint32_big_endian_eq:
  assumes "unat tot = length buffer"
  shows "append_uint32_big_endian buffer tot off value =
     (if unat off + 4 \<le> length buffer
      then Some (True, take (unat off) buffer @ uint32_bytes value @ drop (unat off + 4) buffer, off + 4)
      else Some (False, buffer, off))"
proof (cases "off \<le> tot")
  case True
  then show ?thesis
    using assms size_room [of off tot]
    by (auto simp: append_uint32_big_endian_def write_uint32_ok not_le not_less
             intro!: write_uint32_ok [THEN trans] simp flip: word_less_nat_alt)
next
  case False
  then show ?thesis
    using assms by (simp add: append_uint32_big_endian_def word_le_nat_alt word_less_nat_alt)
qed

lemma append_uint32_offset:
  "unat tot = length buffer \<Longrightarrow> append_uint32_big_endian buffer tot off value = Some (True, buffer', off') \<Longrightarrow>
   unat off' = unat off + 4 \<and> length buffer' = length buffer"
  using unat_size_lt [of tot]
  by (auto simp: append_uint32_big_endian_eq unat_plus_bounded be32.length_encode split: if_splits)

section \<open>16-bit fields\<close>

text \<open>\<open>(high << 8) | low\<close>, the port of a compact peer entry; \<open>uint16_bytes\<close> is its network form.\<close>

definition uint16_bytes :: "uint16 \<Rightarrow> byte list" where
  "uint16_bytes value = [ucast (drop_bit 8 value), ucast value]"

definition uint16_of :: "byte \<Rightarrow> byte \<Rightarrow> uint16" where
  "uint16_of high low = push_bit 8 (ucast high) OR ucast low"

definition read_uint16 :: "byte list \<Rightarrow> uint16" where
  "read_uint16 bs = uint16_of (bs ! 0) (bs ! 1)"

lemma uint16_of_bytes: "uint16_of (ucast (drop_bit 8 v)) (ucast v) = v"
proof (rule bit_word_eqI)
  fix n assume "n < LENGTH(16)"
  then consider "n < 8" | "8 \<le> n" "n < 16" by fastforce
  then show "bit (uint16_of (ucast (drop_bit 8 v)) (ucast v)) n = bit v n"
    by cases (auto simp: uint16_of_def bit_simps dest: bit_imp_le_length)
qed

lemma bytes_of_uint16_of: "uint16_bytes (uint16_of a b) = [a, b]"
  unfolding uint16_bytes_def uint16_of_def list.inject
  by (intro conjI; (rule bit_word_eqI)?) (auto simp: bit_simps dest: bit_imp_le_length)

interpretation be16: field_codec uint16_bytes read_uint16 2
proof unfold_locales
  show "length (uint16_bytes v) = 2" for v
    by (simp add: uint16_bytes_def)
  show "read_uint16 (uint16_bytes v) = v" for v
    by (simp add: read_uint16_def uint16_bytes_def uint16_of_bytes)
  show "uint16_bytes (read_uint16 bs) = bs" if len: "length bs = 2" for bs
  proof -
    from len obtain a b where "bs = [a, b]"
      by (auto simp: length_Suc_conv numeral_eq_Suc)
    then show ?thesis by (simp add: read_uint16_def bytes_of_uint16_of)
  qed
qed

end
