(* ===== verification/Bencode_Types.thy ===== *)
theory Bencode_Types
  imports Loco_Prelude
begin

text \<open>
  The data of include/bencode_types.h, and the memory management of src/bencode_parser.c
  (\<open>free_bencode_object\<close>, \<open>free_elements_in_list\<close>, \<open>free_entries_in_dict\<close>, the growth of
  the item and entry arrays). A tagged union is a datatype whose constructors are the union's
  members; \<open>obj_type\<close> is the tag. An array of \<open>count\<close> initialised slots is a list of that
  length beside its capacity, and its pointer is NULL exactly when the capacity is 0.

  The allocator is a record: the answers the next calls of \<open>malloc\<close>, \<open>calloc\<close> and
  \<open>realloc\<close> give (an empty list means that memory never runs out) and the number of blocks
  that are allocated and not yet freed. Freeing a block twice would show in that number.
\<close>

section \<open>Types\<close>

datatype bencode_data_type = INTEGER | BYTE_STRING | LIST | DICTIONARY | INVALID

record bencode_segment =
  seg_data :: ptr
  seg_length :: size_t

datatype bencode_object =
    Object (obj_value: bencode_value) (start_offset: size_t) (encoded_length: size_t)
and bencode_value =
    Integer int64
  | Byte_String bencode_segment
  | List_Value "bencode_object list" size_t
  | Dictionary "bencode_entry list" size_t
  | No_Value
and bencode_entry =
    Entry (entry_key: bencode_segment) (entry_value: bencode_object)

fun value_type :: "bencode_value \<Rightarrow> bencode_data_type" where
  "value_type (Integer _) = INTEGER"
| "value_type (Byte_String _) = BYTE_STRING"
| "value_type (List_Value _ _) = LIST"
| "value_type (Dictionary _ _) = DICTIONARY"
| "value_type No_Value = INVALID"

definition obj_type :: "bencode_object \<Rightarrow> bencode_data_type" where
  "obj_type obj = value_type (obj_value obj)"

text \<open>The order of the enumeration's constants.\<close>

instantiation bencode_data_type :: linorder
begin

fun type_code :: "bencode_data_type \<Rightarrow> nat" where
  "type_code INTEGER = 0"
| "type_code BYTE_STRING = 1"
| "type_code LIST = 2"
| "type_code DICTIONARY = 3"
| "type_code INVALID = 4"

definition less_eq_bencode_data_type :: "bencode_data_type \<Rightarrow> bencode_data_type \<Rightarrow> bool" where
  "less_eq_bencode_data_type s t \<longleftrightarrow> type_code s \<le> type_code t"

definition less_bencode_data_type :: "bencode_data_type \<Rightarrow> bencode_data_type \<Rightarrow> bool" where
  "less_bencode_data_type s t \<longleftrightarrow> type_code s < type_code t"

lemma type_code_inject: "type_code s = type_code t \<Longrightarrow> s = t"
  by (cases s; cases t) auto

instance
  by standard (auto simp: less_eq_bencode_data_type_def less_bencode_data_type_def intro: type_code_inject)

end

text \<open>The bytes a segment denotes, when its pointer can be read that far.\<close>

definition valid_segment :: "bencode_segment \<Rightarrow> bool" where
  "valid_segment s \<longleftrightarrow> readable (seg_data s) (unat (seg_length s))"

definition seg_bytes :: "bencode_segment \<Rightarrow> byte list" where
  "seg_bytes s = (case read_bytes (seg_data s) (unat (seg_length s)) of None \<Rightarrow> [] | Some bs \<Rightarrow> bs)"

lemma read_segment: "valid_segment s \<Longrightarrow> read_bytes (seg_data s) (unat (seg_length s)) = Some (seg_bytes s)"
  by (cases "seg_data s") (auto simp: valid_segment_def seg_bytes_def)

lemma length_seg_bytes: "valid_segment s \<Longrightarrow> length (seg_bytes s) = unat (seg_length s)"
  by (metis length_read_bytes read_segment)

section \<open>The allocator\<close>

record heap =
  grants :: "bool list"
  live :: int

definition ask :: "heap \<Rightarrow> bool \<times> heap" where
  "ask h = (case grants h of [] \<Rightarrow> (True, h) | g # gs \<Rightarrow> (g, h\<lparr>grants := gs\<rparr>))"

text \<open>\<open>malloc\<close> and \<open>calloc\<close>: a new block, or NULL.\<close>

definition malloc :: "heap \<Rightarrow> bool \<times> heap" where
  "malloc h = (case ask h of (g, h) \<Rightarrow> (g, if g then h\<lparr>live := live h + 1\<rparr> else h))"

text \<open>\<open>realloc(p, n)\<close>: a new block when \<open>p\<close> is NULL, the same number of blocks otherwise.\<close>

definition realloc :: "bool \<Rightarrow> heap \<Rightarrow> bool \<times> heap" where
  "realloc is_null h = (if is_null then malloc h else ask h)"

definition free :: "bool \<Rightarrow> heap \<Rightarrow> heap" where
  "free is_null h = (if is_null then h else h\<lparr>live := live h - 1\<rparr>)"

text \<open>Every request the allocator is going to get succeeds.\<close>

definition plentiful :: "heap \<Rightarrow> bool" where
  "plentiful h \<longleftrightarrow> list_all id (grants h)"

named_theorems heap_simps \<open>effect of the allocator's operations\<close>

lemma live_ask [heap_simps]: "ask h = (g, h') \<Longrightarrow> live h' = live h"
  by (auto simp: ask_def split: list.splits)

lemma live_malloc [heap_simps]: "malloc h = (g, h') \<Longrightarrow> live h' = live h + (if g then 1 else 0)"
  by (auto simp: malloc_def heap_simps split: prod.splits if_splits)

lemma live_realloc [heap_simps]:
  "realloc is_null h = (g, h') \<Longrightarrow> live h' = live h + (if g \<and> is_null then 1 else 0)"
  by (auto simp: realloc_def heap_simps split: if_splits)

lemma live_free [heap_simps]: "live (free is_null h) = live h - (if is_null then 0 else 1)"
  by (simp add: free_def)

lemma grants_free [simp]: "grants (free is_null h) = grants h"
  by (simp add: free_def)

lemma plentiful_malloc: "plentiful h \<Longrightarrow> \<exists>h'. malloc h = (True, h') \<and> plentiful h'"
  by (auto simp: plentiful_def malloc_def ask_def split: list.splits)

lemma plentiful_realloc: "plentiful h \<Longrightarrow> \<exists>h'. realloc is_null h = (True, h') \<and> plentiful h'"
  by (auto simp: plentiful_def realloc_def malloc_def ask_def split: list.splits)

lemma plentiful_nil [simp]: "grants h = [] \<Longrightarrow> plentiful h"
  by (simp add: plentiful_def)

section \<open>Growing an array\<close>

text \<open>
  Before an element is added: when the array is full its capacity doubles (from 0 to 1),
  guarded against overflow of the capacity and of the byte count. The result is the capacity
  after the step, or \<open>None\<close> where the code gives up. \<open>sizeof(bencode_object_t)\<close> is 48 and
  \<open>sizeof(bencode_dictionary_entry_t)\<close> is 64 on LP64.
\<close>

abbreviation sizeof_object :: size_t where "sizeof_object \<equiv> 48"
abbreviation sizeof_entry :: size_t where "sizeof_entry \<equiv> 64"

definition grow_capacity :: "size_t \<Rightarrow> nat \<Rightarrow> size_t \<Rightarrow> heap \<Rightarrow> size_t option \<times> heap" where
  "grow_capacity elem_size count capacity h =
     (if of_nat count = capacity then
        if capacity > SIZE_MAX div 2 then (None, h)
        else
          let new_capacity = (if capacity = 0 then 1 else capacity * 2) in
          if new_capacity \<le> SIZE_MAX div elem_size then
            case realloc (capacity = 0) h of
              (False, h) \<Rightarrow> (None, h)
            | (True, h) \<Rightarrow> (Some new_capacity, h)
          else (None, h)
      else (Some capacity, h))"

section \<open>Freeing an object\<close>

fun free_bencode_object :: "bencode_object \<Rightarrow> heap \<Rightarrow> bencode_object \<times> heap"
and free_value :: "bencode_value \<Rightarrow> heap \<Rightarrow> heap"
and free_elements_in_list :: "bencode_object list \<Rightarrow> heap \<Rightarrow> heap"
and free_entries_in_dict :: "bencode_entry list \<Rightarrow> heap \<Rightarrow> heap" where
  "free_bencode_object (Object v s n) h = (Object No_Value s n, free_value v h)"
| "free_value (Integer _) h = h"
| "free_value (Byte_String _) h = h"
| "free_value (List_Value items capacity) h = free (capacity = 0) (free_elements_in_list items h)"
| "free_value (Dictionary entries capacity) h = free (capacity = 0) (free_entries_in_dict entries h)"
| "free_value No_Value h = h"
| "free_elements_in_list [] h = h"
| "free_elements_in_list (x # xs) h = free_elements_in_list xs (snd (free_bencode_object x h))"
| "free_entries_in_dict [] h = h"
| "free_entries_in_dict (Entry k x # es) h = free_entries_in_dict es (snd (free_bencode_object x h))"

text \<open>The blocks an object owns: one for each item or entry array that is not NULL.\<close>

fun owned :: "bencode_object \<Rightarrow> int"
and owned_value :: "bencode_value \<Rightarrow> int"
and owned_items :: "bencode_object list \<Rightarrow> int"
and owned_entries :: "bencode_entry list \<Rightarrow> int" where
  "owned (Object v s n) = owned_value v"
| "owned_value (Integer _) = 0"
| "owned_value (Byte_String _) = 0"
| "owned_value (List_Value items capacity) = owned_items items + (if capacity = 0 then 0 else 1)"
| "owned_value (Dictionary entries capacity) = owned_entries entries + (if capacity = 0 then 0 else 1)"
| "owned_value No_Value = 0"
| "owned_items [] = 0"
| "owned_items (x # xs) = owned x + owned_items xs"
| "owned_entries [] = 0"
| "owned_entries (Entry k x # es) = owned x + owned_entries es"

lemma owned_items_append [simp]: "owned_items (xs @ ys) = owned_items xs + owned_items ys"
  by (induction xs) auto

lemma owned_entries_append [simp]: "owned_entries (es @ fs) = owned_entries es + owned_entries fs"
proof (induction es)
  case (Cons e es)
  then show ?case by (cases e) simp
qed simp

text \<open>Freeing gives back exactly the blocks an object owns and leaves no value behind.\<close>

lemma live_free_object [heap_simps]:
  "live (snd (free_bencode_object x h)) = live h - owned x"
  "live (free_value v h) = live h - owned_value v"
  "live (free_elements_in_list xs h) = live h - owned_items xs"
  "live (free_entries_in_dict es h) = live h - owned_entries es"
  by (induction x h and v h and xs h and es h
      rule: free_bencode_object_free_value_free_elements_in_list_free_entries_in_dict.induct)
     (auto simp: heap_simps)

lemma free_object_invalid: "obj_type (fst (free_bencode_object x h)) = INVALID"
  by (cases x) (simp add: obj_type_def)

lemma owned_freed [simp]: "owned (fst (free_bencode_object x h)) = 0"
  by (cases x) simp

text \<open>Freeing the same variable again is harmless: the tag is INVALID by then.\<close>

lemma free_object_twice:
  "free_bencode_object (fst (free_bencode_object x h)) h' = (fst (free_bencode_object x h), h')"
  by (cases x) simp

lemma double_capacity:
  assumes "\<not> cap > SIZE_MAX div 2"
  shows "unat (cap * 2) = unat cap * 2"
proof -
  have "unat cap \<le> 9223372036854775807"
    using assms by (simp add: not_less word_le_nat_alt unat_div)
  then show ?thesis by (simp add: unat_times_bounded)
qed

lemma double_capacity_nonzero: "\<not> cap > SIZE_MAX div 2 \<Longrightarrow> cap \<noteq> 0 \<Longrightarrow> cap * 2 \<noteq> 0"
  by (metis double_capacity mult_eq_0_iff unat_0 unat_eq_zero zero_neq_numeral)

lemma grow_capacity_None: "grow_capacity sz count cap h = (None, h') \<Longrightarrow> live h' = live h"
  by (auto simp: grow_capacity_def Let_def live_realloc split: if_splits prod.splits bool.splits)

lemma grow_capacity_Some:
  assumes "grow_capacity sz count cap h = (Some cap', h')"
  shows "cap' = cap \<and> h' = h \<or> cap' \<noteq> 0 \<and> live h' = live h + (if cap = 0 then 1 else 0)"
proof (cases "of_nat count = cap \<and> \<not> cap > SIZE_MAX div 2")
  case True
  then show ?thesis
    using assms double_capacity_nonzero [of cap]
    by (cases "realloc (cap = 0) h")
       (simp add: grow_capacity_def Let_def live_realloc split: if_splits bool.splits)
next
  case False
  then show ?thesis using assms by (simp add: grow_capacity_def split: if_splits)
qed

end
