(* ===== verification/Decimal_Text.thy ===== *)
theory Decimal_Text
  imports Loco_Prelude
begin

text \<open>
  Decimal digits: the \<open>isdigit\<close> of the C library, the value of a run of digits as the loops of
  src/bencode_parser.c accumulate it, and the decimal text of a number as
  \<open>snprintf\<close> with \<open>PRIu16\<close> and \<open>PRIu64\<close> writes it for src/tracker.c.
\<close>

section \<open>Characters\<close>

lemma chr_simps [simp]:
  "chr (CHR ''0'') = 48" "chr (CHR ''9'') = 57" "chr (CHR ''i'') = 105" "chr (CHR ''l'') = 108"
  "chr (CHR ''d'') = 100" "chr (CHR ''e'') = 101" "chr (CHR ''-'') = 45" "chr (CHR '':'') = 58"
  by (simp_all add: chr_def)

definition isdigit :: "byte \<Rightarrow> bool" where
  "isdigit b \<longleftrightarrow> chr (CHR ''0'') \<le> b \<and> b \<le> chr (CHR ''9'')"

section \<open>Decimal values\<close>

definition digit_value :: "byte \<Rightarrow> nat" where
  "digit_value b = unat b - 48"

fun decimal_from :: "nat \<Rightarrow> byte list \<Rightarrow> nat" where
  "decimal_from v [] = v"
| "decimal_from v (d # ds) = decimal_from (v * 10 + digit_value d) ds"

abbreviation decimal :: "byte list \<Rightarrow> nat" where
  "decimal \<equiv> decimal_from 0"

abbreviation digits :: "byte list \<Rightarrow> byte list" where
  "digits \<equiv> takeWhile isdigit"

abbreviation after_digits :: "byte list \<Rightarrow> byte list" where
  "after_digits \<equiv> dropWhile isdigit"

lemma decimal_from_ge: "v \<le> decimal_from v ds"
  by (induction v ds rule: decimal_from.induct) auto

lemma decimal_from_append [simp]: "decimal_from v (ds @ es) = decimal_from (decimal_from v ds) es"
  by (induction ds arbitrary: v) auto

lemma isdigit_range: "isdigit b \<longleftrightarrow> 48 \<le> unat b \<and> unat b \<le> 57"
  by (simp add: isdigit_def word_le_nat_alt)

lemma isdigit_chars [simp]:
  "\<not> isdigit 58" "\<not> isdigit 101" "\<not> isdigit 105" "\<not> isdigit 45" "\<not> isdigit 108" "\<not> isdigit 100"
  "isdigit 48"
  by (simp_all add: isdigit_def)

lemma digit_value_less: "isdigit b \<Longrightarrow> digit_value b < 10"
  by (auto simp: isdigit_range digit_value_def)

lemma digit_value_0: "isdigit b \<Longrightarrow> digit_value b = 0 \<longleftrightarrow> b = 48"
  by (auto simp: isdigit_range digit_value_def word_unat_eq_iff)

lemma unat_ucast_byte [simp]: "unat (ucast (b :: byte) :: uint64) = unat b"
  using unsigned_less [of b, where 'a=nat] by (simp add: unsigned_ucast_eq take_bit_eq_mod)

lemma unat_digit: "isdigit b \<Longrightarrow> unat (ucast b - 48 :: uint64) = digit_value b"
proof -
  assume "isdigit b"
  then have "(48 :: uint64) \<le> ucast b"
    by (simp add: isdigit_range word_le_nat_alt)
  then show ?thesis
    by (simp add: unat_sub digit_value_def)
qed

section \<open>Decimal text\<close>

fun nat_text :: "nat \<Rightarrow> byte list" where
  "nat_text n =
     (if n < 10 then [of_nat (48 + n)] else nat_text (n div 10) @ [of_nat (48 + n mod 10)])"

declare nat_text.simps [simp del]

lemma nat_text_small: "n < 10 \<Longrightarrow> nat_text n = [of_nat (48 + n)]"
  by (simp add: nat_text.simps)

lemma nat_text_step: "10 \<le> n \<Longrightarrow> nat_text n = nat_text (n div 10) @ [of_nat (48 + n mod 10)]"
  by (simp add: nat_text.simps)

lemma unat_digit_char: "d < 10 \<Longrightarrow> unat (of_nat (48 + d) :: byte) = 48 + d"
  by (simp add: unat_of_nat take_bit_eq_mod del: of_nat_add)

lemma digit_char: "d < 10 \<Longrightarrow> isdigit (of_nat (48 + d)) \<and> digit_value (of_nat (48 + d)) = d"
  using unat_digit_char [of d] by (simp add: isdigit_range digit_value_def del: of_nat_add)

lemma nat_text_nonempty [simp]: "nat_text n \<noteq> []"
  by (subst nat_text.simps) simp

lemma nat_text_digits: "list_all isdigit (nat_text n)"
proof (induction n rule: nat_text.induct)
  case (1 n)
  then show ?case
    using digit_char by (cases "n < 10") (simp_all add: nat_text_small nat_text_step del: of_nat_add)
qed

lemma decimal_nat_text [simp]: "decimal (nat_text n) = n"
proof (induction n rule: nat_text.induct)
  case (1 n)
  then show ?case
    using digit_char by (cases "n < 10") (simp_all add: nat_text_small nat_text_step del: of_nat_add)
qed

lemma hd_nat_text: "0 < n \<Longrightarrow> hd (nat_text n) \<noteq> 48"
proof (induction n rule: nat_text.induct)
  case (1 n)
  show ?case
  proof (cases "n < 10")
    case True
    then have "unat (hd (nat_text n)) = 48 + n"
      using unat_digit_char by (simp add: nat_text_small del: of_nat_add)
    then show ?thesis using "1.prems" by auto
  next
    case False
    then show ?thesis using 1 by (simp add: nat_text_step hd_append)
  qed
qed

text \<open>A run of digits without a leading zero is the decimal text of its value.\<close>

lemma nat_text_decimal:
  "list_all isdigit ds \<Longrightarrow> ds \<noteq> [] \<Longrightarrow> (2 \<le> length ds \<longrightarrow> hd ds \<noteq> 48) \<Longrightarrow> nat_text (decimal ds) = ds"
proof (induction ds rule: rev_induct)
  case (snoc d ds)
  have d: "digit_value d < 10" "of_nat (48 + digit_value d) = d"
    using snoc.prems(1) by (auto simp: isdigit_range digit_value_def)
  show ?case
  proof (cases "ds = []")
    case True
    then show ?thesis using d by (simp add: nat_text_small del: of_nat_add)
  next
    case False
    then have hd: "hd ds \<noteq> 48" using snoc.prems by (cases ds) auto
    then have IH: "nat_text (decimal ds) = ds"
      using snoc False by simp
    have "decimal ds \<noteq> 0"
    proof
      assume "decimal ds = 0"
      with IH have "ds = [48]" by (simp add: nat_text_small)
      with hd show False by simp
    qed
    then have "10 \<le> decimal ds * 10 + digit_value d" by linarith
    moreover have "(decimal ds * 10 + digit_value d) div 10 = decimal ds"
      "(decimal ds * 10 + digit_value d) mod 10 = digit_value d"
      using d by auto
    ultimately show ?thesis using IH d by (simp add: nat_text_step del: of_nat_add)
  qed
qed simp

lemma takeWhile_digits_append:
  "list_all isdigit ds \<Longrightarrow> \<not> isdigit c \<Longrightarrow> digits (ds @ c # rest) = ds \<and> after_digits (ds @ c # rest) = c # rest"
  by (induction ds) auto

end
