(* ===== verification/Bencode_Scan.thy ===== *)
theory Bencode_Scan
  imports Bencode_Types Decimal_Text
begin

text \<open>
  The scanning half of src/bencode_parser.c: the parser state, the byte cursor
  (\<open>peek_current_byte\<close>, \<open>consume_current_byte\<close>) and the parsers of the two flat forms,
  byte strings and integers, with the loops over their decimal digits.

  The proofs read a parser state as the list of bytes it has not consumed yet
  (\<open>remaining\<close>): an operation that succeeds advances the state by the number of bytes it
  used, one that fails gives the state back, and a loop computes what a list function says.
\<close>

section \<open>The parser state\<close>

record parser_state =
  ps_data :: ptr
  ps_length :: size_t
  ps_position :: size_t

definition is_valid_parser :: "ptr \<Rightarrow> size_t \<Rightarrow> bool" where
  "is_valid_parser data len = (if data = NULL \<and> len > 0 then False else True)"

definition bencode_parser_init :: "ptr \<Rightarrow> size_t \<Rightarrow> parser_state option" where
  "bencode_parser_init data len =
     (if is_valid_parser data len = False then None
      else Some \<lparr>ps_data = data, ps_length = len, ps_position = 0\<rparr>)"

text \<open>\<open>parser->position = start\<close>, the code's way back on every failure.\<close>

definition rewind :: "size_t \<Rightarrow> parser_state \<Rightarrow> parser_state" where
  "rewind start p = p\<lparr>ps_position := start\<rparr>"

definition byte_exists_at_position :: "parser_state \<Rightarrow> bool" where
  "byte_exists_at_position p = (if ps_position p < ps_length p then True else False)"

definition peek_current_byte :: "parser_state \<Rightarrow> byte option option" where
  "peek_current_byte p =
     (if \<not> byte_exists_at_position p then Some None
      else if ps_data p = NULL then Some None
      else do {
        b \<leftarrow> deref (ps_data p) (unat (ps_position p));
        Some (Some b)
      })"

definition consume_current_byte :: "parser_state \<Rightarrow> (byte option \<times> parser_state) option" where
  "consume_current_byte p = do {
     byte_obtained \<leftarrow> peek_current_byte p;
     case byte_obtained of
       None \<Rightarrow> Some (None, p)
     | Some b \<Rightarrow> Some (Some b, p\<lparr>ps_position := ps_position p + 1\<rparr>)
   }"

section \<open>What a byte announces\<close>

definition determine_bencode_data_type :: "byte \<Rightarrow> bencode_data_type" where
  "determine_bencode_data_type b =
     (if b \<ge> chr (CHR ''0'') \<and> b \<le> chr (CHR ''9'') then BYTE_STRING
      else if b = chr (CHR ''i'') then INTEGER
      else if b = chr (CHR ''l'') then LIST
      else if b = chr (CHR ''d'') then DICTIONARY
      else INVALID)"

section \<open>Byte strings\<close>

text \<open>
  The digit loop of \<open>determine_byte_string_length\<close>: \<open>current_byte\<close> is already consumed. Its
  termination measure is the distance from the position to the end of the data.
\<close>

lemma consume_decreases:
  "consume_current_byte p = Some (Some b, q) \<Longrightarrow>
   unat (ps_length q) - unat (ps_position q) < unat (ps_length p) - unat (ps_position p)"
  by (auto simp: consume_current_byte_def peek_current_byte_def byte_exists_at_position_def
        unat_inc word_less_nat_alt split: if_splits option.splits bind_splits)

function determine_length_loop ::
    "size_t \<Rightarrow> size_t \<Rightarrow> byte \<Rightarrow> parser_state \<Rightarrow> (size_t option \<times> parser_state) option" where
  "determine_length_loop start len current_byte p =
     (if isdigit current_byte then
        let digit = ucast current_byte - 48 :: size_t in
        if len > (SIZE_MAX - digit) div 10 then Some (None, rewind start p)
        else do {
          (consume_result, p) \<leftarrow> consume_current_byte p;
          case consume_result of
            None \<Rightarrow> Some (None, rewind start p)
          | Some b \<Rightarrow> determine_length_loop start (len * 10 + digit) b p
        }
      else if current_byte = chr (CHR '':'') then Some (Some len, p)
      else Some (None, rewind start p))"
  by pat_completeness auto
termination
  by (relation "measure (\<lambda>(_, _, _, p). unat (ps_length p) - unat (ps_position p))")
     (auto dest: consume_decreases)

declare determine_length_loop.simps [simp del]

definition determine_byte_string_length :: "parser_state \<Rightarrow> (size_t option \<times> parser_state) option" where
  "determine_byte_string_length p = do {
     let starting_position = ps_position p;
     (consume_result, p) \<leftarrow> consume_current_byte p;
     case consume_result of
       None \<Rightarrow> Some (None, rewind starting_position p)
     | Some current_byte \<Rightarrow>
         if \<not> isdigit current_byte then Some (None, rewind starting_position p)
         else determine_length_loop starting_position 0 current_byte p
   }"

definition get_available_byte_count :: "parser_state \<Rightarrow> size_t option" where
  "get_available_byte_count p =
     (if ps_position p > ps_length p then None else Some (ps_length p - ps_position p))"

definition bytes_exist_from_current_parser_position :: "parser_state \<Rightarrow> size_t \<Rightarrow> bool" where
  "bytes_exist_from_current_parser_position p needed_byte_length =
     (case get_available_byte_count p of
        None \<Rightarrow> False
      | Some available_bytes \<Rightarrow> needed_byte_length \<le> available_bytes)"

definition read_bencode_string :: "parser_state \<Rightarrow> size_t \<Rightarrow> (bencode_segment \<times> parser_state) option" where
  "read_bencode_string p string_len = do {
     data \<leftarrow> ptr_add (ps_data p) (unat (ps_position p));
     Some (\<lparr>seg_data = data, seg_length = string_len\<rparr>,
           p\<lparr>ps_position := ps_position p + string_len\<rparr>)
   }"

definition parse_bencode_string :: "parser_state \<Rightarrow> (bencode_segment option \<times> parser_state) option" where
  "parse_bencode_string p = do {
     let start_position = ps_position p;
     (string_length_determined, p) \<leftarrow> determine_byte_string_length p;
     case string_length_determined of
       None \<Rightarrow> Some (None, rewind start_position p)
     | Some string_len \<Rightarrow>
         if \<not> bytes_exist_from_current_parser_position p string_len
         then Some (None, rewind start_position p)
         else do {
           (segment, p) \<leftarrow> read_bencode_string p string_len;
           Some (Some segment, p)
         }
   }"

section \<open>Integers\<close>

function integer_loop ::
    "size_t \<Rightarrow> bool \<Rightarrow> uint64 \<Rightarrow> byte \<Rightarrow> parser_state \<Rightarrow> ((uint64 \<times> byte) option \<times> parser_state) option" where
  "integer_loop start negative_sign magnitude current_byte p =
     (if isdigit current_byte then
        let digit = ucast current_byte - 48 :: uint64 in
        if \<not> negative_sign \<and> magnitude > (INT64_MAX - digit) div 10
        then Some (None, rewind start p)
        else if negative_sign \<and> magnitude > (INT64_MAX + 1 - digit) div 10
        then Some (None, rewind start p)
        else
          let magnitude = magnitude * 10 + digit in
          do {
            (consume_result, p) \<leftarrow> consume_current_byte p;
            case consume_result of
              None \<Rightarrow> Some (None, rewind start p)
            | Some current_byte \<Rightarrow>
                if magnitude = 0 \<and> isdigit current_byte then Some (None, rewind start p)
                else integer_loop start negative_sign magnitude current_byte p
          }
      else Some (Some (magnitude, current_byte), p))"
  by pat_completeness auto
termination
  by (relation "measure (\<lambda>(_, _, _, _, p). unat (ps_length p) - unat (ps_position p))")
     (auto dest: consume_decreases)

declare integer_loop.simps [simp del]

text \<open>From the first byte after the sign on.\<close>

definition parse_integer_magnitude ::
    "size_t \<Rightarrow> bool \<Rightarrow> byte \<Rightarrow> parser_state \<Rightarrow> (int64 option \<times> parser_state) option" where
  "parse_integer_magnitude start negative_sign current_byte p =
     (if current_byte = chr (CHR ''e'') then Some (None, rewind start p)
      else if negative_sign \<and> current_byte = chr (CHR ''0'') then Some (None, rewind start p)
      else do {
        (loop_result, p) \<leftarrow> integer_loop start negative_sign 0 current_byte p;
        case loop_result of
          None \<Rightarrow> Some (None, p)
        | Some (magnitude, current_byte) \<Rightarrow>
            if current_byte = chr (CHR ''e'') then
              let integer_value =
                (if negative_sign then
                   if magnitude = INT64_MAX + 1 then INT64_MIN else magnitude * (- 1)
                 else magnitude)
              in Some (Some integer_value, p)
            else Some (None, rewind start p)
      })"

definition parse_bencode_integer :: "parser_state \<Rightarrow> (int64 option \<times> parser_state) option" where
  "parse_bencode_integer p = do {
     let parser_start_position = ps_position p;
     (first_byte, p) \<leftarrow> consume_current_byte p;
     if first_byte \<noteq> Some (chr (CHR ''i'')) then Some (None, rewind parser_start_position p)
     else do {
       (next_byte, p) \<leftarrow> consume_current_byte p;
       case next_byte of
         None \<Rightarrow> Some (None, rewind parser_start_position p)
       | Some current_byte \<Rightarrow>
           if current_byte = chr (CHR ''-'') then do {
             (next_byte, p) \<leftarrow> consume_current_byte p;
             case next_byte of
               None \<Rightarrow> Some (None, rewind parser_start_position p)
             | Some current_byte \<Rightarrow> parse_integer_magnitude parser_start_position True current_byte p
           }
           else parse_integer_magnitude parser_start_position False current_byte p
     }
   }"

section \<open>The cursor as a list of bytes\<close>

text \<open>The state's length is truthful about its block and the position is not past the end.\<close>

definition wf_parser :: "parser_state \<Rightarrow> bool" where
  "wf_parser p \<longleftrightarrow>
     (case ps_data p of NULL \<Rightarrow> ps_length p = 0 | Ptr b k \<Rightarrow> k + unat (ps_length p) \<le> length b) \<and>
     ps_position p \<le> ps_length p"

definition remaining :: "parser_state \<Rightarrow> byte list" where
  "remaining p =
     (case ps_data p of
        NULL \<Rightarrow> []
      | Ptr b k \<Rightarrow> take (unat (ps_length p) - unat (ps_position p)) (drop (k + unat (ps_position p)) b))"

definition advance :: "nat \<Rightarrow> parser_state \<Rightarrow> parser_state" where
  "advance n p = p\<lparr>ps_position := ps_position p + of_nat n\<rparr>"

named_theorems cursor_simps \<open>the cursor operations on the list view\<close>

lemma advance_0 [simp]: "advance 0 p = p"
  by (simp add: advance_def)

lemma advance_advance [simp]: "advance m (advance n p) = advance (n + m) p"
  by (simp add: advance_def add.assoc)

lemma rewind_advance [simp]: "rewind (ps_position p) (advance n p) = p"
  by (simp add: rewind_def advance_def)

lemma rewind_same [simp]: "rewind (ps_position p) p = p"
  by (simp add: rewind_def)

lemma rewind_id: "ps_position p = s \<Longrightarrow> rewind s p = p"
  by auto

lemma advance_input [simp]:
  "ps_data (advance n p) = ps_data p" "ps_length (advance n p) = ps_length p"
  by (simp_all add: advance_def)

lemma length_remaining:
  "wf_parser p \<Longrightarrow> length (remaining p) = unat (ps_length p) - unat (ps_position p)"
  by (auto simp: wf_parser_def remaining_def word_le_nat_alt split: ptr.splits)

lemma advance_room:
  "wf_parser p \<Longrightarrow> n \<le> length (remaining p) \<Longrightarrow>
   unat (ps_position p) + n \<le> unat (ps_length p)"
  by (auto simp: length_remaining wf_parser_def word_le_nat_alt)

lemma position_advance:
  assumes "wf_parser p" "n \<le> length (remaining p)"
  shows "unat (ps_position (advance n p)) = unat (ps_position p) + n"
proof -
  have "unat (ps_position p) + n \<le> unat (ps_length p)"
    using assms by (rule advance_room)
  also have "\<dots> < 2 ^ 64" by (rule unat_size_lt)
  finally show ?thesis
    by (simp add: advance_def unat_plus_bounded unat_of_nat_size)
qed

lemma wf_advance [cursor_simps]:
  assumes "wf_parser p" "n \<le> length (remaining p)"
  shows "wf_parser (advance n p)"
  using assms position_advance [OF assms] advance_room [OF assms]
  by (simp add: wf_parser_def word_le_nat_alt split: ptr.splits)

lemma remaining_advance [cursor_simps]:
  assumes "wf_parser p" "n \<le> length (remaining p)"
  shows "remaining (advance n p) = drop n (remaining p)"
  using position_advance [OF assms]
  by (auto simp: remaining_def drop_take algebra_simps split: ptr.splits)

lemma byte_exists_iff: "wf_parser p \<Longrightarrow> byte_exists_at_position p \<longleftrightarrow> remaining p \<noteq> []"
  by (simp add: byte_exists_at_position_def word_less_nat_alt length_remaining flip: length_greater_0_conv)

lemma deref_remaining:
  "wf_parser p \<Longrightarrow> i < length (remaining p) \<Longrightarrow>
   deref (ps_data p) (unat (ps_position p) + i) = Some (remaining p ! i)"
  by (auto simp: wf_parser_def remaining_def word_le_nat_alt algebra_simps split: ptr.splits)

lemma peek_remaining [cursor_simps]:
  assumes "wf_parser p"
  shows "peek_current_byte p = Some (case remaining p of [] \<Rightarrow> None | b # _ \<Rightarrow> Some b)"
proof (cases "remaining p")
  case Nil
  then show ?thesis
    using assms by (simp add: peek_current_byte_def byte_exists_iff)
next
  case (Cons b bs)
  then have "ps_data p \<noteq> NULL" by (auto simp: remaining_def)
  then show ?thesis
    using assms Cons deref_remaining [of p 0]
    by (simp add: peek_current_byte_def byte_exists_iff)
qed

lemma consume_remaining [cursor_simps]:
  "wf_parser p \<Longrightarrow>
   consume_current_byte p =
     Some (case remaining p of [] \<Rightarrow> (None, p) | b # _ \<Rightarrow> (Some b, advance 1 p))"
  by (simp add: consume_current_byte_def peek_remaining advance_def split: list.splits)

lemma bytes_exist_iff [cursor_simps]:
  "wf_parser p \<Longrightarrow> bytes_exist_from_current_parser_position p n \<longleftrightarrow> unat n \<le> length (remaining p)"
  by (auto simp: bytes_exist_from_current_parser_position_def get_available_byte_count_def
        length_remaining wf_parser_def word_le_nat_alt word_less_nat_alt unat_sub)

text \<open>Initialising from a truthful buffer gives a well-formed state that has everything to read.\<close>

lemma init_wf:
  assumes "readable data (unat len)" "bencode_parser_init data len = Some p"
  shows "wf_parser p \<and> remaining p = take (unat len) (drop (offset data) (block data)) \<and> ps_position p = 0"
  using assms
  by (cases data) (auto simp: bencode_parser_init_def is_valid_parser_def wf_parser_def remaining_def split: if_splits)

lemma init_Some: "readable data (unat len) \<Longrightarrow> \<exists>p. bencode_parser_init data len = Some p"
  by (cases data) (auto simp: bencode_parser_init_def is_valid_parser_def)

section \<open>The contract of a scanner\<close>

text \<open>
  What the parsers rely on when they call another: on a well-formed state it is defined, a
  failure leaves the state as it was, a success consumes at least one of the bytes there are.
\<close>

locale scanner =
  fixes run :: "parser_state \<Rightarrow> ('a option \<times> parser_state) option"
  assumes defined: "wf_parser p \<Longrightarrow> \<exists>r q. run p = Some (r, q)"
    and failure: "wf_parser p \<Longrightarrow> run p = Some (None, q) \<Longrightarrow> q = p"
    and success: "wf_parser p \<Longrightarrow> run p = Some (Some x, q) \<Longrightarrow>
      \<exists>n. 0 < n \<and> n \<le> length (remaining p) \<and> q = advance n p"
begin

lemma outcome:
  assumes "wf_parser p"
  obtains "run p = Some (None, p)"
  | x n where "run p = Some (Some x, advance n p)" "0 < n" "n \<le> length (remaining p)"
  using assms defined failure success by (metis option.exhaust)

lemma success_wf: "wf_parser p \<Longrightarrow> run p = Some (r, q) \<Longrightarrow> wf_parser q"
  by (metis failure success option.exhaust wf_advance)

lemma success_input:
  "wf_parser p \<Longrightarrow> run p = Some (r, q) \<Longrightarrow> ps_data q = ps_data p \<and> ps_length q = ps_length p"
  by (metis failure success option.exhaust advance_input)

lemma success_position:
  assumes "wf_parser p" "run p = Some (Some x, q)"
  shows "ps_position p < ps_position q \<and> ps_position q \<le> ps_length p"
proof -
  obtain n where n: "0 < n" "n \<le> length (remaining p)" "q = advance n p"
    using success [OF assms] by blast
  then show ?thesis
    using assms(1) wf_advance [OF assms(1) n(2)] position_advance [OF assms(1) n(2)]
    by (simp add: word_less_nat_alt wf_parser_def)
qed

lemma success_shorter:
  "wf_parser p \<Longrightarrow> run p = Some (Some x, q) \<Longrightarrow> length (remaining q) < length (remaining p)"
  using success by (fastforce simp: remaining_advance)

end

interpretation byte: scanner consume_current_byte
  by unfold_locales (auto simp: consume_remaining split: list.splits)

end
