(* ===== verification/Bencode_Parser.thy ===== *)
theory Bencode_Parser
  imports Bencode_Scan
begin

text \<open>
  The recursive half of src/bencode_parser.c: \<open>parse_bencode_list\<close>, \<open>parse_bencode_dict\<close> and
  \<open>parse_bencode_buffer\<close>, with the two \<open>while\<close> loops as functions of their own. Each takes
  the parser state and the allocator and returns both; \<open>None\<close> inside the result is the C
  function's \<open>false\<close>.

  The code's recursion is untied: the list and dictionary parsers take the parser of a nested
  object as their argument, and \<open>parse_buffer_fuel\<close> ties the knot, spending one unit of fuel
  per nesting level and one per element of a list or dictionary. \<open>parse_bencode_buffer\<close>, the
  function the other components call, starts with one unit more than there are bytes left,
  which the theory \<open>Bencode_Safety\<close> proves to be enough on every input.
\<close>

section \<open>The order of dictionary keys\<close>

text \<open>The check between two entries: \<open>True\<close> when the new key may follow the previous one.\<close>

definition key_may_follow :: "bencode_segment \<Rightarrow> bencode_segment \<Rightarrow> bool option" where
  "key_may_follow previous_key current_key = do {
     let compare_length =
       (if seg_length previous_key < seg_length current_key
        then seg_length previous_key else seg_length current_key);
     previous \<leftarrow> read_bytes (seg_data previous_key) (unat compare_length);
     current \<leftarrow> read_bytes (seg_data current_key) (unat compare_length);
     let cmp_result = memcmp previous current;
     if cmp_result > 0 then Some False
     else if cmp_result = 0 \<and> seg_length previous_key \<ge> seg_length current_key then Some False
     else Some True
   }"

definition key_in_order :: "bencode_entry list \<Rightarrow> bencode_segment \<Rightarrow> bool option" where
  "key_in_order entries current_key =
     (if length entries > 0
      then key_may_follow (entry_key (entries ! (length entries - 1))) current_key
      else Some True)"

section \<open>The parsers\<close>

text \<open>Giving up on a list or a dictionary: free what was built, go back to the start.\<close>

definition discard_list ::
    "bencode_object list \<Rightarrow> size_t \<Rightarrow> heap \<Rightarrow> heap" where
  "discard_list items capacity h = free (capacity = 0) (free_elements_in_list items h)"

definition discard_dict ::
    "bencode_entry list \<Rightarrow> size_t \<Rightarrow> heap \<Rightarrow> heap" where
  "discard_dict entries capacity h = free (capacity = 0) (free_entries_in_dict entries h)"

type_synonym object_parser =
  "parser_state \<Rightarrow> heap \<Rightarrow> (bencode_object option \<times> parser_state \<times> heap) option"

text \<open>The loop of \<open>parse_bencode_list\<close>, with the array built so far.\<close>

primrec list_loop ::
    "nat \<Rightarrow> object_parser \<Rightarrow> size_t \<Rightarrow> bencode_object list \<Rightarrow> size_t \<Rightarrow> byte \<Rightarrow> parser_state \<Rightarrow> heap \<Rightarrow>
      ((bencode_object list \<times> size_t) option \<times> parser_state \<times> heap) option" where
  "list_loop 0 parse start items capacity current_byte p h = None"
| "list_loop (Suc fuel) parse start items capacity current_byte p h =
     (if current_byte \<noteq> chr (CHR ''e'') then do {
        (parsed, p, h) \<leftarrow> parse p h;
        case parsed of
          None \<Rightarrow> Some (None, rewind start p, discard_list items capacity h)
        | Some temp_obj \<Rightarrow>
            (case grow_capacity sizeof_object (length items) capacity h of
               (None, h) \<Rightarrow>
                 Some (None, rewind start p,
                   discard_list items capacity (snd (free_bencode_object temp_obj h)))
             | (Some capacity, h) \<Rightarrow>
                 let items = items @ [temp_obj] in
                 do {
                   next_byte \<leftarrow> peek_current_byte p;
                   case next_byte of
                     None \<Rightarrow> Some (None, rewind start p, discard_list items capacity h)
                   | Some current_byte \<Rightarrow> list_loop fuel parse start items capacity current_byte p h
                 })
      }
      else do {
        (last_byte, p) \<leftarrow> consume_current_byte p;
        case last_byte of
          None \<Rightarrow> Some (None, rewind start p, discard_list items capacity h)
        | Some current_byte \<Rightarrow>
            if current_byte = chr (CHR ''e'') then Some (Some (items, capacity), p, h)
            else Some (None, rewind start p, discard_list items capacity h)
      })"

definition parse_bencode_list ::
    "nat \<Rightarrow> object_parser \<Rightarrow> parser_state \<Rightarrow> heap \<Rightarrow>
      ((bencode_object list \<times> size_t) option \<times> parser_state \<times> heap) option" where
  "parse_bencode_list fuel parse p h = do {
     let parser_start_position = ps_position p;
     (first_byte, p) \<leftarrow> consume_current_byte p;
     if first_byte \<noteq> Some (chr (CHR ''l'')) then Some (None, rewind parser_start_position p, h)
     else do {
       next_byte \<leftarrow> peek_current_byte p;
       case next_byte of
         None \<Rightarrow> Some (None, rewind parser_start_position p, h)
       | Some current_byte \<Rightarrow>
           if current_byte = chr (CHR ''e'') then do {
             (next_byte, p) \<leftarrow> consume_current_byte p;
             case next_byte of
               None \<Rightarrow> Some (None, rewind parser_start_position p, h)
             | Some _ \<Rightarrow> Some (Some ([], 0), p, h)
           }
           else list_loop fuel parse parser_start_position [] 0 current_byte p h
     }
   }"

text \<open>The loop of \<open>parse_bencode_dict\<close>.\<close>

primrec dict_loop ::
    "nat \<Rightarrow> object_parser \<Rightarrow> size_t \<Rightarrow> bencode_entry list \<Rightarrow> size_t \<Rightarrow> byte \<Rightarrow> parser_state \<Rightarrow> heap \<Rightarrow>
      ((bencode_entry list \<times> size_t) option \<times> parser_state \<times> heap) option" where
  "dict_loop 0 parse start entries capacity current_byte p h = None"
| "dict_loop (Suc fuel) parse start entries capacity current_byte p h =
     (if current_byte \<noteq> chr (CHR ''e'') then do {
        (key_parsed, p) \<leftarrow> parse_bencode_string p;
        case key_parsed of
          None \<Rightarrow> Some (None, rewind start p, discard_dict entries capacity h)
        | Some current_key \<Rightarrow> do {
            in_order \<leftarrow> key_in_order entries current_key;
            if \<not> in_order then Some (None, rewind start p, discard_dict entries capacity h)
            else do {
              (value_parsed, p, h) \<leftarrow> parse p h;
              case value_parsed of
                None \<Rightarrow> Some (None, rewind start p, discard_dict entries capacity h)
              | Some current_value \<Rightarrow>
                  (case grow_capacity sizeof_entry (length entries) capacity h of
                     (None, h) \<Rightarrow>
                       Some (None, rewind start p,
                         discard_dict entries capacity (snd (free_bencode_object current_value h)))
                   | (Some capacity, h) \<Rightarrow>
                       let entries = entries @ [Entry current_key current_value] in
                       do {
                         next_byte \<leftarrow> peek_current_byte p;
                         case next_byte of
                           None \<Rightarrow> Some (None, rewind start p, discard_dict entries capacity h)
                         | Some current_byte \<Rightarrow>
                             dict_loop fuel parse start entries capacity current_byte p h
                       })
            }
          }
      }
      else do {
        (last_byte, p) \<leftarrow> consume_current_byte p;
        case last_byte of
          None \<Rightarrow> Some (None, rewind start p, discard_dict entries capacity h)
        | Some _ \<Rightarrow> Some (Some (entries, capacity), p, h)
      })"

definition parse_bencode_dict ::
    "nat \<Rightarrow> object_parser \<Rightarrow> parser_state \<Rightarrow> heap \<Rightarrow>
      ((bencode_entry list \<times> size_t) option \<times> parser_state \<times> heap) option" where
  "parse_bencode_dict fuel parse p h = do {
     let parser_start_position = ps_position p;
     (first_byte, p) \<leftarrow> consume_current_byte p;
     if first_byte \<noteq> Some (chr (CHR ''d'')) then Some (None, rewind parser_start_position p, h)
     else do {
       next_byte \<leftarrow> peek_current_byte p;
       case next_byte of
         None \<Rightarrow> Some (None, rewind parser_start_position p, h)
       | Some current_byte \<Rightarrow>
           if current_byte = chr (CHR ''e'') then do {
             (next_byte, p) \<leftarrow> consume_current_byte p;
             case next_byte of
               None \<Rightarrow> Some (None, rewind parser_start_position p, h)
             | Some _ \<Rightarrow> Some (Some ([], 0), p, h)
           }
           else dict_loop fuel parse parser_start_position [] 0 current_byte p h
     }
   }"

text \<open>\<open>parse_bencode_buffer\<close>: one branch per data type, then the offsets of the result.\<close>

primrec parse_buffer_fuel :: "nat \<Rightarrow> object_parser" where
  "parse_buffer_fuel 0 p h = None"
| "parse_buffer_fuel (Suc fuel) p h = do {
     let parser_start_position = ps_position p;
     byte_obtained \<leftarrow> peek_current_byte p;
     case byte_obtained of
       None \<Rightarrow> Some (None, p, h)
     | Some out_byte \<Rightarrow>
         let finish = (\<lambda>value p.
           Object value parser_start_position (ps_position p - parser_start_position)) in
         (case determine_bencode_data_type out_byte of
           INVALID \<Rightarrow> Some (None, p, h)
         | BYTE_STRING \<Rightarrow> do {
             (segment, p) \<leftarrow> parse_bencode_string p;
             case segment of
               None \<Rightarrow> Some (None, rewind parser_start_position p, h)
             | Some segment \<Rightarrow> Some (Some (finish (Byte_String segment) p), p, h)
           }
         | INTEGER \<Rightarrow> do {
             (integer, p) \<leftarrow> parse_bencode_integer p;
             case integer of
               None \<Rightarrow> Some (None, rewind parser_start_position p, h)
             | Some integer \<Rightarrow> Some (Some (finish (Integer integer) p), p, h)
           }
         | LIST \<Rightarrow> do {
             (lst, p, h) \<leftarrow> parse_bencode_list fuel (parse_buffer_fuel fuel) p h;
             case lst of
               None \<Rightarrow> Some (None, rewind parser_start_position p, h)
             | Some (items, capacity) \<Rightarrow> Some (Some (finish (List_Value items capacity) p), p, h)
           }
         | DICTIONARY \<Rightarrow> do {
             (dict, p, h) \<leftarrow> parse_bencode_dict fuel (parse_buffer_fuel fuel) p h;
             case dict of
               None \<Rightarrow> Some (None, rewind parser_start_position p, h)
             | Some (entries, capacity) \<Rightarrow> Some (Some (finish (Dictionary entries capacity) p), p, h)
           })
   }"

definition buffer_fuel :: "parser_state \<Rightarrow> nat" where
  "buffer_fuel p = Suc (unat (ps_length p) - unat (ps_position p))"

definition parse_bencode_buffer :: object_parser where
  "parse_bencode_buffer p h = parse_buffer_fuel (buffer_fuel p) p h"

end
