(* ===== verification/Bencode_Scan_Facts.thy ===== *)
theory Bencode_Scan_Facts
  imports Bencode_Scan
begin

text \<open>
  What the digit loops of src/bencode_parser.c compute, in closed form over the bytes that
  remain: the decimal value of the longest run of digits, refused exactly when it does not fit
  in 64 bits. From the closed forms follow the scanner contracts of
  \<open>determine_byte_string_length\<close>, \<open>parse_bencode_string\<close> and \<open>parse_bencode_integer\<close>.
\<close>

section \<open>Overflow tests\<close>

text \<open>The code's overflow test before \<open>m * 10 + digit\<close> is exact.\<close>

lemma overflow_test:
  fixes m limit digit :: uint64
  assumes "unat digit < 10" "10 \<le> unat limit"
  shows "m > (limit - digit) div 10 \<longleftrightarrow> unat limit < unat m * 10 + unat digit"
proof -
  have "digit \<le> limit" using assms by (simp add: word_le_nat_alt)
  then have "unat ((limit - digit) div 10) = (unat limit - unat digit) div 10"
    by (simp add: unat_div unat_sub)
  then show ?thesis
    using assms by (simp add: word_less_nat_alt div_less_iff_less_mult) linarith
qed

lemma next_magnitude:
  fixes m digit :: uint64
  assumes "unat m * 10 + unat digit < 2 ^ 64"
  shows "unat (m * 10 + digit) = unat m * 10 + unat digit"
  using assms by (simp add: unat_plus_bounded unat_times_bounded)

section \<open>String lengths\<close>

lemma rewind_advance_any [simp]: "rewind s (advance n p) = rewind s p"
  by (simp add: rewind_def advance_def)

lemma determine_length_loop_eq:
  assumes "wf_parser p"
  shows "determine_length_loop start len c p =
    (let ds = digits (c # remaining p); rest = after_digits (c # remaining p) in
     if decimal_from (unat len) ds < 2 ^ 64 \<and> rest \<noteq> [] \<and> hd rest = chr (CHR '':'')
     then Some (Some (of_nat (decimal_from (unat len) ds)), advance (length ds) p)
     else Some (None, rewind start p))"
  using assms
proof (induction start len c p rule: determine_length_loop.induct)
  case (1 start len c p)
  define digit :: size_t where "digit = ucast c - 48"
  note unfold = determine_length_loop.simps [of start len c p] Let_def
  show ?case
  proof (cases "isdigit c")
    case False
    then show ?thesis using unat_size_lt [of len] by (simp add: unfold)
  next
    case digit: True
    then have d: "unat digit = digit_value c" "unat digit < 10"
      using unat_digit digit_value_less by (auto simp: digit_def)
    have ov: "len > (SIZE_MAX - digit) div 10 \<longleftrightarrow> 2 ^ 64 \<le> unat len * 10 + digit_value c"
      using overflow_test [of digit SIZE_MAX len] d by auto
    show ?thesis
    proof (cases "len > (SIZE_MAX - digit) div 10")
      case True
      moreover from True ov have "2 ^ 64 \<le> decimal_from (unat len) (digits (c # remaining p))"
        using digit decimal_from_ge [of "unat len * 10 + digit_value c"] by (simp add: order_trans)
      ultimately show ?thesis using digit by (simp add: unfold flip: digit_def)
    next
      case False
      then have acc: "unat (len * 10 + digit) = unat len * 10 + digit_value c"
        using ov next_magnitude [of len digit] d by simp
      show ?thesis
      proof (cases "remaining p")
        case Nil
        then show ?thesis
          using digit False "1.prems" by (simp add: unfold consume_remaining flip: digit_def)
      next
        case (Cons b bs)
        then have wf': "wf_parser (advance 1 p)" and rem': "remaining (advance 1 p) = bs"
          using "1.prems" by (simp_all add: wf_advance remaining_advance)
        have step: "consume_current_byte p = Some (Some b, advance 1 p)"
          using Cons "1.prems" by (simp add: consume_remaining)
        have "determine_length_loop start len c p =
            determine_length_loop start (len * 10 + digit) b (advance 1 p)"
          using digit False step by (simp add: unfold flip: digit_def)
        also note "1.IH" [OF digit refl, folded digit_def, OF False step refl refl wf']
        finally show ?thesis
          using digit Cons rem' acc by (simp add: Let_def)
      qed
    qed
  qed
qed

text \<open>Value and size of a length prefix \<open>digits ':'\<close>; leading zeros are accepted.\<close>

definition scan_length :: "byte list \<Rightarrow> (nat \<times> nat) option" where
  "scan_length bs =
     (if digits bs \<noteq> [] \<and> decimal (digits bs) < 2 ^ 64 \<and>
         after_digits bs \<noteq> [] \<and> hd (after_digits bs) = chr (CHR '':'')
      then Some (decimal (digits bs), length (digits bs) + 1) else None)"

lemma length_digits_split: "length (digits bs) + length (after_digits bs) = length bs"
  by (metis length_append takeWhile_dropWhile_id)

lemma scan_length_bound: "scan_length bs = Some (n, k) \<Longrightarrow> 0 < k \<and> k \<le> length bs \<and> n < 2 ^ 64"
  using length_digits_split [of bs]
  by (cases "after_digits bs") (auto simp: scan_length_def split: if_splits)

lemma determine_byte_string_length_eq:
  assumes "wf_parser p"
  shows "determine_byte_string_length p =
    Some (case scan_length (remaining p) of
            None \<Rightarrow> (None, p)
          | Some (n, k) \<Rightarrow> (Some (of_nat n), advance k p))"
proof (cases "remaining p")
  case Nil
  then show ?thesis
    using assms by (simp add: determine_byte_string_length_def consume_remaining scan_length_def)
next
  case (Cons b bs)
  then have "wf_parser (advance 1 p)" "remaining (advance 1 p) = bs"
    using assms by (simp_all add: wf_advance remaining_advance)
  then show ?thesis
    using assms Cons determine_length_loop_eq [of "advance 1 p" "ps_position p" 0 b]
    by (auto simp add: determine_byte_string_length_def consume_remaining scan_length_def Let_def)
qed

interpretation string_length: scanner determine_byte_string_length
  by unfold_locales
     (auto simp: determine_byte_string_length_eq dest: scan_length_bound split: option.splits)

section \<open>Byte strings\<close>

text \<open>The segment of \<open>n\<close> bytes that starts \<open>k\<close> bytes after the position.\<close>

definition segment_at :: "parser_state \<Rightarrow> nat \<Rightarrow> nat \<Rightarrow> bencode_segment" where
  "segment_at p k n =
     \<lparr>seg_data = Ptr (block (ps_data p)) (offset (ps_data p) + unat (ps_position p) + k),
      seg_length = of_nat n\<rparr>"

lemma segment_at_bytes:
  assumes "wf_parser p" "k + n \<le> length (remaining p)" "remaining p \<noteq> []"
  shows "valid_segment (segment_at p k n) \<and> seg_bytes (segment_at p k n) = take n (drop k (remaining p))
    \<and> unat (seg_length (segment_at p k n)) = n"
proof -
  have "n < 2 ^ 64"
    using assms length_remaining [of p] unat_size_lt [of "ps_length p"] by linarith
  moreover obtain b i where "ps_data p = Ptr b i"
    using assms(3) by (cases "ps_data p") (auto simp: remaining_def)
  ultimately show ?thesis
    using assms length_remaining [of p]
    by (auto simp: segment_at_def valid_segment_def seg_bytes_def remaining_def wf_parser_def
          word_le_nat_alt unat_of_nat_size drop_take min_def add.assoc add.left_commute add.commute)
qed

definition scan_string :: "byte list \<Rightarrow> (nat \<times> nat) option" where
  "scan_string bs =
     (case scan_length bs of
        None \<Rightarrow> None
      | Some (n, k) \<Rightarrow> if k + n \<le> length bs then Some (n, k) else None)"

lemma parse_bencode_string_eq:
  assumes "wf_parser p"
  shows "parse_bencode_string p =
    Some (case scan_string (remaining p) of
            None \<Rightarrow> (None, p)
          | Some (n, k) \<Rightarrow> (Some (segment_at p k n), advance (k + n) p))"
proof (cases "scan_length (remaining p)")
  case None
  then show ?thesis
    using assms by (simp add: parse_bencode_string_def determine_byte_string_length_eq scan_string_def)
next
  case (Some nk)
  obtain n k where nk: "nk = (n, k)" by (cases nk)
  then have k: "0 < k" "k \<le> length (remaining p)" "n < 2 ^ 64"
    using scan_length_bound Some by auto
  have q: "wf_parser (advance k p)" "remaining (advance k p) = drop k (remaining p)"
    using assms k by (simp_all add: wf_advance remaining_advance)
  have n: "unat (of_nat n :: size_t) = n" using k by (simp add: unat_of_nat_size)
  obtain b i where data: "ps_data p = Ptr b i"
    using k by (cases "ps_data p") (auto simp: remaining_def)
  have pos: "unat (ps_position (advance k p)) = unat (ps_position p) + k"
    using assms k by (simp add: position_advance)
  have room: "i + (unat (ps_position p) + k) \<le> length b"
    using assms k data advance_room [of p k] by (simp add: wf_parser_def)
  have read: "read_bencode_string (advance k p) (of_nat n) = Some (segment_at p k n, advance (k + n) p)"
    using data pos room
    by (simp add: read_bencode_string_def segment_at_def add.assoc) (simp add: advance_def add.assoc)
  show ?thesis
    using assms Some nk q n read k
    by (auto simp: parse_bencode_string_def determine_byte_string_length_eq scan_string_def bytes_exist_iff)
qed

lemma scan_string_bound: "scan_string bs = Some (n, k) \<Longrightarrow> 0 < k \<and> k + n \<le> length bs"
  by (auto simp: scan_string_def dest: scan_length_bound split: option.splits if_splits)

interpretation string: scanner parse_bencode_string
proof unfold_locales
  fix p q x assume "wf_parser p" "parse_bencode_string p = Some (Some x, q)"
  then obtain n k where "scan_string (remaining p) = Some (n, k)" "q = advance (k + n) p"
    by (auto simp: parse_bencode_string_eq split: option.splits)
  then show "\<exists>n. 0 < n \<and> n \<le> length (remaining p) \<and> q = advance n p"
    using scan_string_bound by (metis add_gr_0)
qed (auto simp: parse_bencode_string_eq split: option.splits)

section \<open>Integers\<close>

definition magnitude_limit :: "bool \<Rightarrow> nat" where
  "magnitude_limit negative_sign = (if negative_sign then 2 ^ 63 else 2 ^ 63 - 1)"

lemma integer_overflow_test:
  assumes "unat digit < 10"
  shows "(\<not> neg \<and> m > (INT64_MAX - digit) div 10 \<or> neg \<and> m > (INT64_MAX + 1 - digit) div 10)
    \<longleftrightarrow> magnitude_limit neg < unat m * 10 + unat digit"
  using overflow_test [OF assms, of INT64_MAX m] overflow_test [OF assms, of "INT64_MAX + 1" m]
  by (auto simp: magnitude_limit_def)

lemma magnitude_limit_less: "n \<le> magnitude_limit neg \<Longrightarrow> n < 2 ^ 64"
  by (auto simp: magnitude_limit_def split: if_splits)

text \<open>One turn of the loop on a digit: the value no longer fits, or the next byte decides.\<close>

lemma integer_loop_turn:
  assumes wf: "wf_parser p" and c: "isdigit c"
  shows "integer_loop start neg m c p =
    (if magnitude_limit neg < unat m * 10 + digit_value c then Some (None, rewind start p)
     else case remaining p of
       [] \<Rightarrow> Some (None, rewind start p)
     | b # bs \<Rightarrow>
         if m * 10 + (ucast c - 48) = 0 \<and> isdigit b then Some (None, rewind start p)
         else integer_loop start neg (m * 10 + (ucast c - 48)) b (advance 1 p))"
proof -
  have d: "unat (ucast c - 48 :: uint64) = digit_value c" "unat (ucast c - 48 :: uint64) < 10"
    using c unat_digit digit_value_less by auto
  note ov = integer_overflow_test [OF d(2), of neg m, unfolded d(1)]
  show ?thesis
    using ov c wf
    by (cases "remaining p"; cases "magnitude_limit neg < unat m * 10 + digit_value c")
      (auto simp: integer_loop.simps [of start neg m c p] Let_def consume_remaining)
qed

lemma integer_loop_eq:
  assumes "wf_parser p" "unat m \<le> magnitude_limit neg"
  shows "integer_loop start neg m c p =
    (let ds = digits (c # remaining p); rest = after_digits (c # remaining p) in
     if decimal_from (unat m) ds \<le> magnitude_limit neg \<and> rest \<noteq> [] \<and>
        (m = 0 \<and> 2 \<le> length ds \<longrightarrow> hd ds \<noteq> chr (CHR ''0''))
     then Some (Some (of_nat (decimal_from (unat m) ds), hd rest), advance (length ds) p)
     else Some (None, rewind start p))"
  using assms
proof (induction "remaining p" arbitrary: m c p)
  case Nil
  show ?case
  proof (cases "isdigit c")
    case True
    then show ?thesis
      using integer_loop_turn [OF Nil.prems(1) True, of start neg m] Nil.hyps by (simp add: Let_def flip: Nil.hyps)
  next
    case False
    then show ?thesis using Nil by (simp add: integer_loop.simps [of start neg m c p] Let_def)
  qed
next
  case (Cons b bs)
  note rem = Cons.hyps(2) [symmetric]
  show ?case
  proof (cases "isdigit c")
    case False
    then show ?thesis using Cons.prems by (simp add: integer_loop.simps [of start neg m c p] Let_def)
  next
    case digit: True
    show ?thesis
    proof (cases "magnitude_limit neg < unat m * 10 + digit_value c")
      case True
      then have "magnitude_limit neg < decimal_from (unat m) (digits (c # remaining p))"
        using digit decimal_from_ge [of "unat m * 10 + digit_value c"] by (simp add: less_le_trans)
      then show ?thesis using True digit Cons.prems by (simp add: integer_loop_turn Let_def)
    next
      case fits: False
      define m' :: uint64 where "m' = m * 10 + (ucast c - 48)"
      have acc: "unat m' = unat m * 10 + digit_value c"
        using next_magnitude [of m "ucast c - 48"] unat_digit [OF digit] fits magnitude_limit_less [of _ neg]
        by (simp add: m'_def)
      have zero: "m' = 0 \<longleftrightarrow> m = 0 \<and> c = 48"
        using acc digit_value_0 [OF digit] by (metis add_is_0 mult_is_0 unat_eq_zero zero_neq_numeral)
      note turn = integer_loop_turn [OF Cons.prems(1) digit, of start neg m, folded m'_def]
      show ?thesis
      proof (cases "m' = 0 \<and> isdigit b")
        case True
        then show ?thesis using turn fits zero rem digit by simp
      next
        case ok: False
        have next_state: "bs = remaining (advance 1 p)" "wf_parser (advance 1 p)"
          using Cons.prems(1) rem by (simp_all add: wf_advance remaining_advance)
        have "unat m' \<le> magnitude_limit neg" using acc fits by simp
        note IH = Cons.hyps(1) [OF next_state this, of b]
        have lead: "(m' = 0 \<and> 2 \<le> length (digits (b # bs)) \<longrightarrow> hd (digits (b # bs)) \<noteq> 48) \<longleftrightarrow> True"
          "(m = 0 \<and> 2 \<le> length (c # digits (b # bs)) \<longrightarrow> hd (c # digits (b # bs)) \<noteq> 48) \<longleftrightarrow> True"
          using ok zero by (auto split: if_splits)
        have "integer_loop start neg m c p = integer_loop start neg m' b (advance 1 p)"
          using turn fits ok rem by simp
        then show ?thesis
          using digit unfolding IH Let_def next_state(1) [symmetric] rem acc takeWhile.simps(2) [of _ c]
            dropWhile.simps(2) [of _ c] chr_simps decimal_from.simps(2) if_P [OF digit] lead
          by simp
      qed
    qed
  qed
qed

text \<open>
  Value and size of \<open>digits 'e'\<close> after the optional sign: no empty number, no leading zero, no
  \<open>-0\<close>, and a value inside \<open>int64_t\<close>.
\<close>

definition scan_magnitude :: "bool \<Rightarrow> byte list \<Rightarrow> (int \<times> nat) option" where
  "scan_magnitude neg bs =
     (let ds = digits bs; rest = after_digits bs in
      if ds \<noteq> [] \<and> (neg \<or> 2 \<le> length ds \<longrightarrow> hd ds \<noteq> chr (CHR ''0'')) \<and>
         decimal ds \<le> magnitude_limit neg \<and> rest \<noteq> [] \<and> hd rest = chr (CHR ''e'')
      then Some (if neg then - int (decimal ds) else int (decimal ds), length ds + 1) else None)"

definition scan_integer :: "byte list \<Rightarrow> (int \<times> nat) option" where
  "scan_integer bs =
     (case bs of
        i # s # r \<Rightarrow>
          if i \<noteq> chr (CHR ''i'') then None
          else if s = chr (CHR ''-'') then map_option (\<lambda>(v, k). (v, k + 2)) (scan_magnitude True r)
          else map_option (\<lambda>(v, k). (v, k + 1)) (scan_magnitude False (s # r))
      | _ \<Rightarrow> None)"

lemma scan_magnitude_bound:
  "scan_magnitude neg bs = Some (v, k) \<Longrightarrow> 0 < k \<and> k \<le> length bs \<and> - (2 ^ 63) \<le> v \<and> v < 2 ^ 63"
  using length_digits_split [of bs]
  by (cases "after_digits bs") (auto simp: scan_magnitude_def magnitude_limit_def Let_def split: if_splits)

lemma scan_integer_bound:
  "scan_integer bs = Some (v, k) \<Longrightarrow> 0 < k \<and> k \<le> length bs \<and> - (2 ^ 63) \<le> v \<and> v < 2 ^ 63"
  by (fastforce simp: scan_integer_def dest: scan_magnitude_bound split: list.splits if_splits)

text \<open>The last lines of the function: the two's complement value of a magnitude with its sign.\<close>

lemma integer_value_eq:
  "n \<le> magnitude_limit neg \<Longrightarrow>
   (if neg then if of_nat n = INT64_MAX + 1 then INT64_MIN else of_nat n * (- 1) else of_nat n)
     = (of_int (if neg then - int n else int n) :: int64)"
  by (auto simp: magnitude_limit_def)

lemma parse_integer_magnitude_eq:
  assumes "wf_parser p"
  shows "parse_integer_magnitude start neg c p =
    Some (case scan_magnitude neg (c # remaining p) of
            None \<Rightarrow> (None, rewind start p)
          | Some (v, k) \<Rightarrow> (Some (of_int v), advance (k - 1) p))"
proof (cases "isdigit c")
  case False
  then show ?thesis
    using integer_loop_eq [OF assms, of 0 neg start c]
    by (auto simp: parse_integer_magnitude_def scan_magnitude_def Let_def)
next
  case True
  then have e: "c \<noteq> 101" by (auto simp: isdigit_def)
  define ds where "ds = digits (remaining p)"
  define rest where "rest = after_digits (remaining p)"
  have loop: "integer_loop start neg 0 c p =
    (if decimal (c # ds) \<le> magnitude_limit neg \<and> rest \<noteq> [] \<and> (ds \<noteq> [] \<longrightarrow> c \<noteq> 48)
     then Some (Some (of_nat (decimal (c # ds)), hd rest), advance (Suc (length ds)) p)
     else Some (None, rewind start p))"
    using integer_loop_eq [OF assms, of 0 neg start c] True
    by (auto simp add: Let_def ds_def rest_def Suc_le_eq)
  have scan: "scan_magnitude neg (c # remaining p) =
    (if (neg \<or> ds \<noteq> [] \<longrightarrow> c \<noteq> 48) \<and> decimal (c # ds) \<le> magnitude_limit neg \<and> rest \<noteq> [] \<and> hd rest = 101
     then Some (if neg then - int (decimal (c # ds)) else int (decimal (c # ds)), Suc (Suc (length ds)))
     else None)"
    using True by (auto simp add: scan_magnitude_def Let_def ds_def rest_def Suc_le_eq)
  show ?thesis
    using e loop scan integer_value_eq [of "decimal (c # ds)" neg]
    by (cases "decimal (c # ds) \<le> magnitude_limit neg")
       (simp_all add: parse_integer_magnitude_def Let_def del: decimal_from.simps)
qed

text \<open>After the \<open>i\<close>: a minus sign and the magnitude, or the magnitude.\<close>

lemma negative_integer_eq:
  assumes "wf_parser p" "remaining p = 105 # 45 # r"
  shows "parse_bencode_integer p =
    Some (case scan_integer (remaining p) of None \<Rightarrow> (None, p) | Some (v, k) \<Rightarrow> (Some (of_int v), advance k p))"
proof -
  have after: "wf_parser (advance 2 p)" "remaining (advance 2 p) = r"
    using assms by (simp_all add: wf_advance remaining_advance)
  have c: "consume_current_byte p = Some (Some 105, advance (Suc 0) p)"
    "consume_current_byte (advance (Suc 0) p) = Some (Some 45, advance 2 p)"
    using assms by (simp_all add: consume_remaining wf_advance remaining_advance numeral_2_eq_2)
  note code = parse_bencode_integer_def Let_def c assms(2) scan_integer_def
  show ?thesis
  proof (cases r)
    case Nil
    then have "consume_current_byte (advance 2 p) = Some (None, advance 2 p)"
      using after by (simp add: consume_remaining)
    then show ?thesis by (simp add: code Nil scan_magnitude_def)
  next
    case (Cons c cs)
    then have "consume_current_byte (advance 2 p) = Some (Some c, advance 3 p)"
      "wf_parser (advance 3 p)" "remaining (advance 3 p) = cs"
      using after assms by (simp_all add: consume_remaining wf_advance remaining_advance)
    then show ?thesis
      using parse_integer_magnitude_eq [of "advance 3 p" "ps_position p" True c] scan_magnitude_bound
      by (fastforce simp: code Cons split: option.splits)
  qed
qed

lemma positive_integer_eq:
  assumes "wf_parser p" "remaining p = 105 # s # r" "s \<noteq> 45"
  shows "parse_bencode_integer p =
    Some (case scan_integer (remaining p) of None \<Rightarrow> (None, p) | Some (v, k) \<Rightarrow> (Some (of_int v), advance k p))"
proof -
  have "wf_parser (advance 2 p)" "remaining (advance 2 p) = r"
    "consume_current_byte p = Some (Some 105, advance (Suc 0) p)"
    "consume_current_byte (advance (Suc 0) p) = Some (Some s, advance 2 p)"
    using assms by (simp_all add: consume_remaining wf_advance remaining_advance numeral_2_eq_2)
  then show ?thesis
    using assms parse_integer_magnitude_eq [of "advance 2 p" "ps_position p" False s] scan_magnitude_bound
    by (fastforce simp: parse_bencode_integer_def Let_def scan_integer_def split: option.splits)
qed

lemma parse_bencode_integer_eq:
  assumes "wf_parser p"
  shows "parse_bencode_integer p =
    Some (case scan_integer (remaining p) of
            None \<Rightarrow> (None, p)
          | Some (v, k) \<Rightarrow> (Some (of_int v), advance k p))"
proof (cases "\<exists>s r. remaining p = 105 # s # r")
  case True
  then show ?thesis using negative_integer_eq [OF assms] positive_integer_eq [OF assms] by metis
next
  case False
  show ?thesis
  proof (cases "remaining p")
    case Nil
    then show ?thesis using assms by (simp add: parse_bencode_integer_def Let_def consume_remaining scan_integer_def)
  next
    case (Cons b bs)
    then have q: "wf_parser (advance 1 p)" "remaining (advance 1 p) = bs"
      using assms by (simp_all add: wf_advance remaining_advance)
    show ?thesis
      using assms Cons False q
      by (cases bs) (auto simp: parse_bencode_integer_def Let_def consume_remaining scan_integer_def)
  qed
qed

interpretation integer: scanner parse_bencode_integer
proof unfold_locales
  fix p q x assume "wf_parser p" "parse_bencode_integer p = Some (Some x, q)"
  then obtain v k where "scan_integer (remaining p) = Some (v, k)" "q = advance k p"
    by (auto simp: parse_bencode_integer_eq split: option.splits)
  then show "\<exists>n. 0 < n \<and> n \<le> length (remaining p) \<and> q = advance n p"
    using scan_integer_bound by blast
qed (auto simp: parse_bencode_integer_eq split: option.splits)

end
