(* ===== verification/Bencode_Spec.thy ===== *)
theory Bencode_Spec
  imports Bencode_Parser Bencode_Scan_Facts
begin

text \<open>
  What a Bencode parser is for, independent of the code: abstract values, the grammar of their
  encodings, a canonical encoder, and the abstraction from the objects of src/bencode_parser.c
  to values. \<open>Bencode_Safety\<close> and \<open>Bencode_Complete\<close> relate the parser to it.
\<close>

section \<open>Values and their encodings\<close>

datatype bvalue =
    BInt int
  | BString "byte list"
  | BList "bvalue list"
  | BDict "(byte list \<times> bvalue) list"
  | BNothing

definition int_text :: "int \<Rightarrow> byte list" where
  "int_text i = (if i < 0 then chr (CHR ''-'') # nat_text (nat (- i)) else nat_text (nat i))"

text \<open>
  A byte string is preceded by its length in decimal and a colon. The grammar lets the length
  have leading zeros, as the code does; integers have one spelling each.
\<close>

definition string_text :: "byte list \<Rightarrow> byte list \<Rightarrow> bool" where
  "string_text s bs \<longleftrightarrow>
     (\<exists>ds. bs = ds @ chr (CHR '':'') # s \<and> ds \<noteq> [] \<and> list_all isdigit ds \<and> decimal ds = length s)
     \<and> length s < 2 ^ 64"

text \<open>The keys of a dictionary are in strictly increasing order of their bytes.\<close>

inductive bencodes :: "bvalue \<Rightarrow> byte list \<Rightarrow> bool"
  and bencodes_items :: "bvalue list \<Rightarrow> byte list \<Rightarrow> bool"
  and bencodes_entries :: "(byte list \<times> bvalue) list \<Rightarrow> byte list \<Rightarrow> bool"
where
  enc_int: "- (2 ^ 63) \<le> i \<Longrightarrow> i < 2 ^ 63 \<Longrightarrow>
    bencodes (BInt i) (chr (CHR ''i'') # int_text i @ [chr (CHR ''e'')])"
| enc_string: "string_text s bs \<Longrightarrow> bencodes (BString s) bs"
| enc_list: "bencodes_items vs bs \<Longrightarrow> bencodes (BList vs) (chr (CHR ''l'') # bs @ [chr (CHR ''e'')])"
| enc_dict: "bencodes_entries es bs \<Longrightarrow> bencodes (BDict es) (chr (CHR ''d'') # bs @ [chr (CHR ''e'')])"
| items_Nil: "bencodes_items [] []"
| items_Cons: "bencodes v bs \<Longrightarrow> bencodes_items vs cs \<Longrightarrow> bencodes_items (v # vs) (bs @ cs)"
| entries_Nil: "bencodes_entries [] []"
| entries_Cons: "string_text k ks \<Longrightarrow> bencodes v bs \<Longrightarrow> bencodes_entries es cs \<Longrightarrow>
    (es \<noteq> [] \<longrightarrow> k < fst (hd es)) \<Longrightarrow> bencodes_entries ((k, v) # es) (ks @ bs @ cs)"

lemmas bencodes_intros = enc_int enc_string enc_list enc_dict items_Nil items_Cons entries_Nil entries_Cons

inductive_cases bencodes_intE: "bencodes (BInt i) bs"
inductive_cases bencodes_stringE: "bencodes (BString s) bs"
inductive_cases bencodes_listE: "bencodes (BList vs) bs"
inductive_cases bencodes_dictE: "bencodes (BDict es) bs"
inductive_cases items_ConsE: "bencodes_items (v # vs) bs"
inductive_cases entries_ConsE: "bencodes_entries (e # es) bs"

inductive_simps bencodes_nothing [simp]: "bencodes BNothing bs"
inductive_simps items_Nil_iff [simp]: "bencodes_items [] bs"
inductive_simps entries_Nil_iff [simp]: "bencodes_entries [] bs"

text \<open>The keys of an encodable dictionary are strictly sorted, so they are distinct.\<close>

lemma entries_sorted: "bencodes_entries es bs \<Longrightarrow> sorted_wrt (<) (map fst es)"
proof (induction es arbitrary: bs)
  case (Cons e es)
  obtain k v where e: "e = (k, v)" by (cases e)
  from Cons.prems e obtain cs where es: "bencodes_entries es cs" and hd: "es \<noteq> [] \<longrightarrow> k < fst (hd es)"
    by (auto elim: entries_ConsE)
  have s: "sorted_wrt (<) (map fst es)" using es by (rule Cons.IH)
  have "\<forall>x \<in> set (map fst es). k < x"
    using s hd by (cases es) (auto intro: order_less_trans)
  then show ?case using s e by simp
qed simp

section \<open>The canonical encoder\<close>

fun encode :: "bvalue \<Rightarrow> byte list"
and encode_items :: "bvalue list \<Rightarrow> byte list"
and encode_entries :: "(byte list \<times> bvalue) list \<Rightarrow> byte list" where
  "encode (BInt i) = chr (CHR ''i'') # int_text i @ [chr (CHR ''e'')]"
| "encode (BString s) = nat_text (length s) @ chr (CHR '':'') # s"
| "encode (BList vs) = chr (CHR ''l'') # encode_items vs @ [chr (CHR ''e'')]"
| "encode (BDict es) = chr (CHR ''d'') # encode_entries es @ [chr (CHR ''e'')]"
| "encode BNothing = []"
| "encode_items [] = []"
| "encode_items (v # vs) = encode v @ encode_items vs"
| "encode_entries [] = []"
| "encode_entries ((k, v) # es) = nat_text (length k) @ chr (CHR '':'') # k @ encode v @ encode_entries es"

text \<open>The values that have an encoding.\<close>

fun wf_value :: "bvalue \<Rightarrow> bool"
and wf_items :: "bvalue list \<Rightarrow> bool"
and wf_entries :: "(byte list \<times> bvalue) list \<Rightarrow> bool" where
  "wf_value (BInt i) \<longleftrightarrow> - (2 ^ 63) \<le> i \<and> i < 2 ^ 63"
| "wf_value (BString s) \<longleftrightarrow> length s < 2 ^ 64"
| "wf_value (BList vs) \<longleftrightarrow> wf_items vs"
| "wf_value (BDict es) \<longleftrightarrow> wf_entries es"
| "wf_value BNothing \<longleftrightarrow> False"
| "wf_items [] \<longleftrightarrow> True"
| "wf_items (v # vs) \<longleftrightarrow> wf_value v \<and> wf_items vs"
| "wf_entries [] \<longleftrightarrow> True"
| "wf_entries ((k, v) # es) \<longleftrightarrow>
     length k < 2 ^ 64 \<and> wf_value v \<and> wf_entries es \<and> (es \<noteq> [] \<longrightarrow> k < fst (hd es))"

lemma canonical_string: "length s < 2 ^ 64 \<Longrightarrow> string_text s (nat_text (length s) @ chr (CHR '':'') # s)"
  unfolding string_text_def using nat_text_digits by force

lemma encode_bencodes:
  "wf_value v \<Longrightarrow> bencodes v (encode v)"
  "wf_items vs \<Longrightarrow> bencodes_items vs (encode_items vs)"
  "wf_entries es \<Longrightarrow> bencodes_entries es (encode_entries es)"
proof (induction v and vs and es rule: encode_encode_items_encode_entries.induct)
  case (2 s)
  then show ?case by (simp only: encode.simps wf_value.simps) (intro enc_string canonical_string)
next
  case (9 k v es)
  then have "bencodes_entries ((k, v) # es)
      ((nat_text (length k) @ chr (CHR '':'') # k) @ encode v @ encode_entries es)"
    by (intro entries_Cons canonical_string) auto
  then show ?case by simp
qed (auto intro: bencodes_intros simp del: chr_simps)

section \<open>From objects to values\<close>

fun abs_object :: "bencode_object \<Rightarrow> bvalue"
and abs_value :: "bencode_value \<Rightarrow> bvalue"
and abs_items :: "bencode_object list \<Rightarrow> bvalue list"
and abs_entries :: "bencode_entry list \<Rightarrow> (byte list \<times> bvalue) list" where
  "abs_object (Object v s n) = abs_value v"
| "abs_value (Integer i) = BInt (sint i)"
| "abs_value (Byte_String s) = BString (seg_bytes s)"
| "abs_value (List_Value items c) = BList (abs_items items)"
| "abs_value (Dictionary entries c) = BDict (abs_entries entries)"
| "abs_value No_Value = BNothing"
| "abs_items [] = []"
| "abs_items (x # xs) = abs_object x # abs_items xs"
| "abs_entries [] = []"
| "abs_entries (Entry k x # es) = (seg_bytes k, abs_object x) # abs_entries es"

text \<open>
  Every object in the tree says where in the input its own encoding is, and every segment can
  be read: the guarantee the users of the parsed object rely on.
\<close>

fun faithful :: "byte list \<Rightarrow> bencode_object \<Rightarrow> bool"
and faithful_value :: "byte list \<Rightarrow> bencode_value \<Rightarrow> bool"
and faithful_items :: "byte list \<Rightarrow> bencode_object list \<Rightarrow> bool"
and faithful_entries :: "byte list \<Rightarrow> bencode_entry list \<Rightarrow> bool" where
  "faithful inp (Object v s n) \<longleftrightarrow>
     unat s + unat n \<le> length inp \<and> bencodes (abs_value v) (take (unat n) (drop (unat s) inp)) \<and>
     faithful_value inp v"
| "faithful_value inp (Integer i) \<longleftrightarrow> True"
| "faithful_value inp (Byte_String s) \<longleftrightarrow> valid_segment s"
| "faithful_value inp (List_Value items c) \<longleftrightarrow> faithful_items inp items"
| "faithful_value inp (Dictionary entries c) \<longleftrightarrow> faithful_entries inp entries"
| "faithful_value inp No_Value \<longleftrightarrow> False"
| "faithful_items inp [] \<longleftrightarrow> True"
| "faithful_items inp (x # xs) \<longleftrightarrow> faithful inp x \<and> faithful_items inp xs"
| "faithful_entries inp [] \<longleftrightarrow> True"
| "faithful_entries inp (Entry k x # es) \<longleftrightarrow> valid_segment k \<and> faithful inp x \<and> faithful_entries inp es"

lemma abs_items_map: "abs_items xs = map abs_object xs"
  by (induction xs) auto

lemma abs_entries_map: "abs_entries es = map (\<lambda>e. (seg_bytes (entry_key e), abs_object (entry_value e))) es"
proof (induction es)
  case (Cons e es)
  then show ?case by (cases e) simp
qed simp

lemma faithful_items_iff: "faithful_items inp xs \<longleftrightarrow> (\<forall>x \<in> set xs. faithful inp x)"
  by (induction xs) auto

lemma faithful_entries_iff:
  "faithful_entries inp es \<longleftrightarrow>
   (\<forall>e \<in> set es. valid_segment (entry_key e) \<and> faithful inp (entry_value e))"
proof (induction es)
  case (Cons e es)
  then show ?case by (cases e) auto
qed simp

lemma abs_object_value: "abs_object x = abs_value (obj_value x)"
  by (cases x) simp

section \<open>The key order of the code\<close>

lemma read_prefix:
  "valid_segment s \<Longrightarrow> n \<le> unat (seg_length s) \<Longrightarrow> read_bytes (seg_data s) n = Some (take n (seg_bytes s))"
  by (cases "seg_data s") (auto simp: valid_segment_def seg_bytes_def min_def)

text \<open>The test between two keys never reads outside them and is the order of their bytes.\<close>

lemma key_may_follow_eq:
  assumes "valid_segment a" "valid_segment b"
  shows "key_may_follow a b = Some (seg_bytes a < seg_bytes b)"
proof -
  define m where "m = min (unat (seg_length a)) (unat (seg_length b))"
  have m: "unat (if seg_length a < seg_length b then seg_length a else seg_length b) = m"
    by (auto simp: m_def word_less_nat_alt)
  have "read_bytes (seg_data a) m = Some (take m (seg_bytes a))"
    "read_bytes (seg_data b) m = Some (take m (seg_bytes b))"
    using assms by (auto simp: read_prefix m_def)
  moreover have "m = min (length (seg_bytes a)) (length (seg_bytes b))"
    using assms by (simp add: length_seg_bytes m_def)
  moreover have "seg_length b \<le> seg_length a \<longleftrightarrow> \<not> length (seg_bytes a) < length (seg_bytes b)"
    using assms by (simp add: length_seg_bytes word_le_nat_alt not_less)
  ultimately show ?thesis
    using memcmp_take_less [of "seg_bytes a" "seg_bytes b"]
    unfolding key_may_follow_def Let_def m
    by (cases "memcmp (take m (seg_bytes a)) (take m (seg_bytes b))" "0::int" rule: linorder_cases)
       (simp_all del: memcmp_eq_0)
qed

lemma key_in_order_eq:
  assumes "faithful_entries inp entries" "valid_segment key"
  shows "key_in_order entries key =
    Some (entries \<noteq> [] \<longrightarrow> seg_bytes (entry_key (last entries)) < seg_bytes key)"
proof (cases "entries = []")
  case False
  then have "valid_segment (entry_key (last entries))"
    using assms(1) by (simp add: faithful_entries_iff)
  then show ?thesis
    using False assms(2) by (simp add: key_in_order_def key_may_follow_eq last_conv_nth)
qed (simp add: key_in_order_def)

section \<open>The leaves of the grammar\<close>

definition input :: "parser_state \<Rightarrow> byte list" where
  "input p = (case ps_data p of NULL \<Rightarrow> [] | Ptr b k \<Rightarrow> take (unat (ps_length p)) (drop k b))"

lemma input_advance [simp]: "input (advance n p) = input p"
  by (simp add: input_def split: ptr.splits)

lemma remaining_input: "remaining p = drop (unat (ps_position p)) (input p)"
  by (auto simp: remaining_def input_def drop_take add.commute split: ptr.splits)

lemma scan_string_sound:
  assumes "scan_string bs = Some (n, k)"
  shows "string_text (take n (drop k bs)) (take (k + n) bs)"
proof -
  define ds where "ds = digits bs"
  from assms obtain rest where rest: "after_digits bs = 58 # rest"
    and k: "k = length ds + 1" and n: "n = decimal ds" "decimal ds < 2 ^ 64" "ds \<noteq> []" "k + n \<le> length bs"
    unfolding scan_string_def scan_length_def ds_def
    by (cases "after_digits bs") (auto split: if_splits option.splits)
  have bs: "bs = ds @ 58 # rest"
    using takeWhile_dropWhile_id [of isdigit bs] rest by (simp add: ds_def)
  have ds: "list_all isdigit ds" by (auto simp: ds_def list_all_iff dest: set_takeWhileD)
  have "take (k + n) bs = ds @ 58 # take n (drop k bs)" by (simp add: bs k)
  moreover have "length (take n (drop k bs)) = n" using n by simp
  ultimately show ?thesis
    using n ds unfolding string_text_def by auto
qed

lemma scan_string_complete:
  assumes "string_text s ts"
  shows "\<exists>k. scan_string (ts @ rest) = Some (length s, k) \<and> k + length s = length ts \<and>
    take (length s) (drop k (ts @ rest)) = s"
proof -
  obtain ds where ds: "ts = ds @ 58 # s" "ds \<noteq> []" "list_all isdigit ds" "decimal ds = length s"
    and len: "length s < 2 ^ 64"
    using assms by (auto simp: string_text_def)
  have split: "digits (ts @ rest) = ds" "after_digits (ts @ rest) = 58 # s @ rest"
    using takeWhile_digits_append [of ds 58 "s @ rest"] ds by auto
  then show ?thesis
    using ds len by (auto simp: scan_string_def scan_length_def)
qed

lemma scan_magnitude_sound:
  assumes "scan_magnitude neg bs = Some (v, k)"
  shows "take k bs = nat_text (nat \<bar>v\<bar>) @ [101] \<and> (neg \<longleftrightarrow> v < 0)"
proof -
  define ds where "ds = digits bs"
  from assms obtain rest where rest: "after_digits bs = 101 # rest" and k: "k = length ds + 1"
    and v: "v = (if neg then - int (decimal ds) else int (decimal ds))"
    and ds: "ds \<noteq> []" "neg \<or> 2 \<le> length ds \<longrightarrow> hd ds \<noteq> 48"
    unfolding scan_magnitude_def Let_def ds_def
    by (cases "after_digits bs") (auto split: if_splits)
  have bs: "bs = ds @ 101 # rest"
    using takeWhile_dropWhile_id [of isdigit bs] rest by (simp add: ds_def)
  have dig: "list_all isdigit ds" by (auto simp: ds_def list_all_iff dest: set_takeWhileD)
  have spelled: "nat_text (decimal ds) = ds" using nat_text_decimal dig ds by blast
  have "neg \<Longrightarrow> decimal ds \<noteq> 0"
  proof
    assume "neg" "decimal ds = 0"
    then show False using spelled ds by (simp add: nat_text_small) (metis list.sel(1))
  qed
  then show ?thesis using v spelled by (auto simp: bs k)
qed

lemma scan_integer_sound:
  assumes "scan_integer bs = Some (v, k)"
  shows "bencodes (BInt v) (take k bs)"
proof -
  have range: "- (2 ^ 63) \<le> v" "v < 2 ^ 63" using scan_integer_bound assms by blast+
  obtain s r where bs: "bs = 105 # s # r"
    using assms by (auto simp: scan_integer_def split: list.splits if_splits)
  have "take k bs = chr (CHR ''i'') # int_text v @ [chr (CHR ''e'')]"
  proof (cases "s = 45")
    case True
    then obtain j where j: "scan_magnitude True r = Some (v, j)" "k = j + 2"
      using assms bs by (auto simp: scan_integer_def)
    then have "take j r = nat_text (nat \<bar>v\<bar>) @ [101]" "v < 0" using scan_magnitude_sound [of True] by auto
    then show ?thesis using j(2) True by (simp add: bs int_text_def)
  next
    case False
    then obtain j where j: "scan_magnitude False (s # r) = Some (v, j)" "k = j + 1"
      using assms bs by (auto simp: scan_integer_def)
    then have "take j (s # r) = nat_text (nat \<bar>v\<bar>) @ [101]" "\<not> v < 0" using scan_magnitude_sound [of False] by auto
    then show ?thesis using j(2) by (simp add: bs int_text_def)
  qed
  then show ?thesis using enc_int [OF range] by simp
qed

lemma scan_magnitude_complete:
  assumes "n \<le> magnitude_limit neg" "neg \<longrightarrow> 0 < n"
  shows "scan_magnitude neg (nat_text n @ 101 # rest) =
    Some (if neg then - int n else int n, length (nat_text n) + 1)"
proof -
  have split: "digits (nat_text n @ 101 # rest) = nat_text n" "after_digits (nat_text n @ 101 # rest) = 101 # rest"
    using takeWhile_digits_append [OF nat_text_digits] by auto
  have "neg \<or> 2 \<le> length (nat_text n) \<longrightarrow> hd (nat_text n) \<noteq> 48"
    using assms(2) hd_nat_text [of n] by (cases "n = 0") (auto simp: nat_text_small)
  then show ?thesis using assms(1) by (simp add: scan_magnitude_def split Let_def)
qed

lemma hd_digits: "hd (nat_text n @ rest) \<noteq> 45"
  using nat_text_digits [of n] by (cases "nat_text n") (auto simp: isdigit_range)

lemma scan_integer_complete:
  assumes "- (2 ^ 63) \<le> v" "v < 2 ^ 63"
  shows "scan_integer (105 # int_text v @ 101 # rest) = Some (v, length (int_text v) + 2)"
proof (cases "v < 0")
  case True
  then have "nat (- v) \<le> magnitude_limit True" "0 < nat (- v)"
    using assms by (auto simp: magnitude_limit_def)
  then show ?thesis
    using True by (simp add: scan_integer_def int_text_def scan_magnitude_complete)
next
  case False
  then have le: "nat v \<le> magnitude_limit False"
    using assms by (auto simp: magnitude_limit_def)
  obtain c cs where spelled: "nat_text (nat v) = c # cs" by (cases "nat_text (nat v)") auto
  then have "c \<noteq> 45" using hd_digits [of "nat v" "[]"] by simp
  then show ?thesis
    using False spelled scan_magnitude_complete [OF le, of rest] by (simp add: scan_integer_def int_text_def)
qed

end
