(* ===== verification/Dictionary_Lookup.thy ===== *)
theory Dictionary_Lookup
  imports Bencode_Spec
begin

text \<open>
  Searching a parsed dictionary for a key. src/torrent_metadata.c and src/tracker.c have a
  \<open>find_entry_in_dictionary\<close> each; the locale states what their callers rely on, and its lemmas
  say what a search finds in terms of the abstract value of the dictionary. Each file's own
  function interprets it.
\<close>

text \<open>A key constant of the source, \<open>const unsigned char key[] = "..."\<close>, with its NUL byte.\<close>

definition literal :: "string \<Rightarrow> ptr" where
  "literal s = Ptr (bytes_of s @ [0]) 0"

lemma read_literal [memory_simps]: "read_bytes (literal s) (length s) = Some (bytes_of s)"
  by (simp add: literal_def)

definition bvalue_type :: "bvalue \<Rightarrow> bencode_data_type" where
  "bvalue_type v =
     (case v of BInt _ \<Rightarrow> INTEGER | BString _ \<Rightarrow> BYTE_STRING | BList _ \<Rightarrow> LIST
      | BDict _ \<Rightarrow> DICTIONARY | BNothing \<Rightarrow> INVALID)"

lemma bvalue_type_abs [simp]: "bvalue_type (abs_object x) = obj_type x"
  by (cases "obj_value x") (simp_all add: abs_object_value obj_type_def bvalue_type_def)

definition entry_matches :: "byte list \<Rightarrow> bencode_data_type \<Rightarrow> bencode_entry \<Rightarrow> bool" where
  "entry_matches key t e \<longleftrightarrow> seg_bytes (entry_key e) = key \<and> obj_type (entry_value e) = t"

text \<open>The entry of an abstract dictionary with the given key, when it has the given type.\<close>

definition field :: "bvalue \<Rightarrow> string \<Rightarrow> bencode_data_type \<Rightarrow> bvalue option" where
  "field v key t =
     (case v of BDict es \<Rightarrow>
        (case map_of es (bytes_of key) of
           Some w \<Rightarrow> if bvalue_type w = t then Some w else None
         | None \<Rightarrow> None)
      | _ \<Rightarrow> None)"

lemma faithful_keys_distinct:
  assumes "faithful inp (Object (Dictionary entries c) s n)"
  shows "distinct (map (\<lambda>e. seg_bytes (entry_key e)) entries)"
proof -
  have "bencodes (BDict (abs_entries entries)) (take (unat n) (drop (unat s) inp))"
    using assms by simp
  then have "sorted_wrt (<) (map fst (abs_entries entries))"
    by (rule bencodes_dictE) (rule entries_sorted)
  then show ?thesis
    by (simp add: abs_entries_map comp_def strict_sorted_iff)
qed

text \<open>
  With distinct keys the first entry that matches key and type is the entry of that key, if it
  has that type: skipping an entry of the wrong type never leads to another one.
\<close>

lemma find_entry_map_of:
  assumes "distinct (map (\<lambda>e. seg_bytes (entry_key e)) entries)"
  shows "map_option abs_object (map_option entry_value (List.find (entry_matches key t) entries)) =
    (case map_of (abs_entries entries) key of
       Some w \<Rightarrow> if bvalue_type w = t then Some w else None
     | None \<Rightarrow> None)"
  using assms
proof (induction entries)
  case (Cons e es)
  show ?case
  proof (cases "seg_bytes (entry_key e) = key")
    case True
    then have "\<forall>e' \<in> set es. seg_bytes (entry_key e') \<noteq> key"
      using Cons.prems by (simp add: image_iff) metis
    then have "List.find (entry_matches key t) es = None"
      by (auto simp add: find_None_iff entry_matches_def)
    then show ?thesis using True by (simp add: abs_entries_map entry_matches_def [of key t e])
  next
    case False
    then show ?thesis using Cons by (simp add: abs_entries_map entry_matches_def [of key t e])
  qed
qed simp

locale dictionary_search =
  fixes search :: "bencode_object option \<Rightarrow> ptr \<Rightarrow> size_t \<Rightarrow> bencode_data_type \<Rightarrow> bencode_object option option"
  assumes null: "search None k n t = Some None"
    and other_type: "obj_type x \<noteq> DICTIONARY \<Longrightarrow> search (Some x) k n t = Some None"
    and first_match: "faithful_entries inp entries \<Longrightarrow> length key < 2 ^ 64 \<Longrightarrow>
      search (Some (Object (Dictionary entries c) s m)) (literal key) (of_nat (length key)) t =
        Some (map_option entry_value (List.find (entry_matches (bytes_of key) t) entries))"
begin

text \<open>The search never reads outside a key, and finds what the abstract dictionary has.\<close>

lemma search_field:
  assumes "faithful inp x" "length key < 2 ^ 64"
  shows "\<exists>r. search (Some x) (literal key) (of_nat (length key)) t = Some r \<and>
    map_option abs_object r = field (abs_object x) key t"
proof (cases "obj_type x = DICTIONARY")
  case True
  then obtain entries c s m where x: "x = Object (Dictionary entries c) s m"
    by (cases x, cases "obj_value x") (auto simp: obj_type_def)
  then have "faithful_entries inp entries" using assms(1) by simp
  then show ?thesis
    using first_match [of inp entries key c s m t] find_entry_map_of faithful_keys_distinct assms
    by (auto simp: x field_def)
next
  case False
  then have "field (abs_object x) key t = None"
    by (cases "obj_value x") (auto simp: field_def abs_object_value obj_type_def)
  then show ?thesis using other_type [OF False] by simp
qed

lemma search_faithful:
  assumes "faithful inp x" "length key < 2 ^ 64"
    and found: "search (Some x) (literal key) (of_nat (length key)) t = Some (Some y)"
  shows "faithful inp y \<and> obj_type y = t"
proof -
  have "obj_type x = DICTIONARY" using found other_type by force
  then obtain entries c s m where x: "x = Object (Dictionary entries c) s m"
    by (cases x, cases "obj_value x") (auto simp: obj_type_def)
  then have f: "faithful_entries inp entries" using assms(1) by simp
  obtain e where e: "List.find (entry_matches (bytes_of key) t) entries = Some e" "y = entry_value e"
    using first_match [OF f assms(2), of c s m t] found by (auto simp: x)
  then have "e \<in> set entries" "entry_matches (bytes_of key) t e"
    by (auto simp: find_Some_iff)
  then show ?thesis using f e by (simp add: faithful_entries_iff entry_matches_def)
qed

text \<open>A search whose result a client goes on to use: found with the value of the field, or absent.\<close>

lemma search_cases:
  assumes "faithful inp x" "length key < 2 ^ 64"
  obtains (absent) "search (Some x) (literal key) (of_nat (length key)) t = Some None"
      "field (abs_object x) key t = None"
  | (found) y where "search (Some x) (literal key) (of_nat (length key)) t = Some (Some y)"
      "field (abs_object x) key t = Some (abs_object y)" "faithful inp y" "obj_type y = t"
proof -
  obtain r where r: "search (Some x) (literal key) (of_nat (length key)) t = Some r"
    "map_option abs_object r = field (abs_object x) key t"
    using search_field [OF assms] by blast
  show thesis
  proof (cases r)
    case None
    then show thesis using absent r by simp
  next
    case (Some y)
    then have "search (Some x) (literal key) (of_nat (length key)) t = Some (Some y)" using r by simp
    then show thesis using found search_faithful [OF assms] r Some by auto
  qed
qed

end

end
