(* ===== verification/Bencode_Safety.thy ===== *)
theory Bencode_Safety
  imports Bencode_Spec
begin

text \<open>
  What the parser of src/bencode_parser.c guarantees on every input: no read outside the
  buffer, termination within the fuel it starts with, the position restored and every
  allocated block freed on failure, and on success an object whose value the consumed bytes
  encode.

  The locale \<open>value_parser\<close> is the contract between a list or dictionary parser and the parser
  of nested objects it calls; \<open>total_parser\<close> adds that it returns on inputs up to a given
  length. \<open>parse_buffer_fuel\<close> satisfies both, by induction on its fuel.
\<close>

section \<open>Accounting of array blocks\<close>

definition array_block :: "size_t \<Rightarrow> int" where
  "array_block capacity = (if capacity = 0 then 0 else 1)"

lemma array_block_0 [simp]: "array_block 0 = 0"
  by (simp add: array_block_def)

lemma live_discard [heap_simps]:
  "live (discard_list items cap h) = live h - owned_items items - array_block cap"
  "live (discard_dict entries cap h) = live h - owned_entries entries - array_block cap"
  by (simp_all add: discard_list_def discard_dict_def array_block_def heap_simps)

lemma live_grow:
  "grow_capacity sz count cap h = (r, h') \<Longrightarrow>
   live h' = live h + (case r of None \<Rightarrow> 0 | Some cap' \<Rightarrow> array_block cap' - array_block cap)"
  by (cases r) (auto simp: array_block_def dest: grow_capacity_None grow_capacity_Some)

section \<open>The key of an entry\<close>

lemma key_cases:
  assumes wf: "wf_parser p"
  obtains (bad) "parse_bencode_string p = Some (None, p)"
  | (key) key kt p0 where "parse_bencode_string p = Some (Some key, p0)" "valid_segment key"
      "string_text (seg_bytes key) kt" "wf_parser p0" "remaining p = kt @ remaining p0"
      "p0 = advance (length kt) p" "kt \<noteq> []"
proof (cases "scan_string (remaining p)")
  case None
  then show thesis using wf by (intro bad) (simp add: parse_bencode_string_eq)
next
  case (Some nk)
  then obtain n k where nk: "scan_string (remaining p) = Some (n, k)" by (cases nk) auto
  note kn = scan_string_bound [OF nk]
  have ne: "remaining p \<noteq> []" using kn by auto
  show thesis
  proof (rule key)
    show "parse_bencode_string p = Some (Some (segment_at p k n), advance (k + n) p)"
      using wf nk by (simp add: parse_bencode_string_eq)
    show "string_text (seg_bytes (segment_at p k n)) (take (k + n) (remaining p))"
      using segment_at_bytes [OF wf, of k n] scan_string_sound [OF nk] kn ne by simp
  qed (use segment_at_bytes [OF wf, of k n] kn ne wf in \<open>auto simp: wf_advance remaining_advance\<close>)
qed

section \<open>The contract of a nested parser\<close>

locale value_parser =
  fixes parse :: object_parser
  assumes restore: "wf_parser p \<Longrightarrow> parse p h = Some (None, q, h') \<Longrightarrow> q = p \<and> live h' = live h"
    and result: "wf_parser p \<Longrightarrow> parse p h = Some (Some x, q, h') \<Longrightarrow>
      \<exists>n. 0 < n \<and> n \<le> length (remaining p) \<and> q = advance n p \<and> live h' = live h + owned x \<and>
          start_offset x = ps_position p \<and> encoded_length x = of_nat n \<and>
          bencodes (abs_object x) (take n (remaining p)) \<and> faithful (input p) x"
begin

lemma result_split:
  assumes "wf_parser p" "parse p h = Some (Some x, q, h')"
  obtains bs where "bs \<noteq> []" "remaining p = bs @ remaining q" "q = advance (length bs) p" "wf_parser q"
    "live h' = live h + owned x" "bencodes (abs_object x) bs" "faithful (input p) x"
proof -
  obtain n where n: "0 < n" "n \<le> length (remaining p)" "q = advance n p" "live h' = live h + owned x"
    "bencodes (abs_object x) (take n (remaining p))" "faithful (input p) x"
    using result [OF assms] by blast
  show thesis
    by (rule that [of "take n (remaining p)"]) (use n assms(1) in \<open>auto simp: wf_advance remaining_advance\<close>)
qed

definition list_post ::
    "size_t \<Rightarrow> bencode_object list \<Rightarrow> size_t \<Rightarrow> parser_state \<Rightarrow> heap \<Rightarrow>
     (bencode_object list \<times> size_t) option \<Rightarrow> parser_state \<Rightarrow> heap \<Rightarrow> bool" where
  "list_post start items cap p h r q h' \<longleftrightarrow>
     (case r of
        None \<Rightarrow> q = rewind start p \<and> live h' = live h - owned_items items - array_block cap
      | Some (items', cap') \<Rightarrow>
          \<exists>new bs. items' = items @ new \<and> remaining p = bs @ 101 # remaining q \<and>
            q = advance (length bs + 1) p \<and> bencodes_items (abs_items new) bs \<and>
            faithful_items (input p) items' \<and>
            live h' - owned_items items' - array_block cap' = live h - owned_items items - array_block cap)"

lemma list_post_None:
  "list_post start items cap p h None q h' \<longleftrightarrow>
   q = rewind start p \<and> live h' = live h - owned_items items - array_block cap"
  by (simp add: list_post_def)

lemma list_post_Cons:
  assumes post: "list_post start (items @ [x]) cap2 p1 h2 r q h'"
    and bs: "remaining p = bs @ remaining p1" "p1 = advance (length bs) p" "bencodes (abs_object x) bs"
    and debt: "live h2 - owned_items (items @ [x]) - array_block cap2 = live h - owned_items items - array_block cap"
  shows "list_post start items cap p h r q h'"
proof (cases r)
  case None
  then show ?thesis using post debt bs(2) by (simp add: list_post_def)
next
  case (Some ic)
  obtain items' cap' where ic: "ic = (items', cap')" by (cases ic)
  obtain new cs where new: "items' = (items @ [x]) @ new" "remaining p1 = cs @ 101 # remaining q"
    "q = advance (length cs + 1) p1" "bencodes_items (abs_items new) cs" "faithful_items (input p1) items'"
    "live h' - owned_items items' - array_block cap' = live h2 - owned_items (items @ [x]) - array_block cap2"
    using post by (auto simp: list_post_def Some ic)
  have "bencodes_items (abs_items (x # new)) (bs @ cs)"
    using bs(3) new(4) by (auto intro: items_Cons)
  then show ?thesis
    using new bs(1,2) debt unfolding list_post_def Some ic option.case prod.case
    by (intro exI [of _ "x # new"] exI [of _ "bs @ cs"]) (simp add: add.assoc)
qed

text \<open>One turn of the loop gives up, or has one more item and goes round again.\<close>

lemma list_loop_turn:
  assumes wf: "wf_parser p" and c: "c \<noteq> 101"
    and run: "list_loop (Suc fuel) parse start items cap c p h = Some (r, q, h')"
  obtains (fails) "r = None" "q = rewind start p" "live h' = live h - owned_items items - array_block cap"
  | (item) x bs p1 cap2 h2 c' cs where "remaining p = bs @ remaining p1" "p1 = advance (length bs) p"
      "wf_parser p1" "bencodes (abs_object x) bs" "faithful (input p) x" "remaining p1 = c' # cs"
      "live h2 - owned_items (items @ [x]) - array_block cap2 = live h - owned_items items - array_block cap"
      "list_loop fuel parse start (items @ [x]) cap2 c' p1 h2 = Some (r, q, h')"
proof -
  obtain res p1 h1 where parse: "parse p h = Some (res, p1, h1)"
    using run c by (cases "parse p h") auto
  show thesis
  proof (cases res)
    case None
    then show thesis
      using run c parse restore [OF wf, of h p1 h1] by (intro fails) (auto simp: heap_simps)
  next
    case (Some x)
    then obtain bs where bs: "remaining p = bs @ remaining p1" "p1 = advance (length bs) p"
      "wf_parser p1" "live h1 = live h + owned x" "bencodes (abs_object x) bs" "faithful (input p) x"
      using result_split [OF wf] parse by metis
    obtain g h2 where grow: "grow_capacity sizeof_object (length items) cap h1 = (g, h2)" by fastforce
    note live2 = live_grow [OF grow] and facts = run c parse Some grow bs
    show thesis
    proof (cases "g = None \<or> remaining p1 = []")
      case True
      then show thesis
        using facts live2 by (intro fails) (auto simp: heap_simps peek_remaining split: option.splits)
    next
      case False
      then obtain cap2 c' cs where g: "g = Some cap2" and rem: "remaining p1 = c' # cs"
        by (auto simp: neq_Nil_conv)
      show thesis
        by (rule item [OF bs(1,2,3,5,6) rem]) (use facts live2 g rem in \<open>simp_all add: peek_remaining\<close>)
    qed
  qed
qed

lemma list_loop_post:
  assumes "wf_parser p" "remaining p = c # cs" "faithful_items (input p) items"
    and "list_loop fuel parse start items cap c p h = Some (r, q, h')"
  shows "list_post start items cap p h r q h'"
  using assms
proof (induction fuel arbitrary: items cap c cs p h)
  case (Suc fuel)
  show ?case
  proof (cases "c = 101")
    case True
    then have "r = Some (items, cap)" "q = advance 1 p" "h' = h"
      using Suc.prems by (auto simp: consume_remaining)
    then show ?thesis
      using True Suc.prems by (auto simp: list_post_def remaining_advance intro!: exI [of _ "[]"])
  next
    case False
    from Suc.prems(1) False Suc.prems(4) show ?thesis
    proof (cases rule: list_loop_turn)
      case fails
      then show ?thesis by (simp add: list_post_None)
    next
      case (item x bs p1 cap2 h2 c' cs')
      then have "faithful_items (input p1) (items @ [x])"
        using Suc.prems(3) by (simp add: faithful_items_iff)
      from Suc.IH [OF item(3,6) this item(8)] show ?thesis
        using item(1,2,4,7) by (rule list_post_Cons)
    qed
  qed
qed simp

lemma parse_list_post:
  assumes "wf_parser p" "parse_bencode_list fuel parse p h = Some (r, q, h')"
  shows "case r of
      None \<Rightarrow> q = p \<and> live h' = live h
    | Some (items, cap) \<Rightarrow>
        \<exists>bs. remaining p = 108 # bs @ 101 # remaining q \<and> q = advance (length bs + 2) p \<and>
          bencodes_items (abs_items items) bs \<and> faithful_items (input p) items \<and>
          live h' = live h + owned_items items + array_block cap"
proof (cases "\<exists>c cs. remaining p = 108 # c # cs")
  case True
  then obtain c cs where rem: "remaining p = 108 # c # cs" by blast
  have p1: "wf_parser (advance (Suc 0) p)" "remaining (advance (Suc 0) p) = c # cs"
    using assms(1) rem by (simp_all add: wf_advance remaining_advance)
  show ?thesis
  proof (cases "c = 101")
    case True
    then show ?thesis
      using assms rem p1
      by (auto simp: parse_bencode_list_def consume_remaining peek_remaining remaining_advance Let_def numeral_2_eq_2)
  next
    case False
    then have "list_loop fuel parse (ps_position p) [] 0 c (advance (Suc 0) p) h = Some (r, q, h')"
      using assms rem p1 by (simp add: parse_bencode_list_def consume_remaining peek_remaining Let_def)
    then have "list_post (ps_position p) [] 0 (advance (Suc 0) p) h r q h'"
      using list_loop_post p1 by fastforce
    then show ?thesis
      using rem p1 by (fastforce simp: list_post_def split: option.splits)
  qed
next
  case False
  then show ?thesis
    using assms
    by (cases "remaining p"; cases "tl (remaining p)")
       (auto simp: parse_bencode_list_def consume_remaining peek_remaining remaining_advance wf_advance Let_def
          split: if_splits)
qed

definition dict_post ::
    "size_t \<Rightarrow> bencode_entry list \<Rightarrow> size_t \<Rightarrow> parser_state \<Rightarrow> heap \<Rightarrow>
     (bencode_entry list \<times> size_t) option \<Rightarrow> parser_state \<Rightarrow> heap \<Rightarrow> bool" where
  "dict_post start entries cap p h r q h' \<longleftrightarrow>
     (case r of
        None \<Rightarrow> q = rewind start p \<and> live h' = live h - owned_entries entries - array_block cap
      | Some (entries', cap') \<Rightarrow>
          \<exists>new bs. entries' = entries @ new \<and> remaining p = bs @ 101 # remaining q \<and>
            q = advance (length bs + 1) p \<and> bencodes_entries (abs_entries new) bs \<and>
            (entries \<noteq> [] \<and> new \<noteq> [] \<longrightarrow>
               seg_bytes (entry_key (last entries)) < seg_bytes (entry_key (hd new))) \<and>
            faithful_entries (input p) entries' \<and>
            live h' - owned_entries entries' - array_block cap' =
            live h - owned_entries entries - array_block cap)"

lemma dict_post_None:
  "dict_post start entries cap p h None q h' \<longleftrightarrow>
   q = rewind start p \<and> live h' = live h - owned_entries entries - array_block cap"
  by (simp add: dict_post_def)

lemma dict_post_Cons:
  assumes post: "dict_post start (entries @ [Entry key x]) cap2 p1 h2 r q h'"
    and bs: "remaining p = bs @ remaining p1" "p1 = advance (length bs) p"
    and enc: "bs = kt @ vt" "string_text (seg_bytes key) kt" "bencodes (abs_object x) vt"
    and order: "entries \<noteq> [] \<longrightarrow> seg_bytes (entry_key (last entries)) < seg_bytes key"
    and debt: "live h2 - owned_entries (entries @ [Entry key x]) - array_block cap2 =
      live h - owned_entries entries - array_block cap"
  shows "dict_post start entries cap p h r q h'"
proof (cases r)
  case None
  then show ?thesis using post debt bs(2) by (simp add: dict_post_def)
next
  case (Some ec)
  obtain entries' cap' where ec: "ec = (entries', cap')" by (cases ec)
  obtain new cs where new: "entries' = (entries @ [Entry key x]) @ new" "remaining p1 = cs @ 101 # remaining q"
    "q = advance (length cs + 1) p1" "bencodes_entries (abs_entries new) cs"
    "entries @ [Entry key x] \<noteq> [] \<and> new \<noteq> [] \<longrightarrow>
      seg_bytes (entry_key (last (entries @ [Entry key x]))) < seg_bytes (entry_key (hd new))"
    "faithful_entries (input p1) entries'"
    "live h' - owned_entries entries' - array_block cap' =
     live h2 - owned_entries (entries @ [Entry key x]) - array_block cap2"
    using post unfolding dict_post_def Some ec option.case prod.case by blast
  have "abs_entries new \<noteq> [] \<longrightarrow> seg_bytes key < fst (hd (abs_entries new))"
    using new(5) by (cases new) (auto simp: abs_entries_map)
  then have "bencodes_entries (abs_entries (Entry key x # new)) (bs @ cs)"
    using enc new(4) by (auto intro: entries_Cons)
  then show ?thesis
    using new bs order debt unfolding dict_post_def Some ec option.case prod.case
    by (intro exI [of _ "Entry key x # new"] exI [of _ "bs @ cs"]) (simp add: add.assoc)
qed

text \<open>One turn of the loop gives up, or has one more entry and goes round again.\<close>

lemma dict_loop_turn:
  assumes wf: "wf_parser p" and rem: "remaining p = c # cs" and c: "c \<noteq> 101"
    and entries: "faithful_entries (input p) entries"
    and run: "dict_loop (Suc fuel) parse start entries cap c p h = Some (r, q, h')"
  obtains (fails) "r = None" "q = rewind start p" "live h' = live h - owned_entries entries - array_block cap"
  | (entry) key x kt vt p1 cap2 h2 c' cs' where "remaining p = (kt @ vt) @ remaining p1"
      "p1 = advance (length (kt @ vt)) p" "wf_parser p1" "valid_segment key" "string_text (seg_bytes key) kt"
      "bencodes (abs_object x) vt" "faithful (input p) x" "remaining p1 = c' # cs'"
      "entries \<noteq> [] \<longrightarrow> seg_bytes (entry_key (last entries)) < seg_bytes key"
      "live h2 - owned_entries (entries @ [Entry key x]) - array_block cap2 =
        live h - owned_entries entries - array_block cap"
      "dict_loop fuel parse start (entries @ [Entry key x]) cap2 c' p1 h2 = Some (r, q, h')"
  using wf
proof (cases rule: key_cases)
  case bad
  then show thesis using run c by (intro fails) (auto simp: heap_simps)
next
  case (key key kt p0)
  note order = key_in_order_eq [OF entries key(2)]
  show thesis
  proof (cases "entries \<noteq> [] \<longrightarrow> seg_bytes (entry_key (last entries)) < seg_bytes key")
    case False
    then show thesis using run c key order by (intro fails) (auto simp: heap_simps)
  next
    case ordered: True
    obtain res p1 h1 where parse: "parse p0 h = Some (res, p1, h1)"
      using run c key(1) order ordered by (cases "parse p0 h") auto
    show thesis
    proof (cases res)
      case None
      then show thesis
        using run c key order ordered parse restore [of p0 h p1 h1] by (intro fails) (auto simp: heap_simps)
    next
      case (Some x)
      then obtain vt where vt: "remaining p0 = vt @ remaining p1" "p1 = advance (length vt) p0" "wf_parser p1"
        "live h1 = live h + owned x" "bencodes (abs_object x) vt" "faithful (input p0) x"
        using result_split [OF key(4)] parse by metis
      obtain g h2 where grow: "grow_capacity sizeof_entry (length entries) cap h1 = (g, h2)" by fastforce
      note live2 = live_grow [OF grow] and facts = run c key order ordered parse Some grow vt
      show thesis
      proof (cases "g = None \<or> remaining p1 = []")
        case True
        then show thesis
          using facts live2 by (intro fails) (auto simp: heap_simps peek_remaining split: option.splits)
      next
        case False
        then obtain cap2 c' cs' where g: "g = Some cap2" and rem1: "remaining p1 = c' # cs'"
          by (auto simp: neq_Nil_conv)
        show thesis
          by (rule entry [OF _ _ vt(3) key(2,3) vt(5) _ rem1 ordered])
             (use facts live2 g rem1 in \<open>simp_all add: peek_remaining\<close>)
      qed
    qed
  qed
qed

lemma dict_loop_post:
  assumes "wf_parser p" "remaining p = c # cs" "faithful_entries (input p) entries"
    and "dict_loop fuel parse start entries cap c p h = Some (r, q, h')"
  shows "dict_post start entries cap p h r q h'"
  using assms
proof (induction fuel arbitrary: entries cap c cs p h)
  case (Suc fuel)
  show ?case
  proof (cases "c = 101")
    case True
    then have "r = Some (entries, cap)" "q = advance 1 p" "h' = h"
      using Suc.prems by (auto simp: consume_remaining)
    then show ?thesis
      using True Suc.prems by (auto simp: dict_post_def remaining_advance intro!: exI [of _ "[]"])
  next
    case False
    from Suc.prems(1,2) False Suc.prems(3,4) show ?thesis
    proof (cases rule: dict_loop_turn)
      case fails
      then show ?thesis by (simp add: dict_post_None)
    next
      case (entry key x kt vt p1 cap2 h2 c' cs')
      then have "faithful_entries (input p1) (entries @ [Entry key x])"
        using Suc.prems(3) by (simp add: faithful_entries_iff)
      from Suc.IH [OF entry(3,8) this entry(11)] show ?thesis
        using entry(1,2) refl entry(5,6,9,10) by (rule dict_post_Cons)
    qed
  qed
qed simp

lemma parse_dict_post:
  assumes "wf_parser p" "parse_bencode_dict fuel parse p h = Some (r, q, h')"
  shows "case r of
      None \<Rightarrow> q = p \<and> live h' = live h
    | Some (entries, cap) \<Rightarrow>
        \<exists>bs. remaining p = 100 # bs @ 101 # remaining q \<and> q = advance (length bs + 2) p \<and>
          bencodes_entries (abs_entries entries) bs \<and> faithful_entries (input p) entries \<and>
          live h' = live h + owned_entries entries + array_block cap"
proof (cases "\<exists>c cs. remaining p = 100 # c # cs")
  case True
  then obtain c cs where rem: "remaining p = 100 # c # cs" by blast
  have p1: "wf_parser (advance (Suc 0) p)" "remaining (advance (Suc 0) p) = c # cs"
    using assms(1) rem by (simp_all add: wf_advance remaining_advance)
  show ?thesis
  proof (cases "c = 101")
    case True
    then show ?thesis
      using assms rem p1
      by (auto simp: parse_bencode_dict_def consume_remaining peek_remaining remaining_advance Let_def numeral_2_eq_2)
  next
    case False
    then have "dict_loop fuel parse (ps_position p) [] 0 c (advance (Suc 0) p) h = Some (r, q, h')"
      using assms rem p1 by (simp add: parse_bencode_dict_def consume_remaining peek_remaining Let_def)
    then have "dict_post (ps_position p) [] 0 (advance (Suc 0) p) h r q h'"
      using dict_loop_post p1 by fastforce
    then show ?thesis
      using rem p1 by (fastforce simp: dict_post_def split: option.splits)
  qed
next
  case False
  then show ?thesis
    using assms
    by (cases "remaining p"; cases "tl (remaining p)")
       (auto simp: parse_bencode_dict_def consume_remaining peek_remaining remaining_advance wf_advance Let_def
          split: if_splits)
qed

end

section \<open>The parser satisfies the contract\<close>

lemma length_input: "wf_parser p \<Longrightarrow> length (input p) = unat (ps_length p)"
  by (auto simp: wf_parser_def input_def split: ptr.splits)

lemma length_remaining_less: "wf_parser p \<Longrightarrow> length (remaining p) < 2 ^ 64"
  using unat_size_lt [of "ps_length p"] by (simp add: length_remaining)

text \<open>What one call returns: nothing changed, or an object its bytes encode.\<close>

definition buffer_post ::
    "parser_state \<Rightarrow> heap \<Rightarrow> bencode_object option \<Rightarrow> parser_state \<Rightarrow> heap \<Rightarrow> bool" where
  "buffer_post p h r q h' \<longleftrightarrow>
     (case r of
        None \<Rightarrow> q = p \<and> live h' = live h
      | Some x \<Rightarrow> \<exists>n. 0 < n \<and> n \<le> length (remaining p) \<and> q = advance n p \<and> live h' = live h + owned x \<and>
          start_offset x = ps_position p \<and> encoded_length x = of_nat n \<and>
          bencodes (abs_object x) (take n (remaining p)) \<and> faithful (input p) x)"

text \<open>An object built from a value the consumed bytes encode.\<close>

definition finished :: "bencode_value \<Rightarrow> nat \<Rightarrow> parser_state \<Rightarrow> bencode_object" where
  "finished v n p = Object v (ps_position p) (ps_position (advance n p) - ps_position p)"

lemma finished_post:
  assumes "wf_parser p" "n \<le> length (remaining p)" "0 < n"
    and "bencodes (abs_value v) (take n (remaining p))" "faithful_value (input p) v"
    and "live h' = live h + owned (finished v n p)"
  shows "buffer_post p h (Some (finished v n p)) (advance n p) h'"
proof -
  have n: "unat (of_nat n :: size_t) = n"
    using assms(1,2) length_remaining_less [of p] by (simp add: unat_of_nat_size)
  have diff: "ps_position (advance n p) - ps_position p = of_nat n"
    by (simp add: advance_def)
  have "unat (ps_position p) + n \<le> length (input p)"
    using assms(1,2) by (simp add: advance_room length_input)
  then show ?thesis
    using assms n unfolding buffer_post_def finished_def diff option.case
    by (intro exI [of _ n]) (simp add: remaining_input)
qed

lemma sint_of_int_range: "- (2 ^ 63) \<le> v \<Longrightarrow> v < 2 ^ 63 \<Longrightarrow> sint (of_int v :: int64) = v"
  by (simp add: signed_of_int signed_take_bit_int_eq_self)

lemma integer_post:
  assumes wf: "wf_parser p" and run: "parse_buffer_fuel (Suc fuel) p h = Some (r, q, h')"
    and b: "remaining p = b # bs" "determine_bencode_data_type b = INTEGER"
  shows "buffer_post p h r q h'"
proof (cases "scan_integer (remaining p)")
  case None
  then show ?thesis
    using run wf b by (auto simp: buffer_post_def peek_remaining parse_bencode_integer_eq)
next
  case (Some vk)
  then obtain v k where vk: "scan_integer (remaining p) = Some (v, k)" by (cases vk) auto
  have "r = Some (finished (Integer (of_int v)) k p)" "q = advance k p" "h' = h"
    using run wf b vk by (auto simp: finished_def peek_remaining parse_bencode_integer_eq Let_def)
  then show ?thesis
    using finished_post [OF wf, of k "Integer (of_int v)"] scan_integer_bound [OF vk] scan_integer_sound [OF vk]
    by (simp add: sint_of_int_range finished_def)
qed

lemma byte_string_post:
  assumes wf: "wf_parser p" and run: "parse_buffer_fuel (Suc fuel) p h = Some (r, q, h')"
    and b: "remaining p = b # bs" "determine_bencode_data_type b = BYTE_STRING"
  shows "buffer_post p h r q h'"
proof (cases "scan_string (remaining p)")
  case None
  then show ?thesis
    using run wf b by (auto simp: buffer_post_def peek_remaining parse_bencode_string_eq)
next
  case (Some nk)
  then obtain n k where nk: "scan_string (remaining p) = Some (n, k)" by (cases nk) auto
  have "r = Some (finished (Byte_String (segment_at p k n)) (k + n) p)" "q = advance (k + n) p" "h' = h"
    using run wf b nk by (auto simp: finished_def peek_remaining parse_bencode_string_eq Let_def)
  moreover have "bencodes (BString (take n (drop k (remaining p)))) (take (k + n) (remaining p))"
    using scan_string_sound [OF nk] by (rule enc_string)
  ultimately show ?thesis
    using finished_post [OF wf, of "k + n" "Byte_String (segment_at p k n)"] scan_string_bound [OF nk] b(1)
      segment_at_bytes [OF wf, of k n] by (simp add: finished_def)
qed

lemma list_value_post:
  assumes nested: "value_parser (parse_buffer_fuel fuel)" and wf: "wf_parser p"
    and run: "parse_buffer_fuel (Suc fuel) p h = Some (r, q, h')"
    and b: "remaining p = b # bs" "determine_bencode_data_type b = LIST"
  shows "buffer_post p h r q h'"
proof -
  obtain l p1 h1 where l: "parse_bencode_list fuel (parse_buffer_fuel fuel) p h = Some (l, p1, h1)"
    using run wf b by (cases "parse_bencode_list fuel (parse_buffer_fuel fuel) p h") (auto simp: peek_remaining)
  note post = value_parser.parse_list_post [OF nested wf l]
  show ?thesis
  proof (cases l)
    case None
    then show ?thesis using run wf b l post by (auto simp: buffer_post_def peek_remaining)
  next
    case (Some ic)
    obtain items cap where ic: "ic = (items, cap)" by (cases ic)
    then obtain cs where cs: "remaining p = 108 # cs @ 101 # remaining p1" "p1 = advance (length cs + 2) p"
      "bencodes_items (abs_items items) cs" "faithful_items (input p) items"
      "live h1 = live h + owned_items items + array_block cap"
      using post Some by auto
    have "r = Some (finished (List_Value items cap) (length cs + 2) p)" "q = p1" "h' = h1"
      using run wf b l Some ic by (auto simp: finished_def peek_remaining Let_def cs(2))
    moreover have "take (length cs + 2) (remaining p) = 108 # cs @ [101]" "length cs + 2 \<le> length (remaining p)"
      by (simp_all add: cs(1))
    ultimately show ?thesis
      using finished_post [OF wf, of "length cs + 2" "List_Value items cap"] cs(2-5)
        enc_list [OF cs(3)] by (simp add: array_block_def finished_def)
  qed
qed

lemma dictionary_post:
  assumes nested: "value_parser (parse_buffer_fuel fuel)" and wf: "wf_parser p"
    and run: "parse_buffer_fuel (Suc fuel) p h = Some (r, q, h')"
    and b: "remaining p = b # bs" "determine_bencode_data_type b = DICTIONARY"
  shows "buffer_post p h r q h'"
proof -
  obtain d p1 h1 where d: "parse_bencode_dict fuel (parse_buffer_fuel fuel) p h = Some (d, p1, h1)"
    using run wf b by (cases "parse_bencode_dict fuel (parse_buffer_fuel fuel) p h") (auto simp: peek_remaining)
  note post = value_parser.parse_dict_post [OF nested wf d]
  show ?thesis
  proof (cases d)
    case None
    then show ?thesis using run wf b d post by (auto simp: buffer_post_def peek_remaining)
  next
    case (Some ec)
    obtain entries cap where ec: "ec = (entries, cap)" by (cases ec)
    then obtain cs where cs: "remaining p = 100 # cs @ 101 # remaining p1" "p1 = advance (length cs + 2) p"
      "bencodes_entries (abs_entries entries) cs" "faithful_entries (input p) entries"
      "live h1 = live h + owned_entries entries + array_block cap"
      using post Some by auto
    have "r = Some (finished (Dictionary entries cap) (length cs + 2) p)" "q = p1" "h' = h1"
      using run wf b d Some ec by (auto simp: finished_def peek_remaining Let_def cs(2))
    moreover have "take (length cs + 2) (remaining p) = 100 # cs @ [101]" "length cs + 2 \<le> length (remaining p)"
      by (simp_all add: cs(1))
    ultimately show ?thesis
      using finished_post [OF wf, of "length cs + 2" "Dictionary entries cap"] cs(2-5)
        enc_dict [OF cs(3)] by (simp add: array_block_def finished_def)
  qed
qed

lemma buffer_step_post:
  assumes nested: "value_parser (parse_buffer_fuel fuel)" and wf: "wf_parser p"
    and run: "parse_buffer_fuel (Suc fuel) p h = Some (r, q, h')"
  shows "buffer_post p h r q h'"
proof (cases "remaining p")
  case Nil
  then show ?thesis using run wf by (auto simp: buffer_post_def peek_remaining)
next
  case (Cons b bs)
  show ?thesis
  proof (cases "determine_bencode_data_type b")
    case INVALID
    then show ?thesis using run wf Cons by (auto simp: buffer_post_def peek_remaining)
  qed (use assms Cons in \<open>blast intro: integer_post byte_string_post list_value_post dictionary_post\<close>)+
qed

lemma parse_buffer_fuel_value_parser: "value_parser (parse_buffer_fuel fuel)"
proof (induction fuel)
  case 0
  show ?case by unfold_locales auto
next
  case (Suc fuel)
  show ?case
    by unfold_locales (auto dest!: buffer_step_post [OF Suc] simp: buffer_post_def simp del: parse_buffer_fuel.simps)
qed

interpretation fuel: value_parser "parse_buffer_fuel f" for f
  by (rule parse_buffer_fuel_value_parser)

interpretation buffer: value_parser parse_bencode_buffer
  by unfold_locales (auto simp: parse_bencode_buffer_def dest: fuel.restore fuel.result)

section \<open>The parser returns\<close>

text \<open>A parser of nested objects that is defined on every input shorter than the bound.\<close>

locale total_parser = value_parser +
  fixes bound :: nat
  assumes total: "wf_parser p \<Longrightarrow> length (remaining p) < bound \<Longrightarrow> \<exists>r. parse p h = Some r"
begin

lemma parse_cases:
  assumes "wf_parser p" "length (remaining p) < bound"
  obtains h1 where "parse p h = Some (None, p, h1)"
  | x bs p1 h1 where "parse p h = Some (Some x, p1, h1)" "wf_parser p1" "input p1 = input p"
      "bs \<noteq> []" "remaining p = bs @ remaining p1" "p1 = advance (length bs) p" "faithful (input p) x"
proof -
  obtain r q h1 where run: "parse p h = Some (r, q, h1)"
    using total [OF assms] by (metis prod_cases3)
  show thesis
  proof (cases r)
    case None
    then show thesis using that(1) run restore [OF assms(1)] by metis
  next
    case (Some x)
    then have run': "parse p h = Some (Some x, q, h1)" using run by simp
    from result_split [OF assms(1) run'] obtain bs where
      bs: "bs \<noteq> []" "remaining p = bs @ remaining q" "q = advance (length bs) p" "wf_parser q"
        "faithful (input p) x" by metis
    then have "input q = input p" by simp
    then show thesis using that(2) run' bs by metis
  qed
qed

lemma list_loop_total:
  assumes "wf_parser p" "remaining p = c # cs" "length (remaining p) < bound" "length (remaining p) \<le> fuel"
  shows "\<exists>r. list_loop fuel parse start items cap c p h = Some r"
  using assms
proof (induction fuel arbitrary: items cap c cs p h)
  case (Suc fuel)
  show ?case
  proof (cases "c = 101")
    case True
    then show ?thesis using Suc.prems by (simp add: consume_remaining)
  next
    case False
    show ?thesis
    proof (cases rule: parse_cases [OF Suc.prems(1,3), of h])
      case (1 h1)
      then show ?thesis using False by simp
    next
      case (2 x bs p1 h1)
      obtain g h2 where grow: "grow_capacity sizeof_object (length items) cap h1 = (g, h2)"
        by fastforce
      show ?thesis
      proof (cases "g = None \<or> remaining p1 = []")
        case True
        then show ?thesis using False 2 grow by (auto simp: peek_remaining split: option.split)
      next
        case go: False
        then obtain cap2 c' cs' where g: "g = Some cap2" and rem: "remaining p1 = c' # cs'"
          by (auto simp: neq_Nil_conv)
        have "length (remaining p1) < length (remaining p)" using 2(4,5) by simp
        then have "\<exists>r. list_loop fuel parse start (items @ [x]) cap2 c' p1 h2 = Some r"
          using Suc.IH [OF 2(2) rem] Suc.prems(3,4) by simp
        then show ?thesis using False 2(1,2) grow g rem by (simp add: peek_remaining)
      qed
    qed
  qed
qed simp

lemma dict_loop_total:
  assumes "wf_parser p" "remaining p = c # cs" "length (remaining p) < bound" "length (remaining p) \<le> fuel"
    and "faithful_entries (input p) entries"
  shows "\<exists>r. dict_loop fuel parse start entries cap c p h = Some r"
  using assms
proof (induction fuel arbitrary: entries cap c cs p h)
  case (Suc fuel)
  show ?case
  proof (rule ccontr)
    assume none: "\<nexists>r. dict_loop (Suc fuel) parse start entries cap c p h = Some r"
    then have c: "c \<noteq> 101" using Suc.prems by (auto simp: consume_remaining)
    from Suc.prems(1) show False
    proof (cases rule: key_cases)
      case bad
      then show False using none c by simp
    next
      case (key key kt p0)
      have order: "key_in_order entries key = Some True"
        using none c key(1) key_in_order_eq [OF Suc.prems(5) key(2)] by (auto split: if_splits)
      have less: "length (remaining p0) < length (remaining p)" using key(5,7) by simp
      then have "length (remaining p0) < bound" using Suc.prems(3) by simp
      from parse_cases [OF key(4) this, of h] show False
      proof cases
        case (1 h1)
        then show False using none c key(1) order by simp
      next
        case (2 x bs p1 h1)
        obtain g h2 where grow: "grow_capacity sizeof_entry (length entries) cap h1 = (g, h2)"
          by fastforce
        obtain cap2 c' cs' where go: "g = Some cap2" "remaining p1 = c' # cs'"
          using none c key(1) order 2(1,2) grow
          by (cases g; cases "remaining p1") (auto simp: peek_remaining)
        have "\<exists>r. dict_loop fuel parse start (entries @ [Entry key x]) cap2 c' p1 h2 = Some r"
          using Suc.prems(3-5) 2(3-5,7) key(2,6) less
          by (intro Suc.IH [OF 2(2) go(2)]) (auto simp: faithful_entries_iff)
        then show False using none c key(1) order 2(1,2) grow go by (simp add: peek_remaining)
      qed
    qed
  qed
qed simp

lemma parse_list_total:
  assumes "wf_parser p" "length (remaining p) \<le> bound" "length (remaining p) \<le> Suc fuel"
  shows "\<exists>r. parse_bencode_list fuel parse p h = Some r"
proof (cases "\<exists>c cs. remaining p = 108 # c # cs")
  case True
  then obtain c cs where rem: "remaining p = 108 # c # cs" by blast
  then have "wf_parser (advance (Suc 0) p)" "remaining (advance (Suc 0) p) = c # cs"
    using assms(1) by (simp_all add: wf_advance remaining_advance)
  then show ?thesis
    using assms rem list_loop_total [of "advance (Suc 0) p" c cs fuel]
    by (auto simp: parse_bencode_list_def consume_remaining peek_remaining Let_def)
next
  case False
  then show ?thesis
    using assms
    by (cases "remaining p"; cases "tl (remaining p)")
       (auto simp: parse_bencode_list_def consume_remaining peek_remaining remaining_advance wf_advance Let_def)
qed

lemma parse_dict_total:
  assumes "wf_parser p" "length (remaining p) \<le> bound" "length (remaining p) \<le> Suc fuel"
  shows "\<exists>r. parse_bencode_dict fuel parse p h = Some r"
proof (cases "\<exists>c cs. remaining p = 100 # c # cs")
  case True
  then obtain c cs where rem: "remaining p = 100 # c # cs" by blast
  then have "wf_parser (advance (Suc 0) p)" "remaining (advance (Suc 0) p) = c # cs"
    using assms(1) by (simp_all add: wf_advance remaining_advance)
  then show ?thesis
    using assms rem dict_loop_total [of "advance (Suc 0) p" c cs fuel]
    by (auto simp: parse_bencode_dict_def consume_remaining peek_remaining Let_def)
next
  case False
  then show ?thesis
    using assms
    by (cases "remaining p"; cases "tl (remaining p)")
       (auto simp: parse_bencode_dict_def consume_remaining peek_remaining remaining_advance wf_advance Let_def)
qed

end

lemma parse_buffer_fuel_total:
  "wf_parser p \<Longrightarrow> length (remaining p) < fuel \<Longrightarrow> \<exists>r. parse_buffer_fuel fuel p h = Some r"
proof (induction fuel arbitrary: p h)
  case (Suc fuel)
  have sub: "total_parser (parse_buffer_fuel fuel) fuel"
    by unfold_locales (use Suc.IH in blast)
  have l: "\<exists>r q h'. parse_bencode_list fuel (parse_buffer_fuel fuel) p h = Some (r, q, h')"
    using total_parser.parse_list_total [OF sub] Suc.prems by (metis less_Suc_eq_le le_SucI prod_cases3)
  have d: "\<exists>r q h'. parse_bencode_dict fuel (parse_buffer_fuel fuel) p h = Some (r, q, h')"
    using total_parser.parse_dict_total [OF sub] Suc.prems by (metis less_Suc_eq_le le_SucI prod_cases3)
  show ?case
    using Suc.prems l d
    by (cases "remaining p"; cases "determine_bencode_data_type (hd (remaining p))")
       (auto simp: peek_remaining parse_bencode_string_eq parse_bencode_integer_eq Let_def split: option.split)
qed simp

interpretation fuel_total: total_parser "parse_buffer_fuel f" f for f
  by unfold_locales (rule parse_buffer_fuel_total)

lemma parse_bencode_buffer_total: "wf_parser p \<Longrightarrow> \<exists>r. parse_bencode_buffer p h = Some r"
  unfolding parse_bencode_buffer_def buffer_fuel_def
  by (rule parse_buffer_fuel_total) (simp_all add: length_remaining)

interpretation buffer_total: total_parser parse_bencode_buffer "2 ^ 64"
  by unfold_locales (rule parse_bencode_buffer_total)

end
