(* ===== verification/Bencode_Complete.thy ===== *)
theory Bencode_Complete
  imports Bencode_Safety
begin

text \<open>
  The parser of src/bencode_parser.c accepts everything the grammar generates: on an encoding
  of a value, followed by anything, it returns that value and stops right after the encoding,
  provided the allocator does not fail and the buffer is shorter than \<open>2 ^ 57\<close> bytes (so that
  the guards on the array capacities cannot fire). With \<open>Bencode_Safety\<close> this decides what the
  parser accepts, and gives the round trip with the canonical encoder.
\<close>

section \<open>Array growth\<close>

definition capacity_ok :: "nat \<Rightarrow> size_t \<Rightarrow> bool" where
  "capacity_ok count cap \<longleftrightarrow> count \<le> unat cap \<and> unat cap \<le> 2 * count"

lemma capacity_ok_0 [simp]: "capacity_ok 0 0"
  by (simp add: capacity_ok_def)

lemma grow_capacity_ok:
  assumes "capacity_ok count cap" "count < 2 ^ 57" "plentiful h" "sz \<noteq> 0" "unat sz \<le> 64"
  shows "\<exists>cap' h'. grow_capacity sz count cap h = (Some cap', h') \<and> plentiful h' \<and>
    capacity_ok (Suc count) cap'"
proof (cases "of_nat count = cap")
  case True
  have count: "unat cap = count" using True assms(2) by (simp add: unat_of_nat_size flip: True)
  have small: "\<not> cap > SIZE_MAX div 2"
    using count assms(2) by (simp add: not_less word_le_nat_alt unat_div)
  define new where "new = (if cap = 0 then 1 else cap * 2)"
  have new: "unat new = (if count = 0 then 1 else count * 2)"
    using double_capacity [OF small] count by (auto simp: new_def simp flip: unat_eq_zero)
  have "18446744073709551615 div 64 \<le> (18446744073709551615 :: nat) div unat sz"
    using assms(4,5) by (intro div_le_mono2) (auto simp: unat_gt_0)
  then have "new \<le> SIZE_MAX div sz"
    using new assms(2) by (simp add: word_le_nat_alt unat_div split: if_splits)
  moreover obtain h' where "realloc (cap = 0) h = (True, h')" "plentiful h'"
    using plentiful_realloc [OF assms(3)] by blast
  ultimately show ?thesis
    using True small new count
    by (auto simp: grow_capacity_def Let_def capacity_ok_def new_def [symmetric])
next
  case False
  then have "count \<noteq> unat cap" by auto
  then show ?thesis
    using assms(1,3) False by (auto simp: grow_capacity_def capacity_ok_def)
qed

section \<open>Completeness of the loops\<close>

lemma string_text_head: "string_text s bs \<Longrightarrow> bs \<noteq> [] \<and> isdigit (hd bs)"
  by (auto simp: string_text_def list_all_iff hd_append)

lemma bencodes_head: "bencodes v bs \<Longrightarrow> bs \<noteq> [] \<and> hd bs \<noteq> 101"
  by (cases v) (auto elim: bencodes_intE bencodes_listE bencodes_dictE elim!: bencodes_stringE dest: string_text_head)

lemma string_text_start:
  assumes "string_text s bs"
  obtains b cs where "bs = b # cs" "isdigit b" "b \<noteq> 101"
  using string_text_head [OF assms] by (metis isdigit_chars(2) list.collapse)

locale complete_parser = value_parser +
  fixes bound :: nat
  assumes complete: "wf_parser p \<Longrightarrow> length (remaining p) < bound \<Longrightarrow> length (input p) < 2 ^ 57 \<Longrightarrow>
      plentiful h \<Longrightarrow> bencodes v bs \<Longrightarrow> remaining p = bs @ rest \<Longrightarrow>
      \<exists>x h'. parse p h = Some (Some x, advance (length bs) p, h') \<and> abs_object x = v \<and> plentiful h'"
begin

lemma list_loop_complete:
  assumes "bencodes_items vs bs" "wf_parser p" "remaining p = bs @ 101 # rest" "remaining p = c # cs"
    and "length (remaining p) < bound" "length (remaining p) \<le> fuel" "length (input p) < 2 ^ 57"
    and "length items + length (remaining p) < 2 ^ 57" "capacity_ok (length items) cap" "plentiful h"
  shows "\<exists>items' cap' h'. list_loop fuel parse start items cap c p h =
    Some (Some (items', cap'), advance (length bs + 1) p, h') \<and> abs_items items' = abs_items items @ vs \<and> plentiful h'"
  using assms
proof (induction vs arbitrary: bs p c cs fuel items cap h)
  case Nil
  then have "c = 101" "bs = []" by auto
  moreover obtain f where "fuel = Suc f" using Nil by (cases fuel) auto
  ultimately show ?case using Nil by (simp add: consume_remaining)
next
  case (Cons v vs)
  obtain f where f: "fuel = Suc f" using Cons.prems by (cases fuel) auto
  obtain vb cb where bs: "bs = vb @ cb" and vb: "bencodes v vb" and cb: "bencodes_items vs cb"
    using Cons.prems(1) by (auto elim: items_ConsE)
  have head: "vb \<noteq> []" "c \<noteq> 101" using bencodes_head [OF vb] Cons.prems(3,4) bs by (auto simp: neq_Nil_conv)
  obtain x h1 where x: "parse p h = Some (Some x, advance (length vb) p, h1)" "abs_object x = v" "plentiful h1"
    using complete [OF Cons.prems(2,5,7,10) vb, of "cb @ 101 # rest"] Cons.prems(3) bs by auto
  define p1 where "p1 = advance (length vb) p"
  have p1: "wf_parser p1" "remaining p1 = cb @ 101 # rest" "input p1 = input p"
    using Cons.prems(2,3) bs by (auto simp: p1_def wf_advance remaining_advance)
  obtain c' cs' where c': "remaining p1 = c' # cs'" using p1(2) by (cases cb) auto
  have shorter: "length (remaining p1) < length (remaining p)" using p1(2) Cons.prems(3) bs head by simp
  have "length items < 2 ^ 57" using Cons.prems(8) by simp
  from grow_capacity_ok [OF Cons.prems(9) this x(3), of sizeof_object]
  obtain cap' h2 where grow: "grow_capacity sizeof_object (length items) cap h1 = (Some cap', h2)"
    "plentiful h2" "capacity_ok (Suc (length items)) cap'" by auto
  have "\<exists>items' cap'' h'. list_loop f parse start (items @ [x]) cap' c' p1 h2 =
      Some (Some (items', cap''), advance (length cb + 1) p1, h') \<and>
      abs_items items' = abs_items (items @ [x]) @ vs \<and> plentiful h'"
    using shorter Cons.prems(5,6,7,8) p1(3) f grow(2,3)
    by (intro Cons.IH [OF cb p1(1,2) c']) auto
  then show ?case
    using head x grow c' p1 f bs
    by (auto simp: peek_remaining abs_items_map p1_def [symmetric]) (simp add: p1_def)
qed

lemma dict_loop_complete:
  assumes "bencodes_entries es bs" "wf_parser p" "remaining p = bs @ 101 # rest" "remaining p = c # cs"
    and "length (remaining p) < bound" "length (remaining p) \<le> fuel" "length (input p) < 2 ^ 57"
    and "length entries + length (remaining p) < 2 ^ 57" "capacity_ok (length entries) cap" "plentiful h"
    and "faithful_entries (input p) entries"
    and "entries \<noteq> [] \<and> es \<noteq> [] \<longrightarrow> seg_bytes (entry_key (last entries)) < fst (hd es)"
  shows "\<exists>entries' cap' h'. dict_loop fuel parse start entries cap c p h =
    Some (Some (entries', cap'), advance (length bs + 1) p, h') \<and>
    abs_entries entries' = abs_entries entries @ es \<and> plentiful h'"
  using assms
proof (induction es arbitrary: bs p c cs fuel entries cap h)
  case Nil
  then have "c = 101" "bs = []" by auto
  moreover obtain f where "fuel = Suc f" using Nil by (cases fuel) auto
  ultimately show ?case using Nil by (simp add: consume_remaining)
next
  case (Cons e es)
  obtain f where f: "fuel = Suc f" using Cons.prems by (cases fuel) auto
  obtain k v kb vb cb where e: "e = (k, v)" and bs: "bs = kb @ vb @ cb" and kb: "string_text k kb"
    and vb: "bencodes v vb" and cb: "bencodes_entries es cb" and sorted: "es \<noteq> [] \<longrightarrow> k < fst (hd es)"
    using Cons.prems(1) by (rule entries_ConsE) (rule that)
  obtain b bt where "kb = b # bt" "b \<noteq> 101" by (rule string_text_start [OF kb])
  then have head: "kb \<noteq> []" "c \<noteq> 101" using Cons.prems(3,4) bs by auto
  obtain j where j: "scan_string (remaining p) = Some (length k, j)" "j + length k = length kb"
    "take (length k) (drop j (remaining p)) = k"
    using scan_string_complete [OF kb, of "vb @ cb @ 101 # rest"] Cons.prems(3) bs by auto
  define key where "key = segment_at p j (length k)"
  define p0 where "p0 = advance (length kb) p"
  have kn: "j + length k \<le> length (remaining p)" using scan_string_bound [OF j(1)] by auto
  have key: "valid_segment key" "seg_bytes key = k"
    using segment_at_bytes [OF Cons.prems(2) kn] Cons.prems(4) j(3) by (auto simp: key_def)
  have string: "parse_bencode_string p = Some (Some key, p0)"
    using Cons.prems(2) j by (simp add: parse_bencode_string_eq key_def p0_def)
  have p0: "wf_parser p0" "remaining p0 = vb @ cb @ 101 # rest" "input p0 = input p"
    using Cons.prems(2,3) bs by (auto simp: p0_def wf_advance remaining_advance)
  have order: "key_in_order entries key = Some True"
    using key_in_order_eq [OF Cons.prems(11) key(1)] Cons.prems(12) e key(2) by auto
  obtain x h1 where x: "parse p0 h = Some (Some x, advance (length vb) p0, h1)" "abs_object x = v" "plentiful h1"
    using complete [OF p0(1) _ _ Cons.prems(10) vb p0(2)] p0 Cons.prems(3,5,7) bs by auto
  define p1 where "p1 = advance (length vb) p0"
  have p1: "wf_parser p1" "remaining p1 = cb @ 101 # rest" "input p1 = input p"
    using p0 by (auto simp: p1_def wf_advance remaining_advance)
  have faith: "faithful (input p) x"
    using result_split [OF p0(1) x(1)] p0(3) by metis
  obtain c' cs' where c': "remaining p1 = c' # cs'" using p1(2) by (cases cb) auto
  have shorter: "length (remaining p1) < length (remaining p)" using p1(2) Cons.prems(3) bs head by simp
  have "length entries < 2 ^ 57" using Cons.prems(8) by simp
  from grow_capacity_ok [OF Cons.prems(9) this x(3), of sizeof_entry]
  obtain cap' h2 where grow: "grow_capacity sizeof_entry (length entries) cap h1 = (Some cap', h2)"
    "plentiful h2" "capacity_ok (Suc (length entries)) cap'" by auto
  have "\<exists>entries' cap'' h'. dict_loop f parse start (entries @ [Entry key x]) cap' c' p1 h2 =
      Some (Some (entries', cap''), advance (length cb + 1) p1, h') \<and>
      abs_entries entries' = abs_entries (entries @ [Entry key x]) @ es \<and> plentiful h'"
    using shorter Cons.prems(5,6,7,8,11) p1(3) f grow(2,3) key faith sorted
    by (intro Cons.IH [OF cb p1(1,2) c']) (auto simp: faithful_entries_iff)
  then show ?case
    using head x grow c' p1 f bs string order e key(2)
    by (auto simp: peek_remaining abs_entries_map p1_def [symmetric]) (simp add: p1_def p0_def add.assoc)
qed

lemma parse_list_complete:
  assumes "wf_parser p" "remaining p = 108 # bs @ 101 # rest" "bencodes_items vs bs"
    and "length (remaining p) \<le> bound" "length (remaining p) \<le> Suc fuel" "length (input p) < 2 ^ 57" "plentiful h"
  shows "\<exists>items cap h'. parse_bencode_list fuel parse p h =
    Some (Some (items, cap), advance (length bs + 2) p, h') \<and> abs_items items = vs \<and> plentiful h'"
proof -
  obtain c cs where c: "bs @ 101 # rest = c # cs" by (cases bs) auto
  have p1: "wf_parser (advance (Suc 0) p)" "remaining (advance (Suc 0) p) = bs @ 101 # rest"
    "remaining (advance (Suc 0) p) = c # cs"
    using assms(1,2) c by (simp_all add: wf_advance remaining_advance)
  show ?thesis
  proof (cases "c = 101")
    case True
    have "bs = []"
    proof (rule ccontr)
      assume "bs \<noteq> []"
      then obtain v vs' where "vs = v # vs'" using assms(3) by (cases vs) auto
      then obtain vb cb where "bs = vb @ cb" "bencodes v vb" using assms(3) by (auto elim: items_ConsE)
      then show False using bencodes_head [of v vb] c True by (cases vb) auto
    qed
    moreover from this have "vs = []"
      using assms(3) bencodes_head by (cases vs) (auto elim: items_ConsE)
    ultimately show ?thesis
      using assms(1,2,7) p1 True c
      by (auto simp: parse_bencode_list_def consume_remaining peek_remaining Let_def numeral_2_eq_2)
  next
    case False
    have len: "length (input p) = unat (ps_length p)" "length (remaining p) \<le> length (input p)"
      using length_input [OF assms(1)] length_remaining [OF assms(1)] by auto
    have "\<exists>items' cap' h'. list_loop fuel parse (ps_position p) [] 0 c (advance (Suc 0) p) h =
        Some (Some (items', cap'), advance (length bs + 1) (advance (Suc 0) p), h') \<and>
        abs_items items' = abs_items [] @ vs \<and> plentiful h'"
      using assms(2,4-7) p1(2) len
      by (intro list_loop_complete [OF assms(3) p1]) auto
    then show ?thesis
      using assms(1,2) p1 False c
      by (auto simp: parse_bencode_list_def consume_remaining peek_remaining Let_def)
  qed
qed

lemma parse_dict_complete:
  assumes "wf_parser p" "remaining p = 100 # bs @ 101 # rest" "bencodes_entries es bs"
    and "length (remaining p) \<le> bound" "length (remaining p) \<le> Suc fuel" "length (input p) < 2 ^ 57" "plentiful h"
  shows "\<exists>entries cap h'. parse_bencode_dict fuel parse p h =
    Some (Some (entries, cap), advance (length bs + 2) p, h') \<and> abs_entries entries = es \<and> plentiful h'"
proof -
  obtain c cs where c: "bs @ 101 # rest = c # cs" by (cases bs) auto
  have p1: "wf_parser (advance (Suc 0) p)" "remaining (advance (Suc 0) p) = bs @ 101 # rest"
    "remaining (advance (Suc 0) p) = c # cs"
    using assms(1,2) c by (simp_all add: wf_advance remaining_advance)
  show ?thesis
  proof (cases "c = 101")
    case True
    have "es = []"
    proof (rule ccontr)
      assume "es \<noteq> []"
      then obtain e es' where e: "es = e # es'" by (cases es) auto
      obtain k kb vb where "bs = kb @ vb" "string_text k kb"
        using assms(3) unfolding e by (rule entries_ConsE) (blast intro: that)
      then show False using string_text_start [of k kb] c True by (metis append_Cons append_assoc list.inject)
    qed
    moreover from this have "bs = []" using assms(3) by simp
    ultimately show ?thesis
      using assms(1,2,7) p1 True c
      by (auto simp: parse_bencode_dict_def consume_remaining peek_remaining Let_def numeral_2_eq_2)
  next
    case False
    have len: "length (input p) = unat (ps_length p)" "length (remaining p) \<le> length (input p)"
      using length_input [OF assms(1)] length_remaining [OF assms(1)] by auto
    have "\<exists>entries' cap' h'. dict_loop fuel parse (ps_position p) [] 0 c (advance (Suc 0) p) h =
        Some (Some (entries', cap'), advance (length bs + 1) (advance (Suc 0) p), h') \<and>
        abs_entries entries' = abs_entries [] @ es \<and> plentiful h'"
      using assms(2,4-7) p1(2) len
      by (intro dict_loop_complete [OF assms(3) p1]) auto
    then show ?thesis
      using assms(1,2) p1 False c
      by (auto simp: parse_bencode_dict_def consume_remaining peek_remaining Let_def)
  qed
qed

end

section \<open>Completeness of the parser\<close>

lemma int_head: "determine_bencode_data_type 105 = INTEGER" "determine_bencode_data_type 108 = LIST"
  "determine_bencode_data_type 100 = DICTIONARY"
  by (simp_all add: determine_bencode_data_type_def)

lemma digit_head: "isdigit b \<Longrightarrow> determine_bencode_data_type b = BYTE_STRING"
  by (simp add: determine_bencode_data_type_def isdigit_def)

lemma parse_buffer_fuel_complete:
  assumes "wf_parser p" "length (remaining p) < fuel" "length (input p) < 2 ^ 57" "plentiful h"
    and "bencodes v bs" "remaining p = bs @ rest"
  shows "\<exists>x h'. parse_buffer_fuel fuel p h = Some (Some x, advance (length bs) p, h') \<and>
    abs_object x = v \<and> plentiful h'"
  using assms
proof (induction fuel arbitrary: p h v bs rest)
  case (Suc fuel)
  have sub: "complete_parser (parse_buffer_fuel fuel) fuel"
    by unfold_locales (rule Suc.IH)
  note lst = complete_parser.parse_list_complete [OF sub Suc.prems(1), of _ rest _ fuel]
    and dict = complete_parser.parse_dict_complete [OF sub Suc.prems(1), of _ rest _ fuel]
  show ?case
  proof (cases v)
    case (BInt i)
    then have i: "- (2 ^ 63) \<le> i" "i < 2 ^ 63" and bs: "bs = 105 # int_text i @ [101]"
      using Suc.prems(5) by (auto elim: bencodes_intE)
    have "scan_integer (remaining p) = Some (i, length bs)"
      using scan_integer_complete [OF i, of rest] Suc.prems(6) bs by simp
    then show ?thesis
      using Suc.prems(1,4,6) bs BInt i
      by (simp add: peek_remaining int_head parse_bencode_integer_eq Let_def sint_of_int_range)
  next
    case (BString s)
    then have bs: "string_text s bs" using Suc.prems(5) by (auto elim: bencodes_stringE)
    obtain b cs where b: "bs = b # cs" "isdigit b" by (rule string_text_start [OF bs])
    obtain k where k: "scan_string (remaining p) = Some (length s, k)" "k + length s = length bs"
      "take (length s) (drop k (remaining p)) = s"
      using scan_string_complete [OF bs, of rest] Suc.prems(6) by auto
    have "seg_bytes (segment_at p k (length s)) = s"
      using segment_at_bytes [OF Suc.prems(1)] scan_string_bound [OF k(1)] k(3) Suc.prems(6) b by auto
    then show ?thesis
      using Suc.prems(1,4,6) b k BString
      by (simp add: peek_remaining digit_head parse_bencode_string_eq Let_def)
  next
    case (BList vs)
    then obtain cs where bs: "bs = 108 # cs @ [101]" and vs: "bencodes_items vs cs"
      using Suc.prems(5) by (auto elim: bencodes_listE)
    then show ?thesis
      using lst [of cs vs h] Suc.prems BList by (fastforce simp: peek_remaining int_head Let_def)
  next
    case (BDict es)
    then obtain cs where bs: "bs = 100 # cs @ [101]" and es: "bencodes_entries es cs"
      using Suc.prems(5) by (auto elim: bencodes_dictE)
    then show ?thesis
      using dict [of cs es h] Suc.prems BDict by (fastforce simp: peek_remaining int_head Let_def)
  next
    case BNothing
    then show ?thesis using Suc.prems(5) by simp
  qed
qed simp

lemma parse_bencode_buffer_complete:
  assumes "wf_parser p" "length (input p) < 2 ^ 57" "plentiful h" "bencodes v bs" "remaining p = bs @ rest"
  shows "\<exists>x h'. parse_bencode_buffer p h = Some (Some x, advance (length bs) p, h') \<and> abs_object x = v \<and> plentiful h'"
  unfolding parse_bencode_buffer_def buffer_fuel_def
  using assms length_remaining [OF assms(1)] by (intro parse_buffer_fuel_complete) auto

interpretation fuel_complete: complete_parser "parse_buffer_fuel f" f for f
  by unfold_locales (rule parse_buffer_fuel_complete)

interpretation buffer_complete: complete_parser parse_bencode_buffer "2 ^ 64"
  by unfold_locales (rule parse_bencode_buffer_complete)

end
