(* ===== verification/Bencode_Correct.thy ===== *)
theory Bencode_Correct
  imports Bencode_Complete
begin

text \<open>
  The properties of the parser of src/bencode_parser.c that its callers in src/main.c and
  src/tracker.c rely on, each with an instance on a concrete input.
\<close>

section \<open>Concrete inputs\<close>

text \<open>A parser at the start of a buffer with these bytes, and an allocator with unlimited memory.\<close>

definition parser_on :: "byte list \<Rightarrow> parser_state" where
  "parser_on bs = \<lparr>ps_data = Ptr bs 0, ps_length = of_nat (length bs), ps_position = 0\<rparr>"

definition fresh_heap :: heap where
  "fresh_heap = \<lparr>grants = [], live = 0\<rparr>"

text \<open>An allocator whose second request fails.\<close>

definition tight_heap :: heap where
  "tight_heap = \<lparr>grants = [True, False], live = 0\<rparr>"

lemma parser_on_wf: "length bs < 2 ^ 64 \<Longrightarrow>
   wf_parser (parser_on bs) \<and> remaining (parser_on bs) = bs \<and> input (parser_on bs) = bs"
  by (simp add: wf_parser_def remaining_def input_def parser_on_def unat_of_nat_size)

lemma parser_on_string: "length s < 2 ^ 57 \<Longrightarrow>
   wf_parser (parser_on (bytes_of s)) \<and> remaining (parser_on (bytes_of s)) = bytes_of s \<and>
   input (parser_on (bytes_of s)) = bytes_of s"
  by (rule parser_on_wf) simp

lemma plentiful_fresh [simp]: "plentiful fresh_heap"
  by (simp add: fresh_heap_def)

section \<open>Scanning\<close>

text \<open>
  C29: \<open>determine_byte_string_length\<close> reads the longest run of digits and a colon; it returns
  their decimal value exactly when the run is not empty and the value fits in \<open>size_t\<close>, and
  otherwise leaves the parser where it was.
\<close>

theorem string_length_exact:
  assumes "wf_parser p"
  shows "determine_byte_string_length p =
    (let ds = digits (remaining p); rest = after_digits (remaining p) in
     if ds \<noteq> [] \<and> decimal ds \<le> unat SIZE_MAX \<and> rest \<noteq> [] \<and> hd rest = chr (CHR '':'')
     then Some (Some (of_nat (decimal ds)), advance (length ds + 1) p)
     else Some (None, p))"
proof -
  define ds where "ds = digits (remaining p)"
  define rest where "rest = after_digits (remaining p)"
  have "n \<le> unat SIZE_MAX \<longleftrightarrow> n < 2 ^ 64" for n
    using less_Suc_eq_le [of n 18446744073709551615] by simp
  then show ?thesis
    unfolding determine_byte_string_length_eq [OF assms] scan_length_def Let_def
      ds_def [symmetric] rest_def [symmetric]
    by (cases "ds \<noteq> [] \<and> decimal ds < 2 ^ 64 \<and> rest \<noteq> [] \<and> hd rest = chr (CHR '':'')")
       (simp_all only: if_True if_False simp_thms option.case prod.case)
qed

theorem string_length_exact_witness:
  "wf_parser (parser_on (bytes_of ''12:x'')) \<and>
   determine_byte_string_length (parser_on (bytes_of ''12:x'')) =
     Some (Some 12, (parser_on (bytes_of ''12:x''))\<lparr>ps_position := 3\<rparr>)"
proof -
  have wf: "wf_parser (parser_on (bytes_of ''12:x''))" by code_simp
  have "digits (remaining (parser_on (bytes_of ''12:x''))) = [49, 50]"
    "after_digits (remaining (parser_on (bytes_of ''12:x''))) = [58, 120]" by code_simp+
  then show ?thesis using wf string_length_exact [OF wf]
    by (simp add: Let_def digit_value_def advance_def) (simp add: parser_on_def)
qed

text \<open>
  C28: \<open>parse_bencode_integer\<close> accepts \<open>i<sign><digits>e\<close> with no empty number, no leading zero,
  no \<open>-0\<close>, and a value between \<open>INT64_MIN\<close> and \<open>INT64_MAX\<close>; it then returns exactly that value.
\<close>

theorem integer_exact:
  assumes "wf_parser p"
  shows "(\<exists>i k. parse_bencode_integer p = Some (Some i, advance k p) \<and> sint i = v \<and> k \<le> length (remaining p))
    \<longleftrightarrow> - (2 ^ 63) \<le> v \<and> v < 2 ^ 63 \<and>
      (\<exists>rest. remaining p = chr (CHR ''i'') # int_text v @ chr (CHR ''e'') # rest)"
proof
  assume "\<exists>i k. parse_bencode_integer p = Some (Some i, advance k p) \<and> sint i = v \<and> k \<le> length (remaining p)"
  then obtain i k where run: "parse_bencode_integer p = Some (Some i, advance k p)" and i: "sint i = v" by blast
  then obtain w j where w: "scan_integer (remaining p) = Some (w, j)" "i = of_int w"
    using assms by (auto simp: parse_bencode_integer_eq split: option.splits)
  have "w = v" using w i scan_integer_bound [OF w(1)] by (simp add: sint_of_int_range)
  then have "bencodes (BInt v) (take j (remaining p))" using scan_integer_sound [OF w(1)] by simp
  then have "- (2 ^ 63) \<le> v \<and> v < 2 ^ 63 \<and> take j (remaining p) = 105 # int_text v @ [101]"
    by (auto elim: bencodes_intE)
  then show "- (2 ^ 63) \<le> v \<and> v < 2 ^ 63 \<and>
      (\<exists>rest. remaining p = chr (CHR ''i'') # int_text v @ chr (CHR ''e'') # rest)"
    by (metis append.assoc append_Cons append_Nil append_take_drop_id chr_simps(3,6))
next
  assume "- (2 ^ 63) \<le> v \<and> v < 2 ^ 63 \<and>
      (\<exists>rest. remaining p = chr (CHR ''i'') # int_text v @ chr (CHR ''e'') # rest)"
  then obtain rest where v: "- (2 ^ 63) \<le> v" "v < 2 ^ 63" and rem: "remaining p = 105 # int_text v @ 101 # rest"
    by auto
  then have "scan_integer (remaining p) = Some (v, length (int_text v) + 2)"
    using scan_integer_complete by simp
  then show "\<exists>i k. parse_bencode_integer p = Some (Some i, advance k p) \<and> sint i = v \<and> k \<le> length (remaining p)"
    using assms v rem by (auto simp: parse_bencode_integer_eq sint_of_int_range intro!: exI)
qed

theorem integer_exact_witness:
  "wf_parser (parser_on (bytes_of ''i-42ex'')) \<and>
   (\<exists>i k. parse_bencode_integer (parser_on (bytes_of ''i-42ex'')) =
      Some (Some i, advance k (parser_on (bytes_of ''i-42ex''))) \<and> sint i = - 42)"
proof -
  have wf: "wf_parser (parser_on (bytes_of ''i-42ex''))" by code_simp
  have "remaining (parser_on (bytes_of ''i-42ex'')) = chr (CHR ''i'') # int_text (- 42) @ chr (CHR ''e'') # [120]"
    by code_simp
  then show ?thesis using wf integer_exact [OF wf, of "- 42"] by fastforce
qed

section \<open>Parsing\<close>

text \<open>
  C9: on every buffer and at every position inside it, whatever the bytes and whatever the
  allocator answers, \<open>parse_bencode_buffer\<close> returns: the recursion ends and no byte outside the
  buffer is read.
\<close>

theorem parse_defined:
  assumes "wf_parser p"
  shows "\<exists>r q h'. parse_bencode_buffer p h = Some (r, q, h')"
  using buffer_total.total [OF assms] length_remaining_less [OF assms] by (metis prod_cases3)

theorem parse_defined_witness:
  "wf_parser (parser_on (bytes_of ''lld1:'')) \<and>
   (\<exists>r q h'. parse_bencode_buffer (parser_on (bytes_of ''lld1:'')) tight_heap = Some (r, q, h'))"
proof -
  have wf: "wf_parser (parser_on (bytes_of ''lld1:''))" by code_simp
  show ?thesis using wf parse_defined [OF wf] by blast
qed

text \<open>
  C24: when \<open>parse_bencode_buffer\<close> reports failure, for malformed input or for lack of memory, the
  parser is back at the position it started from and every block allocated on the way is freed.
\<close>

theorem parse_failure_restores:
  assumes "wf_parser p" and "parse_bencode_buffer p h = Some (None, q, h')"
  shows "q = p \<and> live h' = live h"
  by (rule buffer.restore [OF assms])

theorem parse_failure_restores_witness:
  "\<exists>q h'. parse_bencode_buffer (parser_on (bytes_of ''li1eli2ee'')) tight_heap = Some (None, q, h') \<and>
     q = parser_on (bytes_of ''li1eli2ee'') \<and> live h' = 0"
proof -
  have wf: "wf_parser (parser_on (bytes_of ''li1eli2ee''))" by code_simp
  have "map_option fst (parse_bencode_buffer (parser_on (bytes_of ''li1eli2ee'')) tight_heap) = Some None"
    by code_simp
  then obtain q h' where run: "parse_bencode_buffer (parser_on (bytes_of ''li1eli2ee'')) tight_heap = Some (None, q, h')"
    by auto
  moreover have "live tight_heap = 0" by (simp add: tight_heap_def)
  ultimately show ?thesis using parse_failure_restores [OF wf run] by auto
qed

text \<open>The object a call returns describes the buffer it was parsed from.\<close>

lemma parse_success_faithful:
  assumes "wf_parser p" and "parse_bencode_buffer p h = Some (Some x, q, h')"
  shows "faithful (input p) x" "live h' = live h + owned x"
  using buffer.result [OF assms] by blast+

text \<open>
  C23: when \<open>parse_bencode_buffer\<close> succeeds it has consumed at least one and at most the available
  bytes; the object's offset and length name exactly those bytes, they are an encoding of the
  object's value, and the object owns exactly the blocks the call allocated.
\<close>

theorem parse_success_sound:
  assumes "wf_parser p" and "parse_bencode_buffer p h = Some (Some x, q, h')"
  shows "\<exists>n. 0 < n \<and> n \<le> length (remaining p) \<and> q = advance n p \<and>
    start_offset x = ps_position p \<and> encoded_length x = of_nat n \<and>
    bencodes (abs_object x) (take n (remaining p)) \<and> faithful (input p) x \<and>
    live h' = live h + owned x"
  using buffer.result [OF assms] by blast

theorem parse_success_sound_witness:
  "\<exists>x q h' n. parse_bencode_buffer (parser_on (bytes_of ''li1e2:abex'')) fresh_heap = Some (Some x, q, h') \<and>
     start_offset x = 0 \<and> encoded_length x = of_nat n \<and>
     bencodes (abs_object x) (take n (bytes_of ''li1e2:abex'')) \<and> live h' = owned x"
proof -
  let ?p = "parser_on (bytes_of ''li1e2:abex'')"
  have wf: "wf_parser ?p" and rem: "remaining ?p = bytes_of ''li1e2:abex''" by code_simp+
  have "map_option (\<lambda>r. fst r \<noteq> None) (parse_bencode_buffer ?p fresh_heap) = Some True" by code_simp
  then obtain x q h' where run: "parse_bencode_buffer ?p fresh_heap = Some (Some x, q, h')"
    by auto
  have "ps_position ?p = 0" "live fresh_heap = 0" by (simp_all add: parser_on_def fresh_heap_def)
  then show ?thesis using parse_success_sound [OF wf run] run unfolding rem by force
qed

text \<open>
  C8: with enough memory and a buffer shorter than \<open>2 ^ 57\<close> bytes, \<open>parse_bencode_buffer\<close> returns
  the value \<open>v\<close> and consumes \<open>k\<close> bytes if and only if those \<open>k\<close> bytes are an encoding of \<open>v\<close>:
  well-formed integers, strings inside the buffer, dictionaries with strictly increasing keys.
\<close>

theorem parse_accepts_exactly:
  assumes "wf_parser p" and "length (input p) < 2 ^ 57" and "plentiful h" and "k \<le> length (remaining p)"
  shows "(\<exists>x h'. parse_bencode_buffer p h = Some (Some x, advance k p, h') \<and> abs_object x = v)
    \<longleftrightarrow> bencodes v (take k (remaining p))"
proof
  assume "\<exists>x h'. parse_bencode_buffer p h = Some (Some x, advance k p, h') \<and> abs_object x = v"
  then obtain x h' where run: "parse_bencode_buffer p h = Some (Some x, advance k p, h')" "abs_object x = v"
    by blast
  obtain n where n: "n \<le> length (remaining p)" "advance k p = advance n p"
    "bencodes (abs_object x) (take n (remaining p))"
    using buffer.result [OF assms(1) run(1)] by blast
  then have "n = k"
    using position_advance [OF assms(1,4)] position_advance [OF assms(1) n(1)] by (metis add_left_cancel)
  then show "bencodes v (take k (remaining p))" using n run by simp
next
  assume "bencodes v (take k (remaining p))"
  then show "\<exists>x h'. parse_bencode_buffer p h = Some (Some x, advance k p, h') \<and> abs_object x = v"
    using buffer_complete.complete [OF assms(1) _ assms(2,3), of v "take k (remaining p)" "drop k (remaining p)"]
      length_remaining_less [OF assms(1)] assms(4) by (auto simp: min_absorb2)
qed

theorem parse_accepts_exactly_witness:
  "\<exists>x h'. parse_bencode_buffer (parser_on (bytes_of ''d1:ai1e2:aai2eeZ'')) fresh_heap =
       Some (Some x, advance 15 (parser_on (bytes_of ''d1:ai1e2:aai2eeZ'')), h') \<and>
     abs_object x = BDict [(bytes_of ''a'', BInt 1), (bytes_of ''aa'', BInt 2)]"
proof -
  let ?p = "parser_on (bytes_of ''d1:ai1e2:aai2eeZ'')" and ?v = "BDict [(bytes_of ''a'', BInt 1), (bytes_of ''aa'', BInt 2)]"
  note on = parser_on_string [of "''d1:ai1e2:aai2eeZ''", simplified]
  have wf: "wf_parser ?p" and len: "length (input ?p) < 2 ^ 57" and k: "15 \<le> length (remaining ?p)"
    using on by simp_all
  have "wf_value ?v" by (simp add: bytes_of_def chr_def)
  moreover have "encode ?v = take 15 (remaining ?p)" by code_simp
  ultimately have "bencodes ?v (take 15 (remaining ?p))" using encode_bencodes(1) by metis
  then show ?thesis
    using parse_accepts_exactly [OF wf len plentiful_fresh k, of ?v] by blast
qed

text \<open>
  C18: encoding a value canonically and parsing the result gives the value back, and nothing is
  left over.
\<close>

theorem parse_encode_roundtrip:
  assumes "wf_value v" and "length (encode v) < 2 ^ 57" and "plentiful h"
  shows "\<exists>x q h'. parse_bencode_buffer (parser_on (encode v)) h = Some (Some x, q, h') \<and>
    abs_object x = v \<and> remaining q = []"
proof -
  have p: "wf_parser (parser_on (encode v))" "remaining (parser_on (encode v)) = encode v"
    "input (parser_on (encode v)) = encode v"
    using parser_on_wf [of "encode v"] assms(2) by auto
  have "encode v \<noteq> [] \<Longrightarrow> remaining (advance (length (encode v)) (parser_on (encode v))) = []"
    using p by (simp add: remaining_advance)
  then show ?thesis
    using buffer_complete.complete [OF p(1) _ _ assms(3) encode_bencodes(1) [OF assms(1)], of "[]"] p assms(2)
    by (cases "encode v = []") (use bencodes_head [OF encode_bencodes(1) [OF assms(1)]] in auto)
qed

theorem parse_encode_roundtrip_witness:
  "\<exists>x q h'. parse_bencode_buffer
      (parser_on (encode (BList [BInt (- 7), BString (bytes_of ''spam''), BDict []]))) fresh_heap =
        Some (Some x, q, h') \<and>
      abs_object x = BList [BInt (- 7), BString (bytes_of ''spam''), BDict []] \<and> remaining q = []"
  by (rule parse_encode_roundtrip) (simp_all add: int_text_def nat_text.simps)

text \<open>
  C25: freeing a parsed object with \<open>free_bencode_object\<close> gives back every block the parser
  allocated for it, and leaves a variable whose type is INVALID, so that freeing it again does
  nothing.
\<close>

theorem parse_then_free:
  assumes "wf_parser p" and "parse_bencode_buffer p h = Some (Some x, q, h')"
  shows "live (snd (free_bencode_object x h')) = live h \<and>
    obj_type (fst (free_bencode_object x h')) = INVALID \<and>
    snd (free_bencode_object (fst (free_bencode_object x h')) h'') = h''"
  using buffer.result [OF assms] by (auto simp: heap_simps free_object_invalid free_object_twice)

theorem parse_then_free_witness:
  "\<exists>x q h'. parse_bencode_buffer (parser_on (bytes_of ''d1:ali1ei2eee'')) fresh_heap = Some (Some x, q, h') \<and>
     live h' = 2 \<and> live (snd (free_bencode_object x h')) = 0"
proof -
  let ?p = "parser_on (bytes_of ''d1:ali1ei2eee'')"
  have wf: "wf_parser ?p" by code_simp
  have "map_option (\<lambda>(r, q, h). (r \<noteq> None, live h)) (parse_bencode_buffer ?p fresh_heap) = Some (True, 2)"
    by code_simp
  then obtain x q h' where run: "parse_bencode_buffer ?p fresh_heap = Some (Some x, q, h')" "live h' = 2"
    by auto
  moreover have "live fresh_heap = 0" by (simp add: fresh_heap_def)
  ultimately show ?thesis using parse_then_free [OF wf run(1)] by auto
qed

text \<open>
  C26: the keys of every dictionary the parser returns are strictly increasing as byte strings,
  so no key occurs twice and a search by key finds at most one entry.
\<close>

theorem parse_dictionary_keys_sorted:
  assumes "wf_parser p" and "parse_bencode_buffer p h = Some (Some x, q, h')"
    and "obj_value x = Dictionary entries cap"
  shows "sorted_wrt (<) (map (\<lambda>e. seg_bytes (entry_key e)) entries)"
proof -
  obtain n where "bencodes (abs_object x) (take n (remaining p))"
    using buffer.result [OF assms(1,2)] by blast
  then have "bencodes (BDict (abs_entries entries)) (take n (remaining p))"
    using assms(3) by (simp add: abs_object_value)
  then show ?thesis
    by (rule bencodes_dictE) (drule entries_sorted, simp add: abs_entries_map comp_def)
qed

theorem parse_dictionary_keys_sorted_witness:
  "\<exists>x q h' entries cap. parse_bencode_buffer (parser_on (bytes_of ''d1:ai1e2:aai2ee'')) fresh_heap =
       Some (Some x, q, h') \<and> obj_value x = Dictionary entries cap \<and>
     sorted_wrt (<) (map (\<lambda>e. seg_bytes (entry_key e)) entries) \<and> length entries = 2"
proof -
  let ?p = "parser_on (bytes_of ''d1:ai1e2:aai2ee'')"
  have wf: "wf_parser ?p" by code_simp
  have "case parse_bencode_buffer ?p fresh_heap of
      Some (Some x, q, h') \<Rightarrow> (case obj_value x of Dictionary es c \<Rightarrow> length es = 2 | _ \<Rightarrow> False)
    | _ \<Rightarrow> False"
    by code_simp
  then obtain x q h' where run: "parse_bencode_buffer ?p fresh_heap = Some (Some x, q, h')"
    and "case obj_value x of Dictionary es c \<Rightarrow> length es = 2 | _ \<Rightarrow> False"
    by (auto split: option.splits)
  then obtain entries cap where dict: "obj_value x = Dictionary entries cap" "length entries = 2"
    by (cases "obj_value x") auto
  show ?thesis using parse_dictionary_keys_sorted [OF wf run dict(1)] run dict by blast
qed

end
