(* ===== verification/Torrent_Metadata.thy ===== *)
theory Torrent_Metadata
  imports Dictionary_Lookup Bencode_Correct
begin

text \<open>
  src/torrent_metadata.c and include/torrent_metadata.h: what main reads from the parsed torrent
  file. An object pointer is an option (\<open>None\<close> is NULL); an output parameter is passed as the
  contents it has, or \<open>None\<close> for NULL, and returned with the contents it is left with.
\<close>

section \<open>Structures\<close>

record bencoded_span =
  span_start :: size_t
  span_length :: size_t

record torrent_info =
  ti_name :: bencode_segment
  ti_length :: int64
  ti_piece_length :: int64
  ti_pieces :: bencode_segment
  ti_info_span :: bencoded_span

record torrent_metadata =
  tm_announce :: bencode_segment
  tm_info :: torrent_info

text \<open>\<open>{0}\<close> and \<open>{.data = NULL, .length = 0}\<close>\<close>

definition empty_segment :: bencode_segment where
  "empty_segment = \<lparr>seg_data = NULL, seg_length = 0\<rparr>"

definition empty_info :: torrent_info where
  "empty_info = \<lparr>ti_name = empty_segment, ti_length = 0, ti_piece_length = 0, ti_pieces = empty_segment,
     ti_info_span = \<lparr>span_start = 0, span_length = 0\<rparr>\<rparr>"

text \<open>Reading a member of the value union.\<close>

definition byte_string :: "bencode_object \<Rightarrow> bencode_segment option" where
  "byte_string x = (case obj_value x of Byte_String s \<Rightarrow> Some s | _ \<Rightarrow> None)"

definition integer :: "bencode_object \<Rightarrow> int64 option" where
  "integer x = (case obj_value x of Integer i \<Rightarrow> Some i | _ \<Rightarrow> None)"

section \<open>Searching a dictionary\<close>

fun find_in_entries :: "bencode_entry list \<Rightarrow> ptr \<Rightarrow> size_t \<Rightarrow> bencode_data_type \<Rightarrow> bencode_object option option" where
  "find_in_entries [] key_name key_length target_type = Some None"
| "find_in_entries (Entry key value # entries) key_name key_length target_type =
     (if seg_length key \<noteq> key_length then find_in_entries entries key_name key_length target_type
      else do {
        a \<leftarrow> read_bytes (seg_data key) (unat (seg_length key));
        b \<leftarrow> read_bytes key_name (unat (seg_length key));
        if memcmp a b \<noteq> 0 then find_in_entries entries key_name key_length target_type
        else if obj_type value \<noteq> target_type then find_in_entries entries key_name key_length target_type
        else Some (Some value)
      })"

definition find_entry_in_dictionary ::
  "bencode_object option \<Rightarrow> ptr \<Rightarrow> size_t \<Rightarrow> bencode_data_type \<Rightarrow> bencode_object option option" where
  "find_entry_in_dictionary root key_name key_length target_type =
     (case root of
        None \<Rightarrow> Some None
      | Some x \<Rightarrow>
          (case obj_value x of
             Dictionary entries _ \<Rightarrow> find_in_entries entries key_name key_length target_type
           | _ \<Rightarrow> Some None))"

lemma find_in_entries_eq:
  assumes "faithful_entries inp entries" "length key < 2 ^ 64"
  shows "find_in_entries entries (literal key) (of_nat (length key)) t =
    Some (map_option entry_value (List.find (entry_matches (bytes_of key) t) entries))"
  using assms(1)
proof (induction entries)
  case (Cons e es)
  obtain k x where e: "e = Entry k x" by (cases e)
  then have k: "valid_segment k" and rest: "faithful_entries inp es" using Cons.prems by auto
  have len: "seg_length k = of_nat (length key) \<longleftrightarrow> length (seg_bytes k) = length key"
    using length_seg_bytes [OF k] assms(2) by (simp add: word_unat_eq_iff unat_of_nat_size)
  show ?case
  proof (cases "length (seg_bytes k) = length key")
    case True
    then have "read_bytes (seg_data k) (unat (seg_length k)) = Some (seg_bytes k)"
      "read_bytes (literal key) (unat (seg_length k)) = Some (bytes_of key)"
      using read_segment [OF k] read_literal [of key] True by (simp_all add: length_seg_bytes [OF k])
    then show ?thesis
      using Cons.IH [OF rest] True len by (simp add: e entry_matches_def [of "bytes_of key" t "Entry k x"])
  next
    case False
    then have "seg_bytes k \<noteq> bytes_of key" by (metis length_bytes_of)
    then show ?thesis
      using Cons.IH [OF rest] False len by (simp add: e entry_matches_def [of "bytes_of key" t "Entry k x"])
  qed
qed simp

interpretation metadata_search: dictionary_search find_entry_in_dictionary
  by unfold_locales
    (auto simp: find_entry_in_dictionary_def obj_type_def find_in_entries_eq split: bencode_value.splits)

section \<open>The fields of a torrent file\<close>

definition torrent_metadata_find_info :: "bencode_object option \<Rightarrow> bencode_object option option" where
  "torrent_metadata_find_info root = find_entry_in_dictionary root (literal ''info'') 4 DICTIONARY"

definition torrent_metadata_find_announce :: "bencode_object option \<Rightarrow> bencode_object option option" where
  "torrent_metadata_find_announce root = find_entry_in_dictionary root (literal ''announce'') 8 BYTE_STRING"

definition torrent_metadata_find_name :: "bencode_object option \<Rightarrow> bencode_object option option" where
  "torrent_metadata_find_name info = find_entry_in_dictionary info (literal ''name'') 4 BYTE_STRING"

definition torrent_metadata_find_length :: "bencode_object option \<Rightarrow> bencode_object option option" where
  "torrent_metadata_find_length info = do {
     obj \<leftarrow> find_entry_in_dictionary info (literal ''length'') 6 INTEGER;
     case obj of
       None \<Rightarrow> Some None
     | Some x \<Rightarrow> do {
         i \<leftarrow> integer x;
         if i <s 0 then Some None else Some (Some x)
       }
   }"

definition torrent_metadata_find_piece_length :: "bencode_object option \<Rightarrow> bencode_object option option" where
  "torrent_metadata_find_piece_length info = do {
     obj \<leftarrow> find_entry_in_dictionary info (literal ''piece length'') 12 INTEGER;
     case obj of
       None \<Rightarrow> Some None
     | Some x \<Rightarrow> do {
         i \<leftarrow> integer x;
         if i \<le>s 0 then Some None else Some (Some x)
       }
   }"

definition torrent_metadata_find_pieces :: "bencode_object option \<Rightarrow> bencode_object option option" where
  "torrent_metadata_find_pieces info = do {
     obj \<leftarrow> find_entry_in_dictionary info (literal ''pieces'') 6 BYTE_STRING;
     case obj of
       None \<Rightarrow> Some None
     | Some x \<Rightarrow> do {
         s \<leftarrow> byte_string x;
         if seg_length s mod 20 \<noteq> 0 then Some None else Some (Some x)
       }
   }"

definition torrent_metadata_extract_info ::
  "bencode_object option \<Rightarrow> torrent_info option \<Rightarrow> (bool \<times> torrent_info option) option" where
  "torrent_metadata_extract_info root out_info =
     (case (root, out_info) of
        (Some x, Some _) \<Rightarrow>
          if obj_type x \<noteq> DICTIONARY then Some (False, out_info)
          else do {
            info_dict \<leftarrow> torrent_metadata_find_info root;
            case info_dict of
              None \<Rightarrow> Some (False, out_info)
            | Some info \<Rightarrow> do {
                name \<leftarrow> torrent_metadata_find_name info_dict;
                len \<leftarrow> torrent_metadata_find_length info_dict;
                piece_length \<leftarrow> torrent_metadata_find_piece_length info_dict;
                pieces \<leftarrow> torrent_metadata_find_pieces info_dict;
                case (name, len, piece_length, pieces) of
                  (Some name, Some len, Some piece_length, Some pieces) \<Rightarrow> do {
                    name \<leftarrow> byte_string name;
                    len \<leftarrow> integer len;
                    piece_length \<leftarrow> integer piece_length;
                    pieces \<leftarrow> byte_string pieces;
                    Some (True, Some \<lparr>ti_name = name, ti_length = len, ti_piece_length = piece_length,
                      ti_pieces = pieces,
                      ti_info_span = \<lparr>span_start = start_offset info, span_length = encoded_length info\<rparr>\<rparr>)
                  }
                | _ \<Rightarrow> Some (False, out_info)
              }
          }
      | _ \<Rightarrow> Some (False, out_info))"

definition torrent_metadata_extract ::
  "bencode_object option \<Rightarrow> torrent_metadata option \<Rightarrow> (bool \<times> torrent_metadata option) option" where
  "torrent_metadata_extract root out_torrent_metadata =
     (case (root, out_torrent_metadata) of
        (Some x, Some _) \<Rightarrow>
          if obj_type x \<noteq> DICTIONARY then Some (False, out_torrent_metadata)
          else do {
            announce \<leftarrow> torrent_metadata_find_announce root;
            case announce of
              None \<Rightarrow> Some (False, out_torrent_metadata)
            | Some announce \<Rightarrow> do {
                (info_extracted, info) \<leftarrow> torrent_metadata_extract_info root (Some empty_info);
                if \<not> info_extracted then Some (False, out_torrent_metadata)
                else do {
                  announce \<leftarrow> byte_string announce;
                  info \<leftarrow> info;
                  Some (True, Some \<lparr>tm_announce = announce, tm_info = info\<rparr>)
                }
              }
          }
      | _ \<Rightarrow> Some (False, out_torrent_metadata))"

section \<open>What the fields mean\<close>

text \<open>The contents of a torrent file, as values: the specification of the extraction.\<close>

record torrent =
  announce_url :: "byte list"
  file_name :: "byte list"
  file_length :: int
  piece_size :: int
  piece_hashes :: "byte list"

definition string_field :: "bvalue \<Rightarrow> string \<Rightarrow> byte list option" where
  "string_field v key = (case field v key BYTE_STRING of Some (BString s) \<Rightarrow> Some s | _ \<Rightarrow> None)"

definition integer_field :: "bvalue \<Rightarrow> string \<Rightarrow> int option" where
  "integer_field v key = (case field v key INTEGER of Some (BInt i) \<Rightarrow> Some i | _ \<Rightarrow> None)"

definition ensure :: "('a \<Rightarrow> bool) \<Rightarrow> 'a \<Rightarrow> 'a option" where
  "ensure P x = (if P x then Some x else None)"

definition torrent_of :: "bvalue \<Rightarrow> torrent option" where
  "torrent_of v = do {
     announce \<leftarrow> string_field v ''announce'';
     info \<leftarrow> field v ''info'' DICTIONARY;
     name \<leftarrow> string_field info ''name'';
     len \<leftarrow> integer_field info ''length'' \<bind> ensure (\<lambda>i. 0 \<le> i);
     psize \<leftarrow> integer_field info ''piece length'' \<bind> ensure (\<lambda>i. 0 < i);
     hashes \<leftarrow> string_field info ''pieces'' \<bind> ensure (\<lambda>s. 20 dvd length s);
     Some \<lparr>announce_url = announce, file_name = name, file_length = len, piece_size = psize, piece_hashes = hashes\<rparr>
   }"

definition abs_torrent :: "torrent_metadata \<Rightarrow> torrent" where
  "abs_torrent m =
     \<lparr>announce_url = seg_bytes (tm_announce m), file_name = seg_bytes (ti_name (tm_info m)),
      file_length = sint (ti_length (tm_info m)), piece_size = sint (ti_piece_length (tm_info m)),
      piece_hashes = seg_bytes (ti_pieces (tm_info m))\<rparr>"

text \<open>The segments the metadata keeps can be read.\<close>

definition readable_metadata :: "torrent_metadata \<Rightarrow> bool" where
  "readable_metadata m \<longleftrightarrow> valid_segment (tm_announce m) \<and> valid_segment (ti_name (tm_info m)) \<and>
     valid_segment (ti_pieces (tm_info m))"

lemma typed_string: "obj_type x = BYTE_STRING \<Longrightarrow> faithful inp x \<Longrightarrow>
  \<exists>s. byte_string x = Some s \<and> valid_segment s \<and> abs_object x = BString (seg_bytes s)"
  by (cases x; cases "obj_value x") (auto simp: obj_type_def byte_string_def)

lemma typed_integer: "obj_type x = INTEGER \<Longrightarrow> \<exists>i. integer x = Some i \<and> abs_object x = BInt (sint i)"
  by (cases x; cases "obj_value x") (auto simp: obj_type_def integer_def)

text \<open>
  A finder returns an object whose string or integer is the field of the abstract dictionary
  that passes the finder's own test, and NULL when there is none.
\<close>

definition finds_string :: "bencode_object option \<Rightarrow> byte list option \<Rightarrow> bool" where
  "finds_string r f \<longleftrightarrow>
     (case r of None \<Rightarrow> f = None
      | Some x \<Rightarrow> \<exists>s. byte_string x = Some s \<and> valid_segment s \<and> f = Some (seg_bytes s))"

definition finds_integer :: "bencode_object option \<Rightarrow> int option \<Rightarrow> bool" where
  "finds_integer r f \<longleftrightarrow>
     (case r of None \<Rightarrow> f = None | Some x \<Rightarrow> \<exists>i. integer x = Some i \<and> f = Some (sint i))"

lemma find_string:
  assumes "faithful inp x" "length key < 2 ^ 64" "n = of_nat (length key)"
  shows "\<exists>r. find_entry_in_dictionary (Some x) (literal key) n BYTE_STRING = Some r \<and>
    finds_string r (string_field (abs_object x) key)"
  using assms(3)
  by (cases rule: metadata_search.search_cases [OF assms(1,2), of BYTE_STRING])
    (auto simp: string_field_def finds_string_def dest: typed_string)

lemma find_integer:
  assumes "faithful inp x" "length key < 2 ^ 64" "n = of_nat (length key)"
  shows "\<exists>r. find_entry_in_dictionary (Some x) (literal key) n INTEGER = Some r \<and>
    finds_integer r (integer_field (abs_object x) key)"
  using assms(3)
  by (cases rule: metadata_search.search_cases [OF assms(1,2), of INTEGER])
    (auto simp: integer_field_def finds_integer_def dest: typed_integer)

lemma find_announce_spec:
  "faithful inp x \<Longrightarrow> \<exists>r. torrent_metadata_find_announce (Some x) = Some r \<and>
    finds_string r (string_field (abs_object x) ''announce'')"
  unfolding torrent_metadata_find_announce_def by (rule find_string) simp_all

lemma find_name_spec:
  "faithful inp x \<Longrightarrow> \<exists>r. torrent_metadata_find_name (Some x) = Some r \<and>
    finds_string r (string_field (abs_object x) ''name'')"
  unfolding torrent_metadata_find_name_def by (rule find_string) simp_all

lemma find_length_spec:
  assumes "faithful inp x"
  shows "\<exists>r. torrent_metadata_find_length (Some x) = Some r \<and>
    finds_integer r (integer_field (abs_object x) ''length'' \<bind> ensure (\<lambda>i. 0 \<le> i))"
proof -
  obtain r where "find_entry_in_dictionary (Some x) (literal ''length'') 6 INTEGER = Some r"
    "finds_integer r (integer_field (abs_object x) ''length'')"
    using find_integer [OF assms, of "''length''" 6] by auto
  then show ?thesis
    by (cases r) (auto simp: torrent_metadata_find_length_def finds_integer_def ensure_def word_sless_alt)
qed

lemma find_piece_length_spec:
  assumes "faithful inp x"
  shows "\<exists>r. torrent_metadata_find_piece_length (Some x) = Some r \<and>
    finds_integer r (integer_field (abs_object x) ''piece length'' \<bind> ensure (\<lambda>i. 0 < i))"
proof -
  obtain r where "find_entry_in_dictionary (Some x) (literal ''piece length'') 12 INTEGER = Some r"
    "finds_integer r (integer_field (abs_object x) ''piece length'')"
    using find_integer [OF assms, of "''piece length''" 12] by auto
  then show ?thesis
    by (cases r) (auto simp: torrent_metadata_find_piece_length_def finds_integer_def ensure_def word_sle_eq)
qed

lemma find_pieces_spec:
  assumes "faithful inp x"
  shows "\<exists>r. torrent_metadata_find_pieces (Some x) = Some r \<and>
    finds_string r (string_field (abs_object x) ''pieces'' \<bind> ensure (\<lambda>s. 20 dvd length s))"
proof -
  obtain r where r: "find_entry_in_dictionary (Some x) (literal ''pieces'') 6 BYTE_STRING = Some r"
    "finds_string r (string_field (abs_object x) ''pieces'')"
    using find_string [OF assms, of "''pieces''" 6] by auto
  have "seg_length s mod 20 = 0 \<longleftrightarrow> 20 dvd length (seg_bytes s)" if "valid_segment s" for s
    using that by (simp add: length_seg_bytes word_unat_eq_iff unat_mod dvd_eq_mod_eq_0)
  then show ?thesis
    using r by (cases r) (auto simp: torrent_metadata_find_pieces_def finds_string_def ensure_def)
qed

section \<open>Extraction refines the specification\<close>

text \<open>The bytes of the file that the extracted span names: what main hashes as the info hash.\<close>

definition info_bytes :: "byte list \<Rightarrow> torrent_metadata \<Rightarrow> byte list" where
  "info_bytes inp m =
     take (unat (span_length (ti_info_span (tm_info m)))) (drop (unat (span_start (ti_info_span (tm_info m)))) inp)"

definition info_in_bounds :: "byte list \<Rightarrow> torrent_metadata \<Rightarrow> bool" where
  "info_in_bounds inp m \<longleftrightarrow>
     unat (span_start (ti_info_span (tm_info m))) + unat (span_length (ti_info_span (tm_info m))) \<le> length inp"

text \<open>\<open>i\<close> agrees with the abstract dictionary \<open>info\<close> under the root.\<close>

definition info_agrees :: "bvalue \<Rightarrow> torrent_info \<Rightarrow> bool" where
  "info_agrees info i \<longleftrightarrow>
     valid_segment (ti_name i) \<and> valid_segment (ti_pieces i) \<and>
     string_field info ''name'' = Some (seg_bytes (ti_name i)) \<and>
     integer_field info ''length'' \<bind> ensure (\<lambda>n. 0 \<le> n) = Some (sint (ti_length i)) \<and>
     integer_field info ''piece length'' \<bind> ensure (\<lambda>n. 0 < n) = Some (sint (ti_piece_length i)) \<and>
     string_field info ''pieces'' \<bind> ensure (\<lambda>s. 20 dvd length s) = Some (seg_bytes (ti_pieces i))"

definition info_complete :: "bvalue \<Rightarrow> bool" where
  "info_complete info \<longleftrightarrow>
     string_field info ''name'' \<noteq> None \<and>
     integer_field info ''length'' \<bind> ensure (\<lambda>n. 0 \<le> n) \<noteq> None \<and>
     integer_field info ''piece length'' \<bind> ensure (\<lambda>n. 0 < n) \<noteq> None \<and>
     string_field info ''pieces'' \<bind> ensure (\<lambda>s. 20 dvd length s) \<noteq> None"

lemma finds_string_cases:
  assumes "finds_string r f"
  obtains "r = None" "f = None" | x s where "r = Some x" "byte_string x = Some s" "valid_segment s" "f = Some (seg_bytes s)"
  using assms by (cases r) (auto simp: finds_string_def)

lemma finds_integer_cases:
  assumes "finds_integer r f"
  obtains "r = None" "f = None" | x i where "r = Some x" "integer x = Some i" "f = Some (sint i)"
  using assms by (cases r) (auto simp: finds_integer_def)

lemma length_info: "length ''info'' < 2 ^ 64"
  by simp

lemma extract_info_spec:
  assumes "faithful inp x" "obj_type x = DICTIONARY"
  shows "torrent_metadata_extract_info (Some x) (Some old) = Some (False, Some old) \<and>
      (case field (abs_object x) ''info'' DICTIONARY of None \<Rightarrow> True | Some info \<Rightarrow> \<not> info_complete info)
    \<or> (\<exists>i y. torrent_metadata_extract_info (Some x) (Some old) = Some (True, Some i) \<and>
        field (abs_object x) ''info'' DICTIONARY = Some (abs_object y) \<and> info_agrees (abs_object y) i \<and>
        faithful inp y \<and>
        ti_info_span i = \<lparr>span_start = start_offset y, span_length = encoded_length y\<rparr>)"
proof (cases rule: metadata_search.search_cases [OF assms(1) length_info, of DICTIONARY])
  case 1
  then show ?thesis
    using assms(2) by (simp add: torrent_metadata_extract_info_def torrent_metadata_find_info_def)
next
  case (2 y)
  note found = 2 [simplified]
  obtain n l p h where finders:
    "torrent_metadata_find_name (Some y) = Some n" "finds_string n (string_field (abs_object y) ''name'')"
    "torrent_metadata_find_length (Some y) = Some l"
    "finds_integer l (integer_field (abs_object y) ''length'' \<bind> ensure (\<lambda>n. 0 \<le> n))"
    "torrent_metadata_find_piece_length (Some y) = Some p"
    "finds_integer p (integer_field (abs_object y) ''piece length'' \<bind> ensure (\<lambda>n. 0 < n))"
    "torrent_metadata_find_pieces (Some y) = Some h"
    "finds_string h (string_field (abs_object y) ''pieces'' \<bind> ensure (\<lambda>s. 20 dvd length s))"
    using find_name_spec [OF found(3)] find_length_spec [OF found(3)]
      find_piece_length_spec [OF found(3)] find_pieces_spec [OF found(3)] by metis
  note code = torrent_metadata_extract_info_def torrent_metadata_find_info_def assms(2) found finders
  show ?thesis
    by (rule finds_string_cases [OF finders(2)]; rule finds_integer_cases [OF finders(4)];
        rule finds_integer_cases [OF finders(6)]; rule finds_string_cases [OF finders(8)])
      (simp_all add: code info_complete_def info_agrees_def, rule exI [of _ y], simp add: found)
qed

lemma torrent_of_info:
  assumes "string_field v ''announce'' = Some (seg_bytes a)" "field v ''info'' DICTIONARY = Some info"
    and "info_agrees info i"
  shows "torrent_of v = Some (abs_torrent \<lparr>tm_announce = a, tm_info = i\<rparr>)"
  using assms by (simp add: torrent_of_def info_agrees_def abs_torrent_def del: Option.bind_assoc)

lemma torrent_of_None:
  assumes "case field v ''info'' DICTIONARY of None \<Rightarrow> True | Some info \<Rightarrow> \<not> info_complete info"
  shows "torrent_of v = None"
  using assms by (auto simp: torrent_of_def info_complete_def bind_eq_None_conv simp del: Option.bind_assoc
      split: option.splits)

lemma field_other: "bvalue_type v \<noteq> DICTIONARY \<Longrightarrow> field v k t = None"
  by (simp add: field_def bvalue_type_def split: bvalue.splits)

lemma extract_spec:
  assumes x: "faithful inp x"
  shows "torrent_metadata_extract (Some x) (Some old) = Some (False, Some old) \<and> torrent_of (abs_object x) = None
    \<or> (\<exists>m info. torrent_metadata_extract (Some x) (Some old) = Some (True, Some m) \<and>
        torrent_of (abs_object x) = Some (abs_torrent m) \<and> readable_metadata m \<and>
        field (abs_object x) ''info'' DICTIONARY = Some info \<and>
        info_in_bounds inp m \<and> bencodes info (info_bytes inp m))"
proof (cases "obj_type x = DICTIONARY")
  case False
  then have "torrent_of (abs_object x) = None"
    by (intro torrent_of_None) (simp add: field_other)
  then show ?thesis using False by (simp add: torrent_metadata_extract_def)
next
  case dict: True
  obtain r where find: "torrent_metadata_find_announce (Some x) = Some r"
    and r: "finds_string r (string_field (abs_object x) ''announce'')"
    using find_announce_spec [OF x] by blast
  show ?thesis
  proof (cases rule: finds_string_cases [OF r])
    case 1
    then show ?thesis using dict find by (simp add: torrent_metadata_extract_def torrent_of_def)
  next
    case (2 obj s)
    show ?thesis
      using extract_info_spec [OF x dict, of empty_info]
    proof (elim disjE exE conjE)
      assume "case field (abs_object x) ''info'' DICTIONARY of None \<Rightarrow> True | Some info \<Rightarrow> \<not> info_complete info"
        "torrent_metadata_extract_info (Some x) (Some empty_info) = Some (False, Some empty_info)"
      then show ?thesis using dict find 2 by (simp add: torrent_metadata_extract_def torrent_of_None)
    next
      fix i y
      assume i: "torrent_metadata_extract_info (Some x) (Some empty_info) = Some (True, Some i)"
        and y: "field (abs_object x) ''info'' DICTIONARY = Some (abs_object y)"
        and agrees: "info_agrees (abs_object y) i" and "faithful inp y"
        and span: "ti_info_span i = \<lparr>span_start = start_offset y, span_length = encoded_length y\<rparr>"
      let ?m = "\<lparr>tm_announce = s, tm_info = i\<rparr>"
      have "torrent_metadata_extract (Some x) (Some old) = Some (True, Some ?m)"
        using dict find 2 i by (simp add: torrent_metadata_extract_def)
      moreover have "torrent_of (abs_object x) = Some (abs_torrent ?m)"
        by (rule torrent_of_info [OF _ y agrees]) (use 2 in simp)
      moreover have "readable_metadata ?m" using agrees 2 by (simp add: readable_metadata_def info_agrees_def)
      moreover have "info_in_bounds inp ?m" "bencodes (abs_object y) (info_bytes inp ?m)"
        using \<open>faithful inp y\<close> by (cases y, simp add: info_in_bounds_def info_bytes_def span)+
      ultimately show ?thesis using y by blast
    qed
  qed
qed

text \<open>What the extraction guarantees to the download: the quantities it computes with.\<close>

lemma extracted_bounds:
  assumes "faithful inp x" and "torrent_metadata_extract (Some x) (Some old) = Some (True, Some m)"
  shows "0 \<le> sint (ti_length (tm_info m))" "0 < sint (ti_piece_length (tm_info m))"
    "20 dvd unat (seg_length (ti_pieces (tm_info m)))" "readable_metadata m"
proof -
  have t: "torrent_of (abs_object x) = Some (abs_torrent m)" and r: "readable_metadata m"
    using extract_spec [OF assms(1), of old] assms(2) by auto
  show "readable_metadata m" by (rule r)
  show "0 \<le> sint (ti_length (tm_info m))" "0 < sint (ti_piece_length (tm_info m))"
    "20 dvd unat (seg_length (ti_pieces (tm_info m)))"
    using t r
    by (auto simp: torrent_of_def ensure_def abs_torrent_def readable_metadata_def
        length_seg_bytes [symmetric] bind_eq_Some_conv split: if_splits)
qed

definition sample_torrent :: "byte list" where
  "sample_torrent = bytes_of
     ''d8:announce3:url4:infod6:lengthi3e4:name1:f12:piece lengthi4e6:pieces20:01234567890123456789ee''"

definition blank_metadata :: torrent_metadata where
  "blank_metadata = \<lparr>tm_announce = empty_segment, tm_info = empty_info\<rparr>"

definition sample_root :: bencode_object where
  "sample_root =
     (case parse_bencode_buffer (parser_on sample_torrent) fresh_heap of
        Some (Some x, _) \<Rightarrow> x | _ \<Rightarrow> Object No_Value 0 0)"

lemma sample_wf: "wf_parser (parser_on sample_torrent)"
  by code_simp

lemma sample_parse:
  "\<exists>q h. parse_bencode_buffer (parser_on sample_torrent) fresh_heap = Some (Some sample_root, q, h)"
proof -
  have "case parse_bencode_buffer (parser_on sample_torrent) fresh_heap of Some (Some x, _) \<Rightarrow> True | _ \<Rightarrow> False"
    by code_simp
  then show ?thesis by (auto simp: sample_root_def split: option.splits)
qed

lemma sample_extract:
  "\<exists>m. torrent_metadata_extract (Some sample_root) (Some blank_metadata) = Some (True, Some m)"
proof -
  have "case torrent_metadata_extract (Some sample_root) (Some blank_metadata) of
      Some (True, Some m) \<Rightarrow> True | _ \<Rightarrow> False"
    by code_simp
  then show ?thesis by (auto split: option.splits prod.splits bool.splits)
qed

text \<open>
  C14: on every object the parser can return, \<open>torrent_metadata_extract\<close> has a defined result and
  agrees with the specification of a torrent's contents: it succeeds exactly when the announce
  URL, the name, a length of at least 0, a positive piece length and a pieces string made of
  20-byte hashes are all there, it returns exactly those fields, and on failure the output
  structure keeps its contents.
\<close>

theorem metadata_extract_refines:
  assumes "wf_parser p" and "parse_bencode_buffer p h = Some (Some root, q, h')"
  shows "\<exists>ok m. torrent_metadata_extract (Some root) (Some old) = Some (ok, Some m) \<and>
    (if ok then torrent_of (abs_object root) = Some (abs_torrent m)
     else torrent_of (abs_object root) = None \<and> m = old)"
  using parse_success_faithful [OF assms] extract_spec [of "input p" root old] by auto

theorem metadata_extract_refines_witness:
  "torrent_of (abs_object sample_root) =
     Some \<lparr>announce_url = bytes_of ''url'', file_name = bytes_of ''f'', file_length = 3, piece_size = 4,
       piece_hashes = bytes_of ''01234567890123456789''\<rparr> \<and>
   (\<exists>m. torrent_metadata_extract (Some sample_root) (Some blank_metadata) = Some (True, Some m) \<and>
     torrent_of (abs_object sample_root) = Some (abs_torrent m))"
proof -
  obtain q h where run: "parse_bencode_buffer (parser_on sample_torrent) fresh_heap = Some (Some sample_root, q, h)"
    using sample_parse by blast
  have "torrent_of (abs_object sample_root) =
     Some \<lparr>announce_url = bytes_of ''url'', file_name = bytes_of ''f'', file_length = 3, piece_size = 4,
       piece_hashes = bytes_of ''01234567890123456789''\<rparr>"
    by code_simp
  then show ?thesis
    using metadata_extract_refines [OF sample_wf run, of blank_metadata] by (auto split: if_splits)
qed

text \<open>
  C27: the span that \<open>torrent_metadata_extract\<close> records for the info dictionary lies inside the
  buffer that was parsed, and its bytes are an encoding of the info dictionary the other fields
  were read from: the two range checks main makes before hashing the span never fail.
\<close>

theorem info_span_exact:
  assumes "wf_parser p" and "parse_bencode_buffer p h = Some (Some root, q, h')"
    and "torrent_metadata_extract (Some root) (Some old) = Some (True, Some m)"
  shows "info_in_bounds (input p) m \<and>
    (\<exists>info. field (abs_object root) ''info'' DICTIONARY = Some info \<and> bencodes info (info_bytes (input p) m))"
  using parse_success_faithful [OF assms(1,2)] extract_spec [of "input p" root old] assms(3) by auto

theorem info_span_exact_witness:
  "\<exists>m. torrent_metadata_extract (Some sample_root) (Some blank_metadata) = Some (True, Some m) \<and>
     info_in_bounds sample_torrent m"
proof -
  obtain q h where run: "parse_bencode_buffer (parser_on sample_torrent) fresh_heap = Some (Some sample_root, q, h)"
    using sample_parse by blast
  obtain m where m: "torrent_metadata_extract (Some sample_root) (Some blank_metadata) = Some (True, Some m)"
    using sample_extract by blast
  have "input (parser_on sample_torrent) = sample_torrent" by code_simp
  then show ?thesis using info_span_exact [OF sample_wf run m] m by auto
qed

end
