(* ===== verification/Tracker_Response.thy ===== *)
theory Tracker_Response
  imports Byte_Order Torrent_Metadata
begin

text \<open>
  The half of src/tracker.c that reads a tracker's response: \<open>tracker_response_parse\<close>,
  \<open>find_interval\<close>, \<open>find_peers\<close>, and the two forms of a peer list, compact
  (\<open>peers_extract_compact\<close>, \<open>parse_peer_from_segment\<close>) and a list of dictionaries
  (\<open>peers_extract_list\<close>). \<open>inet_pton\<close> is the system's: it is an argument of the model that
  takes the characters before the terminating NUL and returns the four bytes of an address.
\<close>

section \<open>Structures\<close>

type_synonym ipv4 = "byte \<times> byte \<times> byte \<times> byte"

record peer =
  ipv4_address :: ipv4
  peer_port :: uint16

definition zero_peer :: peer where
  "zero_peer = \<lparr>ipv4_address = (0, 0, 0, 0), peer_port = 0\<rparr>"

text \<open>
  What \<open>out_peers\<close> and \<open>out_peer_count\<close> are left with: the array (\<open>None\<close> is NULL, otherwise
  its initialised elements) and the count.
\<close>

record peer_array =
  pa_peers :: "peer list option"
  pa_count :: size_t

abbreviation sizeof_peer :: size_t where "sizeof_peer \<equiv> 6"
abbreviation PEER_SEGMENT_LENGTH :: size_t where "PEER_SEGMENT_LENGTH \<equiv> 6"
abbreviation INET_ADDRSTRLEN :: size_t where "INET_ADDRSTRLEN \<equiv> 16"

section \<open>Compact peer lists\<close>

definition is_valid_peers_ipv4_list :: "bencode_segment option \<Rightarrow> bool" where
  "is_valid_peers_ipv4_list peers_segment =
     (case peers_segment of
        None \<Rightarrow> False
      | Some s \<Rightarrow>
          if seg_length s mod PEER_SEGMENT_LENGTH \<noteq> 0 then False
          else if seg_length s > 0 \<and> seg_data s = NULL then False
          else True)"

definition parse_peer_from_segment :: "bencode_segment option \<Rightarrow> peer option \<Rightarrow> (bool \<times> peer option) option" where
  "parse_peer_from_segment peer_segment out_peer =
     (case (peer_segment, out_peer) of
        (Some s, Some _) \<Rightarrow>
          if seg_data s = NULL \<or> seg_length s \<noteq> PEER_SEGMENT_LENGTH then Some (False, out_peer)
          else do {
            ip \<leftarrow> read_bytes (seg_data s) 4;
            high \<leftarrow> deref (seg_data s) 4;
            low \<leftarrow> deref (seg_data s) 5;
            Some (True, Some \<lparr>ipv4_address = (ip ! 0, ip ! 1, ip ! 2, ip ! 3), peer_port = uint16_of high low\<rparr>)
          }
      | _ \<Rightarrow> Some (False, out_peer))"

text \<open>The loop over the segments; \<open>n\<close> rounds are left and \<open>i\<close> peers are stored.\<close>

primrec compact_loop :: "ptr \<Rightarrow> nat \<Rightarrow> size_t \<Rightarrow> peer list \<Rightarrow> (bool \<times> peer list) option" where
  "compact_loop data 0 i peers = Some (True, peers)"
| "compact_loop data (Suc n) i peers = do {
     let offset = i * PEER_SEGMENT_LENGTH;
     segment_data \<leftarrow> ptr_add data (unat offset);
     (parsed_peer, current_peer) \<leftarrow>
       parse_peer_from_segment (Some \<lparr>seg_data = segment_data, seg_length = PEER_SEGMENT_LENGTH\<rparr>) (Some zero_peer);
     if \<not> parsed_peer then Some (False, peers)
     else do {
       current_peer \<leftarrow> current_peer;
       compact_loop data n (i + 1) (peers @ [current_peer])
     }
   }"

definition peers_extract_compact ::
  "bencode_segment option \<Rightarrow> peer_array option \<Rightarrow> heap \<Rightarrow> (bool \<times> peer_array option \<times> heap) option" where
  "peers_extract_compact peers_segment out_peers h =
     (case (peers_segment, out_peers) of
        (Some s, Some _) \<Rightarrow>
          if \<not> is_valid_peers_ipv4_list peers_segment then Some (False, out_peers, h)
          else
            let peer_count = seg_length s div PEER_SEGMENT_LENGTH in
            if peer_count = 0 then Some (True, Some \<lparr>pa_peers = None, pa_count = 0\<rparr>, h)
            else if peer_count > SIZE_MAX div sizeof_peer then Some (False, out_peers, h)
            else (case malloc h of
                (False, h) \<Rightarrow> Some (False, out_peers, h)
              | (True, h) \<Rightarrow> do {
                  (ok, peers) \<leftarrow> compact_loop (seg_data s) (unat peer_count) 0 [];
                  if \<not> ok then Some (False, out_peers, free False h)
                  else Some (True, Some \<lparr>pa_peers = Some peers, pa_count = peer_count\<rparr>, h)
                })
      | _ \<Rightarrow> Some (False, out_peers, h))"

text \<open>The six bytes of a peer on the wire.\<close>

fun peer_bytes :: "peer \<Rightarrow> byte list" where
  "peer_bytes \<lparr>ipv4_address = (a, b, c, d), peer_port = port\<rparr> = [a, b, c, d] @ uint16_bytes port"

definition read_peer :: "byte list \<Rightarrow> peer" where
  "read_peer bs = \<lparr>ipv4_address = (bs ! 0, bs ! 1, bs ! 2, bs ! 3), peer_port = uint16_of (bs ! 4) (bs ! 5)\<rparr>"

interpretation peer6: record_codec peer_bytes read_peer 6
proof unfold_locales
  show "length (peer_bytes p) = 6" for p
    by (cases p rule: peer_bytes.cases) (simp add: be16.length_encode)
  show "read_peer (peer_bytes p) = p" for p
    by (cases p rule: peer_bytes.cases) (simp add: read_peer_def uint16_bytes_def uint16_of_bytes)
  show "peer_bytes (read_peer bs) = bs" if len: "length bs = 6" for bs
  proof -
    from len obtain a b c d h l where "bs = [a, b, c, d, h, l]"
      by (auto simp: length_Suc_conv numeral_eq_Suc)
    then show ?thesis by (simp add: read_peer_def bytes_of_uint16_of)
  qed
qed simp

lemma parse_peer_eq:
  assumes "read_bytes p 6 = Some bs"
  shows "parse_peer_from_segment (Some \<lparr>seg_data = p, seg_length = 6\<rparr>) (Some z) = Some (True, Some (read_peer bs))"
proof -
  obtain b k where p: "p = Ptr b k" "k + 6 \<le> length b" "bs = take 6 (drop k b)"
    using assms by (cases p) (auto split: if_splits)
  then show ?thesis
    by (simp add: parse_peer_from_segment_def read_peer_def add.commute)
qed

lemma compact_loop_eq:
  assumes "k + 6 * (i + n) \<le> length b" "6 * (i + n) < 2 ^ 64"
  shows "compact_loop (Ptr b k) n (of_nat i) peers =
    Some (True, peers @ map read_peer (chunks 6 (take (6 * n) (drop (k + 6 * i) b))))"
  using assms
proof (induction n arbitrary: i peers)
  case (Suc n)
  have off: "unat (of_nat i * 6 :: size_t) = 6 * i"
    using Suc.prems by (simp add: unat_times_bounded unat_of_nat_size)
  let ?c = "take 6 (drop (k + 6 * i) b)"
  have "take (6 * Suc n) (drop (k + 6 * i) b) = ?c @ take (6 * n) (drop (k + 6 * Suc i) b)"
    by (simp add: take_add add.commute add.left_commute)
  then have cut: "chunks 6 (take (6 * Suc n) (drop (k + 6 * i) b)) =
      ?c # chunks 6 (take (6 * n) (drop (k + 6 * Suc i) b))"
    using Suc.prems by (simp add: chunks_step)
  have "read_bytes (Ptr b (k + 6 * i)) 6 = Some ?c" using Suc.prems by simp
  then have "parse_peer_from_segment (Some \<lparr>seg_data = Ptr b (k + 6 * i), seg_length = 6\<rparr>) (Some zero_peer) =
      Some (True, Some (read_peer ?c))"
    by (rule parse_peer_eq)
  then show ?case
    using Suc.IH [of "Suc i" "peers @ [read_peer ?c]"] Suc.prems
    unfolding cut by (simp add: off Let_def add.commute)
qed simp

lemma unat_size_div6: "unat (n :: size_t) div 6 \<le> 3074457345618258602"
  using div_le_mono [of "unat n" 18446744073709551615 6] unat_size_lt [of n] by simp

text \<open>
  A compact list with a whole number of entries is decoded entry by entry; with no entry
  nothing is allocated.
\<close>

lemma peers_extract_compact_run:
  assumes "valid_segment s" and "6 dvd unat (seg_length s)"
  shows "peers_extract_compact (Some s) (Some out) h =
    (if seg_bytes s = [] then Some (True, Some \<lparr>pa_peers = None, pa_count = 0\<rparr>, h)
     else
       let (g, h') = malloc h in
       if g then Some (True, Some \<lparr>pa_peers = Some (map read_peer (chunks 6 (seg_bytes s))),
         pa_count = of_nat (length (seg_bytes s) div 6)\<rparr>, h')
       else Some (False, Some out, h'))"
proof -
  obtain b k where b: "seg_data s = Ptr b k" "k + unat (seg_length s) \<le> length b"
    using assms(1) by (cases "seg_data s") (auto simp: valid_segment_def)
  obtain c where c: "unat (seg_length s) = 6 * c" using assms(2) by (auto elim: dvdE)
  then have c_less: "6 * c < 2 ^ 64" using unat_size_lt [of "seg_length s"] by simp
  have count: "unat (seg_length s div 6) = c" by (simp add: unat_div c)
  have bytes: "seg_bytes s = take (6 * c) (drop k b)" using b c by (simp add: seg_bytes_def)
  have valid: "is_valid_peers_ipv4_list (Some s)"
    using b c by (simp add: is_valid_peers_ipv4_list_def word_unat_eq_iff unat_mod)
  have fits: "\<not> seg_length s div 6 > SIZE_MAX div 6"
    by (simp add: not_less word_le_nat_alt unat_div unat_size_div6)
  obtain g h' where m: "malloc h = (g, h')" by fastforce
  show ?thesis
  proof (cases "c = 0")
    case True
    then have "seg_length s div 6 = 0" using count by (simp add: unat_eq_0)
    then show ?thesis using True bytes valid by (simp add: peers_extract_compact_def)
  next
    case False
    then have nonzero: "seg_length s div 6 \<noteq> 0" using count by (metis unat_0)
    have "length (seg_bytes s) = 6 * c" using bytes b c by simp
    then have ne: "seg_bytes s \<noteq> []" "of_nat (length (seg_bytes s) div 6) = seg_length s div 6"
      using False count by (auto simp: word_unat_eq_iff unat_of_nat_size)
    have "compact_loop (seg_data s) c 0 [] = Some (True, map read_peer (chunks 6 (seg_bytes s)))"
      using compact_loop_eq [of k 0 c b "[]"] b c c_less by (simp add: bytes)
    then show ?thesis
      using nonzero valid fits m ne
      by (simp add: peers_extract_compact_def Let_def count)
  qed
qed

lemma peers_extract_compact_eq:
  assumes "valid_segment s" and "plentiful h" and "6 dvd unat (seg_length s)"
  shows "\<exists>h'. peers_extract_compact (Some s) (Some out) h =
    Some (True, Some \<lparr>pa_peers = if seg_bytes s = [] then None else Some (map read_peer (chunks 6 (seg_bytes s))),
      pa_count = of_nat (length (seg_bytes s) div 6)\<rparr>, h') \<and>
    live h' = live h + (if seg_bytes s = [] then 0 else 1)"
  using peers_extract_compact_run [OF assms(1,3), of out h] plentiful_malloc [OF assms(2)]
  by (cases "seg_bytes s = []") (auto simp: live_malloc)

lemma peers_extract_compact_refused:
  "\<not> 6 dvd unat (seg_length s) \<Longrightarrow> peers_extract_compact (Some s) (Some out) h = Some (False, Some out, h)"
  by (simp add: peers_extract_compact_def is_valid_peers_ipv4_list_def word_unat_eq_iff unat_mod dvd_eq_mod_eq_0)

section \<open>Peer lists as dictionaries\<close>

text \<open>The characters of a C string: up to its NUL byte.\<close>

definition c_string :: "byte list \<Rightarrow> byte list" where
  "c_string bs = takeWhile (\<lambda>b. b \<noteq> 0) bs"

definition ip_key :: ptr where "ip_key = literal ''ip''"
definition port_key :: ptr where "port_key = literal ''port''"
definition interval_key :: ptr where "interval_key = literal ''interval''"
definition peers_key :: ptr where "peers_key = literal ''peers''"

text \<open>
  The body of the loop over an item's entries: each test returns whether the body ends with
  \<open>continue\<close>, and the address or port found so far; \<open>None\<close> is the flag \<open>ip_found = false\<close>.
\<close>

definition key_is :: "bencode_segment \<Rightarrow> ptr \<Rightarrow> nat \<Rightarrow> bool option" where
  "key_is key name n =
     (if seg_length key = of_nat n then do {
        a \<leftarrow> read_bytes (seg_data key) n;
        b \<leftarrow> read_bytes name n;
        Some (memcmp a b = 0)
      }
      else Some False)"

definition ip_entry ::
  "(byte list \<Rightarrow> ipv4 option) \<Rightarrow> bencode_segment \<Rightarrow> bencode_object \<Rightarrow> ipv4 option \<Rightarrow> (bool \<times> ipv4 option) option" where
  "ip_entry inet_pton key value ip = do {
     is_ip_key \<leftarrow> key_is key ip_key 2;
     if \<not> is_ip_key then Some (False, ip)
     else if obj_type value \<noteq> BYTE_STRING then Some (True, ip)
     else do {
       s \<leftarrow> byte_string value;
       if seg_length s \<ge> INET_ADDRSTRLEN then Some (True, ip)
       else do {
         text \<leftarrow> read_bytes (seg_data s) (unat (seg_length s));
         case inet_pton (c_string (text @ [0])) of
           None \<Rightarrow> Some (True, ip)
         | Some address \<Rightarrow> Some (False, Some address)
       }
     }
   }"

definition port_entry ::
  "bencode_segment \<Rightarrow> bencode_object \<Rightarrow> uint16 option \<Rightarrow> uint16 option option" where
  "port_entry key value port = do {
     is_port_key \<leftarrow> key_is key port_key 4;
     if \<not> is_port_key then Some port
     else if obj_type value \<noteq> INTEGER then Some port
     else do {
       i \<leftarrow> integer value;
       if 0 \<le>s i \<and> i \<le>s 65535 then Some (Some (ucast i)) else Some port
     }
   }"

fun item_loop :: "(byte list \<Rightarrow> ipv4 option) \<Rightarrow> bencode_entry list \<Rightarrow> ipv4 option \<Rightarrow> uint16 option \<Rightarrow>
    (ipv4 option \<times> uint16 option) option" where
  "item_loop inet_pton [] ip port = Some (ip, port)"
| "item_loop inet_pton (Entry key value # entries) ip port = do {
     (continue, ip) \<leftarrow> ip_entry inet_pton key value ip;
     if continue then item_loop inet_pton entries ip port
     else do {
       port \<leftarrow> port_entry key value port;
       item_loop inet_pton entries ip port
     }
   }"

text \<open>
  The loop over the items; a peer is stored at index \<open>peers_added_count\<close> of an array of
  \<open>capacity\<close> elements.
\<close>

fun items_loop :: "(byte list \<Rightarrow> ipv4 option) \<Rightarrow> nat \<Rightarrow> bencode_object list \<Rightarrow> peer list \<Rightarrow> peer list option" where
  "items_loop inet_pton capacity [] peers = Some peers"
| "items_loop inet_pton capacity (item # items) peers =
     (case obj_value item of
        Dictionary entries _ \<Rightarrow> do {
          found \<leftarrow> item_loop inet_pton entries None None;
          case found of
            (Some ip, Some port) \<Rightarrow>
              if length peers < capacity
              then items_loop inet_pton capacity items (peers @ [\<lparr>ipv4_address = ip, peer_port = port\<rparr>])
              else None
          | _ \<Rightarrow> items_loop inet_pton capacity items peers
        }
      | _ \<Rightarrow> items_loop inet_pton capacity items peers)"

definition peers_extract_list ::
  "(byte list \<Rightarrow> ipv4 option) \<Rightarrow> bencode_object list option \<Rightarrow> peer_array option \<Rightarrow> heap \<Rightarrow>
   (bool \<times> peer_array option \<times> heap) option" where
  "peers_extract_list inet_pton list_entry out_peers h =
     (case (list_entry, out_peers) of
        (Some items, Some _) \<Rightarrow>
          let peer_count = of_nat (length items) in
          if peer_count > SIZE_MAX div sizeof_peer then Some (False, out_peers, h)
          else if peer_count = 0 then Some (True, Some \<lparr>pa_peers = None, pa_count = 0\<rparr>, h)
          else (case malloc h of
              (False, h) \<Rightarrow> Some (False, out_peers, h)
            | (True, h) \<Rightarrow> do {
                peers \<leftarrow> items_loop inet_pton (unat peer_count) items [];
                Some (True, Some \<lparr>pa_peers = Some peers, pa_count = of_nat (length peers)\<rparr>, h)
              })
      | _ \<Rightarrow> Some (False, out_peers, h))"

text \<open>What one item of the list contributes, as a function of its value.\<close>

definition ip_value :: "(byte list \<Rightarrow> ipv4 option) \<Rightarrow> bvalue option \<Rightarrow> ipv4 option" where
  "ip_value inet_pton v =
     (case v of Some (BString s) \<Rightarrow> if length s < 16 then inet_pton (c_string s) else None | _ \<Rightarrow> None)"

definition port_value :: "bvalue option \<Rightarrow> uint16 option" where
  "port_value v =
     (case v of Some (BInt i) \<Rightarrow> if 0 \<le> i \<and> i \<le> 65535 then Some (of_int i) else None | _ \<Rightarrow> None)"

definition peer_of_value :: "(byte list \<Rightarrow> ipv4 option) \<Rightarrow> bvalue \<Rightarrow> peer option" where
  "peer_of_value inet_pton v =
     (case v of
        BDict es \<Rightarrow> do {
          ip \<leftarrow> ip_value inet_pton (map_of es (bytes_of ''ip''));
          port \<leftarrow> port_value (map_of es (bytes_of ''port''));
          Some \<lparr>ipv4_address = ip, peer_port = port\<rparr>
        }
      | _ \<Rightarrow> None)"

lemma key_is_eq:
  assumes "valid_segment k" "length s < 2 ^ 64" "n = length s"
  shows "key_is k (literal s) n = Some (seg_bytes k = bytes_of s)"
proof (cases "length (seg_bytes k) = length s")
  case True
  then have "unat (seg_length k) = length s" using assms by (simp add: length_seg_bytes)
  then have "seg_length k = of_nat (length s)" "read_bytes (seg_data k) (length s) = Some (seg_bytes k)"
    using read_segment [OF assms(1)] assms(2) by (simp_all add: word_unat_eq_iff unat_of_nat_size)
  then show ?thesis using True assms(3) by (simp add: key_is_def read_literal)
next
  case False
  then have "seg_bytes k \<noteq> bytes_of s" by (metis length_bytes_of)
  have "unat (seg_length k) \<noteq> length s" using False assms by (simp add: length_seg_bytes)
  then have "seg_length k \<noteq> of_nat (length s)" using assms(2) by (auto simp: unat_of_nat_size)
  then show ?thesis using \<open>seg_bytes k \<noteq> bytes_of s\<close> assms(3) by (simp add: key_is_def)
qed

lemma key_is_ip: "valid_segment k \<Longrightarrow> key_is k ip_key 2 = Some (seg_bytes k = bytes_of ''ip'')"
  unfolding ip_key_def by (erule key_is_eq) simp_all

lemma key_is_port: "valid_segment k \<Longrightarrow> key_is k port_key 4 = Some (seg_bytes k = bytes_of ''port'')"
  unfolding port_key_def by (erule key_is_eq) simp_all

lemma c_string_terminated [simp]: "c_string (s @ [0]) = c_string s"
  unfolding c_string_def by (induction s) auto

lemma ip_entry_eq:
  assumes "valid_segment k" "faithful inp x"
  shows "\<exists>c. ip_entry inet_pton k x ip =
      Some (c, if seg_bytes k = bytes_of ''ip'' \<and> ip_value inet_pton (Some (abs_object x)) \<noteq> None
               then ip_value inet_pton (Some (abs_object x)) else ip) \<and>
    (seg_bytes k \<noteq> bytes_of ''ip'' \<longrightarrow> \<not> c)"
proof -
  have key: "key_is k ip_key 2 = Some (seg_bytes k = bytes_of ''ip'')"
    by (rule key_is_ip [OF assms(1)])
  show ?thesis
  proof (cases "seg_bytes k = bytes_of ''ip'' \<and> obj_type x = BYTE_STRING")
    case True
    then obtain s where s: "byte_string x = Some s" "valid_segment s" "abs_object x = BString (seg_bytes s)"
      using typed_string assms(2) by blast
    have "seg_length s \<ge> 16 \<longleftrightarrow> \<not> length (seg_bytes s) < 16"
      using s by (simp add: word_le_nat_alt length_seg_bytes not_less)
    then show ?thesis
      using key True s by (auto simp: ip_entry_def read_segment ip_value_def split: option.splits)
  next
    case False
    then have "seg_bytes k = bytes_of ''ip'' \<Longrightarrow> ip_value inet_pton (Some (abs_object x)) = None"
      by (cases "obj_value x") (auto simp: ip_value_def abs_object_value obj_type_def)
    then show ?thesis using key False by (auto simp: ip_entry_def)
  qed
qed

lemma port_entry_eq:
  assumes "valid_segment k"
  shows "port_entry k x port =
    Some (if seg_bytes k = bytes_of ''port'' \<and> port_value (Some (abs_object x)) \<noteq> None
          then port_value (Some (abs_object x)) else port)"
proof -
  have key: "key_is k port_key 4 = Some (seg_bytes k = bytes_of ''port'')"
    by (rule key_is_port [OF assms(1)])
  show ?thesis
  proof (cases "seg_bytes k = bytes_of ''port'' \<and> obj_type x = INTEGER")
    case True
    then obtain i where i: "integer x = Some i" "abs_object x = BInt (sint i)"
      using typed_integer by blast
    have "0 \<le>s i \<and> i \<le>s 65535 \<longleftrightarrow> 0 \<le> sint i \<and> sint i \<le> 65535" by (simp add: word_sle_eq)
    moreover have "ucast i = (of_int (sint i) :: uint16)"
      by (rule bit_word_eqI) (auto simp: bit_simps bit_word_of_int_iff)
    ultimately show ?thesis using key True i by (auto simp: port_entry_def port_value_def)
  next
    case False
    then have "seg_bytes k = bytes_of ''port'' \<Longrightarrow> port_value (Some (abs_object x)) = None"
      by (cases "obj_value x") (auto simp: port_value_def abs_object_value obj_type_def)
    then show ?thesis using key False by (auto simp: port_entry_def)
  qed
qed

text \<open>The keys of a dictionary are distinct, so the loop finds what a lookup of each key gives.\<close>

definition orelse :: "'a option \<Rightarrow> 'a option \<Rightarrow> 'a option" where
  "orelse a b = (if a \<noteq> None then a else b)"

lemma orelse_None [simp]: "orelse a None = a"
  by (cases a) (simp_all add: orelse_def)

lemma item_loop_eq:
  assumes "faithful_entries inp es" "distinct (map (\<lambda>e. seg_bytes (entry_key e)) es)"
  shows "item_loop inet_pton es ip port =
    Some (orelse (ip_value inet_pton (map_of (abs_entries es) (bytes_of ''ip''))) ip,
          orelse (port_value (map_of (abs_entries es) (bytes_of ''port''))) port)"
  using assms
proof (induction es arbitrary: ip port)
  case Nil
  then show ?case by (simp add: ip_value_def port_value_def orelse_def)
next
  case (Cons e es)
  obtain k x where e: "e = Entry k x" by (cases e)
  have k: "valid_segment k" and x: "faithful inp x" and rest: "faithful_entries inp es"
    and distinct: "distinct (map (\<lambda>e. seg_bytes (entry_key e)) es)"
    using Cons.prems e by auto
  have "seg_bytes k \<notin> set (map fst (abs_entries es))"
    using Cons.prems(2) by (simp add: e abs_entries_map image_image)
  then have fresh: "map_of (abs_entries es) (seg_bytes k) = None"
    by (simp add: map_of_eq_None_iff)
  have keys: "bytes_of ''ip'' \<noteq> bytes_of ''port''" by (simp add: bytes_of_def)
  obtain c where ip: "ip_entry inet_pton k x ip =
      Some (c, if seg_bytes k = bytes_of ''ip'' \<and> ip_value inet_pton (Some (abs_object x)) \<noteq> None
               then ip_value inet_pton (Some (abs_object x)) else ip)"
    and c: "seg_bytes k \<noteq> bytes_of ''ip'' \<longrightarrow> \<not> c"
    using ip_entry_eq [OF k x, of inet_pton ip] by blast
  have none: "ip_value inet_pton None = None" "port_value None = None"
    by (simp_all add: ip_value_def port_value_def)
  show ?case
    using fresh keys c Cons.IH [OF rest distinct]
    by (cases "seg_bytes k = bytes_of ''ip''"; cases "seg_bytes k = bytes_of ''port''"; cases c)
      (simp_all add: e ip port_entry_eq [OF k] none orelse_def)
qed

lemma items_loop_eq:
  assumes "faithful_items inp items" "length peers + length items \<le> capacity"
  shows "items_loop inet_pton capacity items peers =
    Some (peers @ List.map_filter (\<lambda>x. peer_of_value inet_pton (abs_object x)) items)"
  using assms
proof (induction items arbitrary: peers)
  case (Cons x xs)
  have x: "faithful inp x" and xs: "faithful_items inp xs" using Cons.prems by auto
  have IH: "items_loop inet_pton capacity xs ps =
      Some (ps @ List.map_filter (\<lambda>x. peer_of_value inet_pton (abs_object x)) xs)"
    if "length ps \<le> Suc (length peers)" for ps
    using Cons.IH [OF xs, of ps] Cons.prems(2) that by simp
  show ?case
  proof (cases "obj_value x")
    case (Dictionary es c)
    then obtain s n where obj: "x = Object (Dictionary es c) s n" by (cases x) simp
    then have es: "faithful_entries inp es" using x by simp
    have loop: "item_loop inet_pton es None None =
        Some (ip_value inet_pton (map_of (abs_entries es) (bytes_of ''ip'')),
              port_value (map_of (abs_entries es) (bytes_of ''port'')))"
      using item_loop_eq [OF es faithful_keys_distinct, of inp c s n inet_pton None None] x
      by (simp add: obj)
    show ?thesis
      using Cons.prems(2) IH
      by (cases "ip_value inet_pton (map_of (abs_entries es) (bytes_of ''ip''))";
          cases "port_value (map_of (abs_entries es) (bytes_of ''port''))")
        (simp_all add: obj loop peer_of_value_def map_filter_simps)
  qed (use IH [of peers] in \<open>simp_all add: abs_object_value peer_of_value_def map_filter_simps\<close>)
qed (simp add: map_filter_simps)

lemma peers_extract_list_run:
  assumes "faithful_items inp items" "length items < 2 ^ 64"
  shows "peers_extract_list inet_pton (Some items) (Some out) h =
    (if length items > 3074457345618258602 then Some (False, Some out, h)
     else if items = [] then Some (True, Some \<lparr>pa_peers = None, pa_count = 0\<rparr>, h)
     else
       let (g, h') = malloc h; peers = List.map_filter (\<lambda>x. peer_of_value inet_pton (abs_object x)) items in
       if g then Some (True, Some \<lparr>pa_peers = Some peers, pa_count = of_nat (length peers)\<rparr>, h')
       else Some (False, Some out, h'))"
proof -
  define n :: size_t where "n = of_nat (length items)"
  have count: "unat n = length items"
    using assms(2) by (simp add: n_def unat_of_nat_size)
  have fits: "n > SIZE_MAX div 6 \<longleftrightarrow> length items > 3074457345618258602"
    by (simp add: word_less_nat_alt unat_div count)
  have zero: "n = 0 \<longleftrightarrow> items = []"
    using count by (metis length_0_conv unat_0 unat_eq_zero)
  obtain g h' where m: "malloc h = (g, h')" by fastforce
  show ?thesis
  proof (cases "items = []")
    case True
    then show ?thesis using zero fits
      by (simp add: peers_extract_list_def n_def [symmetric] map_filter_simps)
  next
    case False
    have "items_loop inet_pton (unat n) items [] =
        Some (List.map_filter (\<lambda>x. peer_of_value inet_pton (abs_object x)) items)"
      using items_loop_eq [OF assms(1), of "[]" "unat n" inet_pton] count by simp
    then show ?thesis using zero fits m False
      by (simp add: peers_extract_list_def n_def [symmetric] Let_def)
  qed
qed

lemma peers_extract_list_eq:
  assumes "faithful_items inp items" "length items < 2 ^ 60" "plentiful h"
  shows "\<exists>h'. peers_extract_list inet_pton (Some items) (Some out) h =
    Some (True, Some \<lparr>pa_peers = if items = [] then None
        else Some (List.map_filter (\<lambda>x. peer_of_value inet_pton (abs_object x)) items),
      pa_count = of_nat (length (List.map_filter (\<lambda>x. peer_of_value inet_pton (abs_object x)) items))\<rparr>, h') \<and>
    live h' = live h + (if items = [] then 0 else 1)"
  using peers_extract_list_run [OF assms(1), of inet_pton out h] assms(2) plentiful_malloc [OF assms(3)]
  by (cases "items = []") (auto simp: live_malloc map_filter_simps Let_def)

text \<open>A list that was parsed from a buffer has fewer items than the buffer has bytes.\<close>

lemma items_length: "bencodes_items vs bs \<Longrightarrow> length vs \<le> length bs"
proof (induction vs arbitrary: bs)
  case (Cons v vs)
  then obtain b c where "bs = b @ c" "bencodes v b" "bencodes_items vs c" by (auto elim: items_ConsE)
  moreover have "b \<noteq> []" using bencodes_head \<open>bencodes v b\<close> by blast
  ultimately show ?case using Cons.IH [of c] by (cases b) auto
qed simp

lemma faithful_list:
  assumes "faithful inp x" "obj_value x = List_Value items c"
  shows "faithful_items inp items" "length items \<le> length inp"
proof -
  obtain s n where x: "x = Object (List_Value items c) s n" using assms(2) by (cases x) simp
  then show "faithful_items inp items" using assms(1) by simp
  have "bencodes (BList (abs_items items)) (take (unat n) (drop (unat s) inp))" using assms(1) x by simp
  then obtain bs where "take (unat n) (drop (unat s) inp) = chr (CHR ''l'') # bs @ [chr (CHR ''e'')]"
    "bencodes_items (abs_items items) bs"
    by (auto elim: bencodes_listE)
  then have "length items \<le> length (take (unat n) (drop (unat s) inp))"
    using items_length by (fastforce simp: abs_items_map)
  then show "length items \<le> length inp" by (rule order_trans) simp
qed

section \<open>Fields of a response\<close>

text \<open>The file's own copy of the dictionary search.\<close>

fun find_in_response :: "bencode_entry list \<Rightarrow> ptr \<Rightarrow> size_t \<Rightarrow> bencode_data_type \<Rightarrow> bencode_object option option" where
  "find_in_response [] key_name key_length target_type = Some None"
| "find_in_response (Entry key value # entries) key_name key_length target_type =
     (if seg_length key \<noteq> key_length then find_in_response entries key_name key_length target_type
      else do {
        a \<leftarrow> read_bytes (seg_data key) (unat (seg_length key));
        b \<leftarrow> read_bytes key_name (unat (seg_length key));
        if memcmp a b \<noteq> 0 then find_in_response entries key_name key_length target_type
        else if obj_type value \<noteq> target_type then find_in_response entries key_name key_length target_type
        else Some (Some value)
      })"

definition find_entry_in_response ::
  "bencode_object option \<Rightarrow> ptr \<Rightarrow> size_t \<Rightarrow> bencode_data_type \<Rightarrow> bencode_object option option" where
  "find_entry_in_response root key_name key_length target_type =
     (case root of
        None \<Rightarrow> Some None
      | Some x \<Rightarrow>
          (case obj_value x of
             Dictionary entries _ \<Rightarrow> find_in_response entries key_name key_length target_type
           | _ \<Rightarrow> Some None))"

lemma find_in_response_same: "find_in_response es k n t = find_in_entries es k n t"
proof (induction es)
  case (Cons e es)
  then show ?case by (cases e) (simp cong: if_cong)
qed simp

interpretation response_search: dictionary_search find_entry_in_response
  by unfold_locales
    (auto simp: find_entry_in_response_def obj_type_def find_in_response_same find_in_entries_eq
      split: bencode_value.splits)

definition find_interval :: "bencode_object option \<Rightarrow> int64 option \<Rightarrow> (bool \<times> int64 option) option" where
  "find_interval response_obj out_interval =
     (case out_interval of
        None \<Rightarrow> Some (False, None)
      | Some _ \<Rightarrow> do {
          entry \<leftarrow> find_entry_in_response response_obj interval_key 8 INTEGER;
          case entry of
            None \<Rightarrow> Some (False, out_interval)
          | Some entry \<Rightarrow> do {
              i \<leftarrow> integer entry;
              Some (True, Some i)
            }
        })"

text \<open>The output parameter holds an object pointer, which may itself be NULL.\<close>

definition find_peers ::
  "bencode_object option \<Rightarrow> bencode_object option option \<Rightarrow> (bool \<times> bencode_object option option) option" where
  "find_peers response_obj out_peers =
     (case out_peers of
        None \<Rightarrow> Some (False, None)
      | Some _ \<Rightarrow> do {
          entry \<leftarrow> find_entry_in_response response_obj peers_key 5 BYTE_STRING;
          case entry of
            Some _ \<Rightarrow> Some (True, Some entry)
          | None \<Rightarrow> do {
              entry \<leftarrow> find_entry_in_response response_obj peers_key 5 LIST;
              case entry of
                Some _ \<Rightarrow> Some (True, Some entry)
              | None \<Rightarrow> Some (False, out_peers)
            }
        })"

definition peers_field :: "bvalue \<Rightarrow> bvalue option" where
  "peers_field v = orelse (field v ''peers'' BYTE_STRING) (field v ''peers'' LIST)"

lemma length_keys: "length ''interval'' < 2 ^ 64" "length ''peers'' < 2 ^ 64"
  by simp_all

lemma find_interval_eq:
  assumes "faithful inp x"
  shows "find_interval (Some x) (Some old) =
    Some (case integer_field (abs_object x) ''interval'' of
        None \<Rightarrow> (False, Some old) | Some i \<Rightarrow> (True, Some (of_int i)))"
  by (cases rule: response_search.search_cases [OF assms length_keys(1), of INTEGER])
    (auto simp: find_interval_def interval_key_def integer_field_def dest: typed_integer)

lemma find_peers_spec:
  assumes "faithful inp x"
  shows "find_peers (Some x) (Some old) = Some (False, Some old) \<and> peers_field (abs_object x) = None
    \<or> (\<exists>y. find_peers (Some x) (Some old) = Some (True, Some (Some y)) \<and>
        peers_field (abs_object x) = Some (abs_object y) \<and> faithful inp y \<and> obj_type y \<in> {BYTE_STRING, LIST})"
  by (cases rule: response_search.search_cases [OF assms length_keys(2), of BYTE_STRING];
      cases rule: response_search.search_cases [OF assms length_keys(2), of LIST])
    (auto simp: find_peers_def peers_key_def peers_field_def orelse_def)

section \<open>Parsing a response\<close>

text \<open>The bytes received so far; \<open>None\<close> is a NULL \<open>data\<close> pointer.\<close>

record tracker_response_buffer =
  rb_data :: "byte list option"
  rb_length :: size_t

definition response_ptr :: "byte list option \<Rightarrow> ptr" where
  "response_ptr data = (case data of None \<Rightarrow> NULL | Some bs \<Rightarrow> Ptr bs 0)"

definition tracker_response_parse ::
  "tracker_response_buffer option \<Rightarrow> bencode_object option \<Rightarrow> heap \<Rightarrow>
   (bool \<times> bencode_object option \<times> heap) option" where
  "tracker_response_parse response out_parsed_obj h =
     (case (response, out_parsed_obj) of
        (Some r, Some _) \<Rightarrow>
          (case bencode_parser_init (response_ptr (rb_data r)) (rb_length r) of
             None \<Rightarrow> Some (False, out_parsed_obj, h)
           | Some parser \<Rightarrow> do {
               (obj, parser, h) \<leftarrow> parse_bencode_buffer parser h;
               case obj of
                 None \<Rightarrow> Some (False, out_parsed_obj, h)
               | Some obj \<Rightarrow>
                   if ps_position parser \<noteq> rb_length r
                   then Some (False, out_parsed_obj, snd (free_bencode_object obj h))
                   else if obj_type obj \<noteq> DICTIONARY
                   then Some (False, out_parsed_obj, snd (free_bencode_object obj h))
                   else Some (True, Some obj, h)
             })
      | _ \<Rightarrow> Some (False, out_parsed_obj, h))"

text \<open>A buffer whose length is the number of its bytes.\<close>

definition response_bytes :: "tracker_response_buffer \<Rightarrow> byte list" where
  "response_bytes r = (case rb_data r of None \<Rightarrow> [] | Some bs \<Rightarrow> bs)"

definition consistent_response :: "tracker_response_buffer \<Rightarrow> bool" where
  "consistent_response r \<longleftrightarrow> unat (rb_length r) = length (response_bytes r)"

lemma response_parser:
  assumes "consistent_response r"
  shows "\<exists>p. bencode_parser_init (response_ptr (rb_data r)) (rb_length r) = Some p \<and> wf_parser p \<and>
    remaining p = response_bytes r \<and> input p = response_bytes r \<and>
    ps_position p = 0 \<and> ps_length p = rb_length r"
  using assms
  by (auto simp: consistent_response_def response_bytes_def response_ptr_def bencode_parser_init_def
      is_valid_parser_def wf_parser_def remaining_def input_def unat_eq_zero split: option.splits)

lemma response_parse_run:
  assumes "consistent_response r"
  shows "\<exists>ok x h'. tracker_response_parse (Some r) (Some old) h = Some (ok, Some x, h') \<and>
    (if ok then \<exists>es. abs_object x = BDict es \<and> bencodes (BDict es) (response_bytes r) \<and>
        faithful (response_bytes r) x \<and> live h' = live h + owned x
     else x = old \<and> live h' = live h)"
proof -
  obtain p where init: "bencode_parser_init (response_ptr (rb_data r)) (rb_length r) = Some p"
    and p: "wf_parser p" "remaining p = response_bytes r" "input p = response_bytes r" "ps_position p = 0"
      "ps_length p = rb_length r"
    using response_parser [OF assms] by blast
  obtain res q h' where run: "parse_bencode_buffer p h = Some (res, q, h')"
    using parse_defined [OF p(1)] by blast
  show ?thesis
  proof (cases res)
    case None
    then show ?thesis
      using run init buffer.restore [OF p(1)]
      by (intro exI [of _ False] exI [of _ old] exI [of _ h']) (simp add: tracker_response_parse_def)
  next
    case (Some x)
    obtain n where n: "n \<le> length (remaining p)" "q = advance n p" "bencodes (abs_object x) (take n (remaining p))"
      and x: "faithful (input p) x" "live h' = live h + owned x"
      using buffer.result [OF p(1)] run Some by blast
    have pos: "unat (ps_position q) = n" using position_advance [OF p(1) n(1)] n(2) p(4) by simp
    have whole: "ps_position q = rb_length r \<Longrightarrow> n = length (response_bytes r)"
      using pos assms by (auto simp: consistent_response_def)
    show ?thesis
    proof (cases "ps_position q = rb_length r \<and> obj_type x = DICTIONARY")
      case True
      then obtain es c s m where "x = Object (Dictionary es c) s m"
        by (cases x, cases "obj_value x") (auto simp: obj_type_def)
      then show ?thesis
        using True whole n x p run init Some
        by (intro exI [of _ True] exI [of _ x] exI [of _ h']) (simp add: tracker_response_parse_def)
    next
      case False
      then show ?thesis
        using x run init Some by (auto simp: tracker_response_parse_def heap_simps)
    qed
  qed
qed

lemma response_parse_complete:
  assumes "consistent_response r" "length (response_bytes r) < 2 ^ 57" "plentiful h"
    and "bencodes (BDict es) (response_bytes r)"
  shows "\<exists>x h'. tracker_response_parse (Some r) (Some old) h = Some (True, Some x, h') \<and> abs_object x = BDict es \<and>
    plentiful h'"
proof -
  obtain p where init: "bencode_parser_init (response_ptr (rb_data r)) (rb_length r) = Some p"
    and p: "wf_parser p" "remaining p = response_bytes r" "input p = response_bytes r" "ps_position p = 0"
      "ps_length p = rb_length r"
    using response_parser [OF assms(1)] by blast
  let ?n = "length (response_bytes r)"
  have le: "?n \<le> length (remaining p)" by (simp add: p)
  obtain x h' where run: "parse_bencode_buffer p h = Some (Some x, advance ?n p, h')" "abs_object x = BDict es"
    "plentiful h'"
    using buffer_complete.complete [OF p(1) _ _ assms(3,4), of "[]"] length_remaining_less [OF p(1)] p(2,3) assms(2)
    by auto
  have "ps_position (advance ?n p) = rb_length r"
    using position_advance [OF p(1) le] p(4) assms(1) by (simp add: consistent_response_def word_unat_eq_iff)
  moreover have "obj_type x = DICTIONARY"
    using bvalue_type_abs [of x] run(2) by (simp add: bvalue_type_def)
  ultimately show ?thesis using run init by (simp add: tracker_response_parse_def)
qed

section \<open>Properties\<close>

definition segment_of :: "byte list \<Rightarrow> bencode_segment" where
  "segment_of bs = \<lparr>seg_data = Ptr bs 0, seg_length = of_nat (length bs)\<rparr>"

lemma segment_of_valid: "length bs < 2 ^ 64 \<Longrightarrow> valid_segment (segment_of bs) \<and> seg_bytes (segment_of bs) = bs \<and>
    unat (seg_length (segment_of bs)) = length bs"
  by (simp add: valid_segment_def seg_bytes_def segment_of_def unat_of_nat_size)

definition no_peers :: peer_array where
  "no_peers = \<lparr>pa_peers = None, pa_count = 0\<rparr>"

text \<open>
  C30: \<open>peers_extract_compact\<close> decodes what the compact form of a peer list encodes: given the
  6-byte entries of \<open>ps\<close>, four address bytes and a big-endian port each, it returns exactly
  \<open>ps\<close> in order, with their number, and allocates one array unless there is no peer.
\<close>

theorem compact_peers_roundtrip:
  assumes "valid_segment s" and "seg_bytes s = concat (map peer_bytes ps)" and "plentiful h"
  shows "\<exists>h'. peers_extract_compact (Some s) (Some out) h =
      Some (True, Some \<lparr>pa_peers = if ps = [] then None else Some ps, pa_count = of_nat (length ps)\<rparr>, h') \<and>
    live h' = live h + (if ps = [] then 0 else 1)"
proof -
  have len: "length (seg_bytes s) = 6 * length ps"
    unfolding assms(2) by (induction ps) (simp_all add: peer6.length_encode)
  have "6 dvd unat (seg_length s)" using length_seg_bytes [OF assms(1)] len by (metis dvd_triv_left)
  moreover have "seg_bytes s = [] \<longleftrightarrow> ps = []" using len by auto
  moreover have "map read_peer (chunks 6 (seg_bytes s)) = ps"
    unfolding assms(2) by (rule peer6.decode_records)
  ultimately show ?thesis
    using peers_extract_compact_eq [OF assms(1,3), of out] len by (cases "ps = []") simp_all
qed

theorem compact_peers_roundtrip_witness:
  "\<exists>h'. peers_extract_compact (Some (segment_of [10, 0, 0, 1, 0x1A, 0xE1, 192, 168, 1, 2, 0, 80]))
      (Some no_peers) fresh_heap =
    Some (True, Some \<lparr>pa_peers = Some [\<lparr>ipv4_address = (10, 0, 0, 1), peer_port = 6881\<rparr>,
        \<lparr>ipv4_address = (192, 168, 1, 2), peer_port = 80\<rparr>], pa_count = 2\<rparr>, h') \<and> live h' = 1"
proof -
  let ?bs = "[10, 0, 0, 1, 0x1A, 0xE1, 192, 168, 1, 2, 0, 80] :: byte list"
  let ?ps = "[\<lparr>ipv4_address = (10, 0, 0, 1), peer_port = 6881\<rparr>, \<lparr>ipv4_address = (192, 168, 1, 2), peer_port = 80\<rparr>]"
  have v: "valid_segment (segment_of ?bs)" and b: "seg_bytes (segment_of ?bs) = ?bs"
    using segment_of_valid [of ?bs] by simp_all
  have "?bs = concat (map peer_bytes ?ps)" by code_simp
  then show ?thesis
    using compact_peers_roundtrip [OF v _ plentiful_fresh, of ?ps no_peers] b by (simp add: fresh_heap_def)
qed

text \<open>
  C31: \<open>peers_extract_list\<close> keeps exactly the items that are dictionaries with an \<open>ip\<close> string
  of fewer than 16 bytes that \<open>inet_pton\<close> accepts and a \<open>port\<close> between 0 and 65535, in order;
  every other item is skipped, and no read or write leaves the list or the array.
\<close>

theorem list_peers_exact:
  assumes "faithful_items inp items" and "length items < 2 ^ 60" and "plentiful h"
  shows "\<exists>h' ps. ps = List.map_filter (\<lambda>x. peer_of_value inet_pton (abs_object x)) items \<and>
    peers_extract_list inet_pton (Some items) (Some out) h =
      Some (True, Some \<lparr>pa_peers = if items = [] then None else Some ps, pa_count = of_nat (length ps)\<rparr>, h') \<and>
    live h' = live h + (if items = [] then 0 else 1)"
  using peers_extract_list_eq [OF assms, of inet_pton out] by simp

definition sample_items :: "bencode_object list" where
  "sample_items =
     (case parse_bencode_buffer (parser_on (bytes_of ''ld2:ip1:a4:porti80eed2:ip1:b4:porti80eei7ee'')) fresh_heap of
        Some (Some x, _) \<Rightarrow> (case obj_value x of List_Value items _ \<Rightarrow> items | _ \<Rightarrow> []) | _ \<Rightarrow> [])"

theorem list_peers_exact_witness:
  "\<exists>h'. peers_extract_list (\<lambda>s. if s = bytes_of ''a'' then Some (10, 0, 0, 1) else None)
      (Some sample_items) (Some no_peers) fresh_heap =
    Some (True, Some \<lparr>pa_peers = Some [\<lparr>ipv4_address = (10, 0, 0, 1), peer_port = 80\<rparr>], pa_count = 1\<rparr>, h') \<and>
    length sample_items = 3"
proof -
  let ?p = "parser_on (bytes_of ''ld2:ip1:a4:porti80eed2:ip1:b4:porti80eei7ee'')"
  let ?pton = "\<lambda>s. if s = bytes_of ''a'' then Some (10, 0, 0, 1) else None"
  have wf: "wf_parser ?p" by code_simp
  have ok: "case parse_bencode_buffer ?p fresh_heap of
      Some (Some x, _) \<Rightarrow> (case obj_value x of List_Value items _ \<Rightarrow> True | _ \<Rightarrow> False) | _ \<Rightarrow> False"
    by code_simp
  then obtain x q h where run: "parse_bencode_buffer ?p fresh_heap = Some (Some x, q, h)"
    and "case obj_value x of List_Value items _ \<Rightarrow> True | _ \<Rightarrow> False"
    by (auto split: option.splits)
  then obtain items c where x: "obj_value x = List_Value items c"
    by (cases "obj_value x") auto
  then have items: "sample_items = items" using run by (simp add: sample_items_def)
  have f: "faithful_items (input ?p) sample_items"
    using parse_success_faithful(1) [OF wf run] x by (cases x) (simp add: items)
  have len: "length sample_items = 3" by code_simp
  then have ne: "sample_items \<noteq> []" and short: "length sample_items < 2 ^ 60" by auto
  have "List.map_filter (\<lambda>x. peer_of_value ?pton (abs_object x)) sample_items =
      [\<lparr>ipv4_address = (10, 0, 0, 1), peer_port = 80\<rparr>]" by code_simp
  then show ?thesis
    using list_peers_exact [OF f short plentiful_fresh, of ?pton no_peers] len ne by auto
qed

text \<open>
  C32: \<open>tracker_response_parse\<close> returns on every response; it reports success only when the
  whole response is the encoding of one dictionary, hands that dictionary over with the blocks
  it owns, and on failure leaves the output alone and frees everything it allocated.
\<close>

theorem response_parse_sound:
  assumes "consistent_response r"
  shows "\<exists>ok x h'. tracker_response_parse (Some r) (Some old) h = Some (ok, Some x, h') \<and>
    (if ok then \<exists>es. abs_object x = BDict es \<and> bencodes (BDict es) (response_bytes r) \<and>
        faithful (response_bytes r) x \<and> live h' = live h + owned x
     else x = old \<and> live h' = live h)"
  by (rule response_parse_run [OF assms])

definition sample_response :: "string \<Rightarrow> tracker_response_buffer" where
  "sample_response s = \<lparr>rb_data = Some (bytes_of s), rb_length = of_nat (length s)\<rparr>"

definition blank_object :: bencode_object where
  "blank_object = Object No_Value 0 0"

theorem response_parse_sound_witness:
  "\<exists>h'. tracker_response_parse (Some (sample_response ''d1:ali1eee!'')) (Some blank_object) fresh_heap =
     Some (False, Some blank_object, h') \<and> live h' = 0"
proof -
  have c: "consistent_response (sample_response ''d1:ali1eee!'')" by code_simp
  have "map_option fst (tracker_response_parse (Some (sample_response ''d1:ali1eee!'')) (Some blank_object) fresh_heap)
      = Some False" by code_simp
  then show ?thesis
    using response_parse_sound [OF c, of blank_object fresh_heap] by (auto simp: fresh_heap_def)
qed

text \<open>
  C17: with enough memory \<open>tracker_response_parse\<close> accepts exactly the responses that are one
  encoded dictionary, and returns its value.
\<close>

theorem response_parse_exact:
  assumes "consistent_response r" and "length (response_bytes r) < 2 ^ 57" and "plentiful h"
  shows "(\<exists>x h'. tracker_response_parse (Some r) (Some old) h = Some (True, Some x, h') \<and> abs_object x = v)
    \<longleftrightarrow> bvalue_type v = DICTIONARY \<and> bencodes v (response_bytes r)"
proof
  assume "\<exists>x h'. tracker_response_parse (Some r) (Some old) h = Some (True, Some x, h') \<and> abs_object x = v"
  then show "bvalue_type v = DICTIONARY \<and> bencodes v (response_bytes r)"
    using response_parse_run [OF assms(1), of old h] by (auto simp: bvalue_type_def)
next
  assume "bvalue_type v = DICTIONARY \<and> bencodes v (response_bytes r)"
  then show "\<exists>x h'. tracker_response_parse (Some r) (Some old) h = Some (True, Some x, h') \<and> abs_object x = v"
    using response_parse_complete [OF assms] by (cases v) (auto simp: bvalue_type_def, blast)
qed

theorem response_parse_exact_witness:
  "\<exists>x h'. tracker_response_parse (Some (sample_response ''d8:intervali900ee'')) (Some blank_object) fresh_heap =
      Some (True, Some x, h') \<and> abs_object x = BDict [(bytes_of ''interval'', BInt 900)]"
proof -
  let ?r = "sample_response ''d8:intervali900ee''" and ?v = "BDict [(bytes_of ''interval'', BInt 900)]"
  have c: "consistent_response ?r" by code_simp
  have bytes: "response_bytes ?r = bytes_of ''d8:intervali900ee''"
    by (simp add: sample_response_def response_bytes_def)
  have "wf_value ?v" by simp
  moreover have "encode ?v = response_bytes ?r" by code_simp
  ultimately have "bencodes ?v (response_bytes ?r)" using encode_bencodes(1) by metis
  then show ?thesis
    using response_parse_exact [OF c _ plentiful_fresh, of blank_object ?v] bytes
    by (simp add: bvalue_type_def)
qed

end
