(* ===== verification/Buffer_Writer.thy ===== *)
theory Buffer_Writer
  imports Byte_Order
begin

text \<open>
  Filling a byte array from the left through a moving position. The message builder of
  src/peer_connection.c (\<open>append_uint32_big_endian\<close>) and the URL builder of src/tracker.c
  (\<open>add_query_parameter_to_url\<close>) work this way; the locale is the contract they share: an item
  is stored at the position if it fits, and nothing changes if it does not.
\<close>

text \<open>A chain of appends that stops at the first one that reports failure.\<close>

fun append_all ::
  "(byte list \<Rightarrow> size_t \<Rightarrow> size_t \<Rightarrow> 'a \<Rightarrow> (bool \<times> byte list \<times> size_t) option) \<Rightarrow>
   byte list \<Rightarrow> size_t \<Rightarrow> size_t \<Rightarrow> 'a list \<Rightarrow> (bool \<times> byte list \<times> size_t) option" where
  "append_all put buffer capacity position [] = Some (True, buffer, position)"
| "append_all put buffer capacity position (x # xs) = do {
     (ok, buffer, position) \<leftarrow> put buffer capacity position x;
     if \<not> ok then Some (False, buffer, position)
     else append_all put buffer capacity position xs
   }"

locale appender =
  fixes put :: "byte list \<Rightarrow> size_t \<Rightarrow> size_t \<Rightarrow> 'a \<Rightarrow> (bool \<times> byte list \<times> size_t) option"
    and content :: "'a \<Rightarrow> byte list"
  assumes append_eq: "unat capacity = length buffer \<Longrightarrow> length (content x) < 2 ^ 62 \<Longrightarrow>
    put buffer capacity position x =
      (if unat position + length (content x) \<le> length buffer
       then Some (True, take (unat position) buffer @ content x @ drop (unat position + length (content x)) buffer,
              position + of_nat (length (content x)))
       else Some (False, buffer, position))"
begin

text \<open>What has been written stays, the new bytes follow it, the array keeps its size.\<close>

lemma append_fits:
  assumes "unat capacity = length buffer" "length (content x) < 2 ^ 62"
    and "unat position + length (content x) \<le> length buffer"
  shows "\<exists>buffer' position'. put buffer capacity position x = Some (True, buffer', position') \<and>
    length buffer' = length buffer \<and> unat position' = unat position + length (content x) \<and>
    take (unat position') buffer' = take (unat position) buffer @ content x"
proof -
  have "unat position + length (content x) < 2 ^ 64"
    using assms(1,3) unat_size_lt [of capacity] by simp
  then have "unat (position + of_nat (length (content x))) = unat position + length (content x)"
    by (simp add: unat_plus_bounded unat_of_nat_size)
  then show ?thesis using assms by (simp add: append_eq)
qed

lemma append_refuses:
  "unat capacity = length buffer \<Longrightarrow> length (content x) < 2 ^ 62 \<Longrightarrow>
   \<not> unat position + length (content x) \<le> length buffer \<Longrightarrow>
   put buffer capacity position x = Some (False, buffer, position)"
  by (simp add: append_eq)

text \<open>A chain whose contents fit is never refused and writes them one after the other.\<close>

lemma append_all_fits:
  assumes "unat capacity = length buffer" "\<forall>x \<in> set xs. length (content x) < 2 ^ 62"
    and "unat position + length (concat (map content xs)) \<le> length buffer"
  shows "\<exists>buffer' position'. append_all put buffer capacity position xs = Some (True, buffer', position') \<and>
    length buffer' = length buffer \<and> unat position' = unat position + length (concat (map content xs)) \<and>
    take (unat position') buffer' = take (unat position) buffer @ concat (map content xs)"
  using assms
proof (induction xs arbitrary: buffer position)
  case (Cons x xs)
  obtain b p where step: "put buffer capacity position x = Some (True, b, p)" "length b = length buffer"
    "unat p = unat position + length (content x)" "take (unat p) b = take (unat position) buffer @ content x"
    using append_fits [of capacity buffer x position] Cons.prems by auto
  show ?case
    using Cons.IH [of b p] Cons.prems step by auto
qed simp

text \<open>A chain is always defined: an append never writes outside the array.\<close>

lemma append_all_defined:
  assumes "unat capacity = length buffer" "\<forall>x \<in> set xs. length (content x) < 2 ^ 62"
  shows "\<exists>ok buffer' position'. append_all put buffer capacity position xs = Some (ok, buffer', position') \<and>
    length buffer' = length buffer"
  using assms
proof (induction xs arbitrary: buffer position)
  case (Cons x xs)
  show ?case
  proof (cases "unat position + length (content x) \<le> length buffer")
    case True
    obtain b p where "put buffer capacity position x = Some (True, b, p)" "length b = length buffer"
      using append_fits [of capacity buffer x position] Cons.prems True by auto
    then show ?thesis using Cons.IH [of b p] Cons.prems by auto
  next
    case False
    then show ?thesis using append_refuses Cons.prems by (intro exI [of _ False]) simp
  qed
qed simp

end

interpretation uint32_writer: appender append_uint32_big_endian uint32_bytes
  by unfold_locales (simp add: append_uint32_big_endian_eq be32.length_encode)

end
