(* ===== verification/Tracker_Request.thy ===== *)
theory Tracker_Request
  imports Tracker_Response Buffer_Writer
begin

text \<open>
  The half of src/tracker.c that talks to the tracker: the announce URL (\<open>build_tracker_url\<close>,
  \<open>add_query_parameter_to_url\<close>, \<open>safely_increased_url_length\<close>), the callback that collects the
  response (\<open>write_chunk_to_tracker_response_buffer\<close>), and \<open>tracker_announce\<close>.

  libcurl is a parameter: a record of the answers its functions give. A handle or an escaped
  string counts as a block of the heap until \<open>curl_easy_cleanup\<close> or \<open>curl_free\<close> gives it back.
\<close>

section \<open>Structures\<close>

text \<open>\<open>EVENT_VALUE\<close> is any other value an object of the enumeration's type can hold.\<close>

datatype tracker_event =
    TRACKER_EVENT_NONE | TRACKER_EVENT_STARTED | TRACKER_EVENT_COMPLETED | TRACKER_EVENT_STOPPED
  | EVENT_VALUE int

record tracker_request =
  tr_info_hash :: "byte list"
  tr_peer_id :: "byte list"
  tr_port :: uint16
  tr_uploaded :: uint64
  tr_downloaded :: uint64
  tr_left :: uint64
  tr_compact :: bool
  tr_event :: tracker_event

text \<open>
  \<open>session_init\<close> and \<open>escape_init\<close> say whether \<open>curl_easy_init\<close> returns a handle in
  \<open>tracker_announce\<close> and in \<open>build_tracker_url\<close>; the \<open>set_\<close> fields whether the option is
  accepted; \<open>easy_perform\<close> maps the URL to the chunks passed to the callback and whether the
  transfer itself goes well; \<open>response_code\<close> is \<open>None\<close> when \<open>curl_easy_getinfo\<close> fails.
  \<open>uninitialised\<close> is what a fresh block of memory holds.
\<close>

record curl =
  session_init :: bool
  escape_init :: bool
  easy_escape :: "byte list \<Rightarrow> byte list option"
  set_write_function :: bool
  set_write_data :: bool
  set_url :: bool
  easy_perform :: "byte list \<Rightarrow> byte list list \<times> bool"
  response_code :: "int option"
  uninitialised :: "nat \<Rightarrow> byte"

definition acquire :: "heap \<Rightarrow> heap" where
  "acquire h = h\<lparr>live := live h + 1\<rparr>"

definition curl_free :: "heap \<Rightarrow> heap" where "curl_free h = free False h"
definition curl_easy_cleanup :: "heap \<Rightarrow> heap" where "curl_easy_cleanup h = free False h"

section \<open>Building the URL\<close>

definition strlen :: "byte list \<Rightarrow> size_t" where
  "strlen s = of_nat (length (c_string s))"

text \<open>\<open>snprintf\<close> of an unsigned decimal into an array of \<open>capacity\<close> characters: the string and the result.\<close>

definition snprintf_unsigned :: "nat \<Rightarrow> nat \<Rightarrow> byte list \<times> int" where
  "snprintf_unsigned capacity value = (take (capacity - 1) (nat_text value), int (length (nat_text value)))"

definition safely_increased_url_length :: "size_t \<Rightarrow> size_t \<Rightarrow> bool \<times> size_t" where
  "safely_increased_url_length url_length increasing_length =
     (if url_length > SIZE_MAX - increasing_length then (False, url_length)
      else (True, url_length + increasing_length))"

fun increased_by_all :: "size_t \<Rightarrow> size_t list \<Rightarrow> bool \<times> size_t" where
  "increased_by_all url_length [] = (True, url_length)"
| "increased_by_all url_length (n # ns) =
     (case safely_increased_url_length url_length n of
        (False, url_length) \<Rightarrow> (False, url_length)
      | (True, url_length) \<Rightarrow> increased_by_all url_length ns)"

definition add_query_parameter_to_url ::
  "byte list \<Rightarrow> size_t \<Rightarrow> size_t \<Rightarrow> byte list \<times> byte list \<Rightarrow> (bool \<times> byte list \<times> size_t) option" where
  "add_query_parameter_to_url url capacity position parameter =
     (let (parameter_prefix, parameter_value) = parameter in
      if position > capacity then Some (False, url, position)
      else
        let remaining = capacity - position;
            parameter_prefix_length = strlen parameter_prefix;
            parameter_value_length = strlen parameter_value in
        if parameter_prefix_length > remaining then Some (False, url, position)
        else
          let remaining = remaining - parameter_prefix_length in
          if parameter_value_length > remaining then Some (False, url, position)
          else do {
            url \<leftarrow> store_bytes url (unat position) (c_string parameter_prefix);
            let position = position + parameter_prefix_length;
            url \<leftarrow> store_bytes url (unat position) (c_string parameter_value);
            let position = position + parameter_value_length;
            Some (True, url, position)
          })"

text \<open>The switch over the event: whether there is one, and its text.\<close>

definition event_text :: "tracker_event \<Rightarrow> (bool \<times> byte list) option" where
  "event_text e =
     (case e of
        TRACKER_EVENT_NONE \<Rightarrow> Some (False, [])
      | TRACKER_EVENT_STARTED \<Rightarrow> Some (True, bytes_of ''started'')
      | TRACKER_EVENT_COMPLETED \<Rightarrow> Some (True, bytes_of ''completed'')
      | TRACKER_EVENT_STOPPED \<Rightarrow> Some (True, bytes_of ''stopped'')
      | EVENT_VALUE _ \<Rightarrow> None)"

text \<open>From the first \<open>memcpy\<close> into the new block to the terminating NUL; \<open>None\<close> inside is a refusal.\<close>

definition fill_url ::
  "bencode_segment \<Rightarrow> (byte list \<times> byte list) list \<Rightarrow> bool \<Rightarrow> byte list \<Rightarrow> size_t \<Rightarrow> byte list \<Rightarrow> byte list option option" where
  "fill_url announce parameters has_event event_value url_capacity url = do {
     text \<leftarrow> read_bytes (seg_data announce) (unat (seg_length announce));
     url \<leftarrow> store_bytes url 0 text;
     let position = seg_length announce;
     let separator = (if chr (CHR ''?'') \<in> set (take (unat position) url) then chr (CHR ''&'') else chr (CHR ''?''));
     if position \<ge> url_capacity then Some None
     else do {
       url \<leftarrow> store_bytes url (unat position) [separator];
       let position = position + 1;
       (ok, url, position) \<leftarrow> append_all add_query_parameter_to_url url url_capacity position parameters;
       if \<not> ok then Some None
       else do {
         (ok, url, position) \<leftarrow>
           (if has_event
            then add_query_parameter_to_url url url_capacity position (bytes_of ''&event='', event_value)
            else Some (True, url, position));
         if \<not> ok then Some None
         else if position \<noteq> url_capacity - 1 then Some None
         else do {
           url \<leftarrow> store_bytes url (unat position) [0];
           Some (Some url)
         }
       }
     }
   }"

text \<open>Giving up after the two strings have been escaped.\<close>

definition give_up :: "heap \<Rightarrow> (byte list option \<times> heap) option" where
  "give_up h = Some (None, curl_easy_cleanup (curl_free (curl_free h)))"

text \<open>From the choice of the event on, with the six texts at hand.\<close>

definition compose_tracker_url ::
  "curl \<Rightarrow> bencode_segment \<Rightarrow> tracker_request \<Rightarrow> byte list \<Rightarrow> byte list \<Rightarrow> byte list \<Rightarrow> byte list \<Rightarrow> byte list \<Rightarrow>
   byte list \<Rightarrow> heap \<Rightarrow> (byte list option \<times> heap) option" where
  "compose_tracker_url curl announce request info_hash_encoded peer_id_encoded port uploaded downloaded left h =
     (let compact = (if tr_compact request then bytes_of ''1'' else bytes_of ''0'') in
      case event_text (tr_event request) of
        None \<Rightarrow> give_up h
      | Some (has_event, event_value) \<Rightarrow>
          let static_text =
                (if has_event
                 then bytes_of ''?info_hash=&peer_id=&port=&uploaded=&downloaded=&left=&compact=1&event=''
                 else bytes_of ''?info_hash=&peer_id=&port=&uploaded=&downloaded=&left=&compact=1'');
              (ok, url_capacity) = increased_by_all 1
                [seg_length announce, strlen info_hash_encoded, strlen peer_id_encoded,
                 strlen port, strlen uploaded, strlen downloaded, strlen left,
                 strlen static_text, strlen event_value] in
          if \<not> ok then give_up h
          else (case malloc h of
              (False, h) \<Rightarrow> give_up h
            | (True, h) \<Rightarrow> do {
                url \<leftarrow> fill_url announce
                  [(bytes_of ''info_hash='', info_hash_encoded),
                   (bytes_of ''&peer_id='', peer_id_encoded),
                   (bytes_of ''&port='', port),
                   (bytes_of ''&uploaded='', uploaded),
                   (bytes_of ''&downloaded='', downloaded),
                   (bytes_of ''&left='', left),
                   (bytes_of ''&compact='', compact)]
                  has_event event_value url_capacity
                  (map (uninitialised curl) [0..<unat url_capacity]);
                let h = curl_easy_cleanup (curl_free (curl_free h));
                (case url of
                   None \<Rightarrow> Some (None, free False h)
                 | Some url \<Rightarrow> Some (Some url, h))
              }))"

definition build_tracker_url ::
  "curl \<Rightarrow> bencode_segment option \<Rightarrow> tracker_request option \<Rightarrow> heap \<Rightarrow> (byte list option \<times> heap) option" where
  "build_tracker_url curl announce request h =
     (case (announce, request) of
        (Some announce, Some request) \<Rightarrow>
          if \<not> (seg_data announce \<noteq> NULL \<and> seg_length announce > 0) then Some (None, h)
          else if \<not> escape_init curl then Some (None, h)
          else
            let h = acquire h in
            (case easy_escape curl (tr_info_hash request) of
               None \<Rightarrow> Some (None, curl_easy_cleanup h)
             | Some info_hash_encoded \<Rightarrow>
                 let h = acquire h in
                 (case easy_escape curl (tr_peer_id request) of
                    None \<Rightarrow> Some (None, curl_easy_cleanup (curl_free h))
                  | Some peer_id_encoded \<Rightarrow>
                      let h = acquire h;
                          (port, port_written) = snprintf_unsigned 6 (unat (tr_port request)) in
                      if port_written < 0 \<or> port_written \<ge> 6 then give_up h
                      else
                        let (uploaded, upload_written) = snprintf_unsigned 21 (unat (tr_uploaded request)) in
                        if upload_written < 0 \<or> upload_written \<ge> 21 then give_up h
                        else
                          let (downloaded, downloaded_written) = snprintf_unsigned 21 (unat (tr_downloaded request)) in
                          if downloaded_written < 0 \<or> downloaded_written \<ge> 21 then give_up h
                          else
                            let (left, left_written) = snprintf_unsigned 21 (unat (tr_left request)) in
                            if left_written < 0 \<or> left_written \<ge> 21 then give_up h
                            else compose_tracker_url curl announce request info_hash_encoded peer_id_encoded
                              port uploaded downloaded left h))
      | _ \<Rightarrow> Some (None, h))"

section \<open>The pieces of the URL\<close>

lemma c_string_digits [simp]: "c_string (nat_text n) = nat_text n"
proof -
  have "b \<noteq> 0" if "b \<in> set (nat_text n)" for b
    using nat_text_digits [of n] that by (auto simp: list_all_iff isdigit_def)
  then show ?thesis by (simp add: c_string_def takeWhile_eq_all_conv)
qed

lemma c_string_id: "0 \<notin> set s \<Longrightarrow> c_string s = s"
  by (auto simp: c_string_def takeWhile_eq_all_conv)

lemma length_nat_text: "n < 10 ^ Suc k \<Longrightarrow> length (nat_text n) \<le> Suc k"
proof (induction k arbitrary: n)
  case 0
  then show ?case by (simp add: nat_text_small)
next
  case (Suc k)
  show ?case
  proof (cases "n < 10")
    case False
    have "n div 10 < 10 ^ Suc k" using Suc.prems by (simp add: less_mult_imp_div_less)
    then show ?thesis using False Suc.IH [of "n div 10"] by (simp add: nat_text_step)
  qed (simp add: nat_text_small)
qed

lemma snprintf_port: "snprintf_unsigned 6 (unat (p :: uint16)) = (nat_text (unat p), int (length (nat_text (unat p))))"
  and port_width: "length (nat_text (unat p)) \<le> 5"
proof -
  show "length (nat_text (unat p)) \<le> 5"
    using length_nat_text [of "unat p" 4] unsigned_less [of p, where 'a=nat] by simp
  then show "snprintf_unsigned 6 (unat p) = (nat_text (unat p), int (length (nat_text (unat p))))"
    by (simp add: snprintf_unsigned_def)
qed

lemma snprintf_count: "snprintf_unsigned 21 (unat (n :: uint64)) = (nat_text (unat n), int (length (nat_text (unat n))))"
  and count_width: "length (nat_text (unat n)) \<le> 20"
proof -
  show "length (nat_text (unat n)) \<le> 20"
    using length_nat_text [of "unat n" 19] unat_size_lt [of n] by simp
  then show "snprintf_unsigned 21 (unat n) = (nat_text (unat n), int (length (nat_text (unat n))))"
    by (simp add: snprintf_unsigned_def)
qed

lemma unat_strlen: "length (c_string s) < 2 ^ 62 \<Longrightarrow> unat (strlen s) = length (c_string s)"
  unfolding strlen_def by (rule unat_of_nat_size) simp

fun parameter_text :: "byte list \<times> byte list \<Rightarrow> byte list" where
  "parameter_text (p, v) = c_string p @ c_string v"

lemma add_query_parameter_eq:
  assumes "unat capacity = length url" "length (parameter_text x) < 2 ^ 62"
  shows "add_query_parameter_to_url url capacity position x =
    (if unat position + length (parameter_text x) \<le> length url
     then Some (True, take (unat position) url @ parameter_text x @ drop (unat position + length (parameter_text x)) url,
            position + of_nat (length (parameter_text x)))
     else Some (False, url, position))"
proof -
  obtain p v where x: "x = (p, v)" by (cases x)
  have len: "unat (strlen p) = length (c_string p)" "unat (strlen v) = length (c_string v)"
    using assms(2) by (auto simp: x intro!: unat_strlen)
  show ?thesis
  proof (cases "unat position + length (parameter_text x) \<le> length url")
    case True
    have le: "position \<le> capacity" using True assms(1) by (simp add: word_le_nat_alt)
    have rem: "unat (capacity - position) = length url - unat position"
      using unat_diff [OF le] assms(1) by simp
    have p: "strlen p \<le> capacity - position"
      using True by (simp add: x word_le_nat_alt len rem)
    have v: "strlen v \<le> capacity - position - strlen p"
      using True by (simp add: x word_le_nat_alt unat_diff [OF p] len rem)
    have "unat position + length (c_string p) < 2 ^ 64"
      using True assms(1) unat_size_lt [of capacity] by (simp add: x)
    then have pos: "unat (position + strlen p) = unat position + length (c_string p)"
      by (simp add: unat_plus_bounded len)
    have first: "store_bytes url (unat position) (c_string p) =
        Some (take (unat position) url @ c_string p @ drop (unat position + length (c_string p)) url)"
      using True by (simp add: x store_bytes_Some)
    have second: "store_bytes (take (unat position) url @ c_string p @ drop (unat position + length (c_string p)) url)
        (unat position + length (c_string p)) (c_string v) =
        Some (take (unat position) url @ (c_string p @ c_string v) @
          drop (unat position + length (c_string p @ c_string v)) url)"
      using True by (simp add: x store_bytes_Some min_absorb2 ac_simps)
    have off: "position + strlen p + strlen v = position + of_nat (length (c_string p @ c_string v))"
      by (simp add: strlen_def add.assoc)
    show ?thesis
      using True le p v by (simp add: add_query_parameter_to_url_def x Let_def not_less pos first second off)
  next
    case False
    have "position > capacity \<or> strlen p > capacity - position \<or> strlen v > capacity - position - strlen p"
    proof (rule ccontr)
      assume "\<not> ?thesis"
      then have le: "position \<le> capacity" and p: "strlen p \<le> capacity - position"
        and v: "strlen v \<le> capacity - position - strlen p"
        by (simp_all add: not_less)
      have "unat (strlen v) \<le> unat capacity - unat position - unat (strlen p)"
        using v by (simp add: word_le_nat_alt unat_diff [OF le] unat_diff [OF p])
      moreover have "unat (strlen p) \<le> unat capacity - unat position"
        using p by (simp add: word_le_nat_alt unat_diff [OF le])
      ultimately show False
        using False le assms(1) len by (simp add: x word_le_nat_alt)
    qed
    then show ?thesis using False by (auto simp: add_query_parameter_to_url_def x Let_def)
  qed
qed

interpretation url_writer: appender add_query_parameter_to_url parameter_text
  by unfold_locales (rule add_query_parameter_eq)

lemma safely_increased_eq:
  "safely_increased_url_length l n =
     (if unat l + unat n < 2 ^ 64 then (True, l + n) else (False, l))"
proof -
  have "l > SIZE_MAX - n \<longleftrightarrow> \<not> unat l + unat n < 2 ^ 64"
    using unat_size_lt [of n] by (auto simp: word_less_nat_alt unat_diff)
  then show ?thesis by (simp add: safely_increased_url_length_def)
qed

lemma increased_by_all_eq:
  "if unat l + sum_list (map unat ns) < 2 ^ 64
   then \<exists>c. increased_by_all l ns = (True, c) \<and> unat c = unat l + sum_list (map unat ns)
   else \<exists>c. increased_by_all l ns = (False, c)"
proof (induction ns arbitrary: l)
  case Nil
  then show ?case using unat_size_lt [of l] by simp
next
  case (Cons n ns)
  show ?case
  proof (cases "unat l + unat n < 2 ^ 64")
    case True
    then have "unat (l + n) = unat l + unat n" by (simp add: unat_plus_bounded)
    then show ?thesis using Cons.IH [of "l + n"] True by (auto simp: safely_increased_eq add.assoc split: if_splits)
  next
    case False
    then show ?thesis by (simp add: safely_increased_eq)
  qed
qed

section \<open>The URL as a whole\<close>

text \<open>
  What \<open>build_tracker_url\<close> is to produce: the announce URL, a separator that depends on whether
  it already has a query, and the parameters in a fixed order.
\<close>

definition separator_of :: "byte list \<Rightarrow> byte" where
  "separator_of announce = (if chr (CHR ''?'') \<in> set announce then chr (CHR ''&'') else chr (CHR ''?''))"

fun event_parameter :: "tracker_event \<Rightarrow> byte list" where
  "event_parameter TRACKER_EVENT_STARTED = bytes_of ''&event=started''"
| "event_parameter TRACKER_EVENT_COMPLETED = bytes_of ''&event=completed''"
| "event_parameter TRACKER_EVENT_STOPPED = bytes_of ''&event=stopped''"
| "event_parameter _ = []"

definition announce_url_of :: "byte list \<Rightarrow> byte list \<Rightarrow> byte list \<Rightarrow> tracker_request \<Rightarrow> byte list" where
  "announce_url_of announce info_hash peer_id r =
     announce @ [separator_of announce]
     @ bytes_of ''info_hash='' @ info_hash @ bytes_of ''&peer_id='' @ peer_id
     @ bytes_of ''&port='' @ nat_text (unat (tr_port r))
     @ bytes_of ''&uploaded='' @ nat_text (unat (tr_uploaded r))
     @ bytes_of ''&downloaded='' @ nat_text (unat (tr_downloaded r))
     @ bytes_of ''&left='' @ nat_text (unat (tr_left r))
     @ bytes_of ''&compact='' @ (if tr_compact r then bytes_of ''1'' else bytes_of ''0'')
     @ event_parameter (tr_event r)"

text \<open>
  With exactly enough room for the announce URL, the separator, the parameters and the NUL, the
  filling of the block goes through and none of its own checks is what stops it.
\<close>

lemma fill_url_exact:
  assumes "valid_segment announce" and "unat capacity = length url"
    and "\<forall>x \<in> set parameters. length (parameter_text x) < 2 ^ 62"
    and "length (c_string event) < 2 ^ 61"
    and room: "length url = length (seg_bytes announce) + 1 + length (concat (map parameter_text parameters)) +
      (if has_event then length (parameter_text (bytes_of ''&event='', event)) else 0) + 1"
  shows "fill_url announce parameters has_event event capacity url =
    Some (Some (seg_bytes announce @ [separator_of (seg_bytes announce)] @ concat (map parameter_text parameters) @
      (if has_event then parameter_text (bytes_of ''&event='', event) else []) @ [0]))"
proof -
  let ?A = "seg_bytes announce" and ?P = "concat (map parameter_text parameters)"
    and ?sep = "separator_of (seg_bytes announce)"
  let ?E = "if has_event then parameter_text (bytes_of ''&event='', event) else []"
  have len: "unat (seg_length announce) = length ?A" using length_seg_bytes [OF assms(1)] by simp
  define url1 where "url1 = ?A @ drop (length ?A) url"
  have url1: "store_bytes url 0 ?A = Some url1" "length url1 = length url" "take (length ?A) url1 = ?A"
    using room by (auto simp: url1_def store_bytes_Some)
  have below: "seg_length announce < capacity" using room by (simp add: word_less_nat_alt assms(2) len)
  then have pos: "unat (seg_length announce + 1) = length ?A + 1" by (simp add: unat_inc len)
  define url2 where "url2 = take (length ?A) url1 @ [?sep] @ drop (length ?A + 1) url1"
  have url2: "store_bytes url1 (length ?A) [?sep] = Some url2" "length url2 = length url"
      "take (length ?A + 1) url2 = ?A @ [?sep]"
    using room url1 by (auto simp: url2_def store_bytes_Some)
  obtain url3 p3 where url3: "append_all add_query_parameter_to_url url2 capacity (seg_length announce + 1) parameters =
      Some (True, url3, p3)" "length url3 = length url" "unat p3 = length ?A + 1 + length ?P"
      "take (unat p3) url3 = ?A @ [?sep] @ ?P"
    using url_writer.append_all_fits [of capacity url2 parameters "seg_length announce + 1"] assms(2,3) url2 pos room
    by auto
  have "\<exists>url4 p4. (if has_event then add_query_parameter_to_url url3 capacity p3 (bytes_of ''&event='', event)
        else Some (True, url3, p3)) = Some (True, url4, p4) \<and> length url4 = length url \<and>
      unat p4 = length url - 1 \<and> take (unat p4) url4 = ?A @ [?sep] @ ?P @ ?E"
  proof (cases has_event)
    case True
    have small: "length (parameter_text (bytes_of ''&event='', event)) < 2 ^ 62"
    proof -
      have "length (c_string (bytes_of ''&event='')) \<le> 7"
        unfolding c_string_def by (rule order_trans [OF length_takeWhile_le]) simp
      then show ?thesis using assms(4) by simp
    qed
    have fits: "unat p3 + length (parameter_text (bytes_of ''&event='', event)) \<le> length url3"
      using url3 room True by simp
    show ?thesis
      using url_writer.append_fits [of capacity url3, OF _ small fits] assms(2) url3 room True by auto
  qed (use url3 room in auto)
  then obtain url4 p4 where url4: "(if has_event then add_query_parameter_to_url url3 capacity p3 (bytes_of ''&event='', event)
        else Some (True, url3, p3)) = Some (True, url4, p4)" "length url4 = length url"
      "unat p4 = length url - 1" "take (unat p4) url4 = ?A @ [?sep] @ ?P @ ?E"
    by blast
  have "0 < length url" using room by simp
  then have "unat (capacity - 1) = unat p4"
    using assms(2) url4(3) by (subst unat_diff) (simp_all add: word_le_nat_alt Suc_le_eq)
  then have "p4 = capacity - 1" by (simp add: word_unat_eq_iff)
  moreover have "store_bytes url4 (unat p4) [0] = Some ((?A @ [?sep] @ ?P @ ?E) @ [0])"
    using url4 \<open>0 < length url\<close> by (simp add: store_bytes_def)
  ultimately show ?thesis
    using below url1 url2 url3 url4 read_segment [OF assms(1)] len
    by (simp add: fill_url_def Let_def separator_of_def not_le)
qed

lemma plain_literals [simp]:
  "c_string (bytes_of ''info_hash='') = bytes_of ''info_hash=''"
  "c_string (bytes_of ''&peer_id='') = bytes_of ''&peer_id=''"
  "c_string (bytes_of ''&port='') = bytes_of ''&port=''"
  "c_string (bytes_of ''&uploaded='') = bytes_of ''&uploaded=''"
  "c_string (bytes_of ''&downloaded='') = bytes_of ''&downloaded=''"
  "c_string (bytes_of ''&left='') = bytes_of ''&left=''"
  "c_string (bytes_of ''&compact='') = bytes_of ''&compact=''"
  "c_string (bytes_of ''&event='') = bytes_of ''&event=''"
  "c_string (bytes_of ''0'') = bytes_of ''0''" "c_string (bytes_of ''1'') = bytes_of ''1''"
  "c_string (bytes_of ''started'') = bytes_of ''started''"
  "c_string (bytes_of ''completed'') = bytes_of ''completed''"
  "c_string (bytes_of ''stopped'') = bytes_of ''stopped''"
  "c_string (bytes_of ''?info_hash=&peer_id=&port=&uploaded=&downloaded=&left=&compact=1'') =
     bytes_of ''?info_hash=&peer_id=&port=&uploaded=&downloaded=&left=&compact=1''"
  "c_string (bytes_of ''?info_hash=&peer_id=&port=&uploaded=&downloaded=&left=&compact=1&event='') =
     bytes_of ''?info_hash=&peer_id=&port=&uploaded=&downloaded=&left=&compact=1&event=''"
  "c_string [] = []"
  by code_simp+

lemma event_literals:
  "bytes_of ''&event='' @ bytes_of ''started'' = bytes_of ''&event=started''"
  "bytes_of ''&event='' @ bytes_of ''completed'' = bytes_of ''&event=completed''"
  "bytes_of ''&event='' @ bytes_of ''stopped'' = bytes_of ''&event=stopped''"
  by (simp_all add: bytes_of_def)

lemma event_text_spec:
  "event_text e = Some (has_event, event) \<Longrightarrow>
   event_parameter e = (if has_event then parameter_text (bytes_of ''&event='', event) else []) \<and>
   length event \<le> 9 \<and> c_string event = event \<and> (\<not> has_event \<longrightarrow> event = [])"
  by (cases e) (auto simp: event_text_def event_literals)

text \<open>What the callers of \<open>curl_easy_escape\<close> rely on: a C string, at most three characters a byte.\<close>

definition escape_documented :: "curl \<Rightarrow> bool" where
  "escape_documented curl \<longleftrightarrow>
     (\<forall>bs e. easy_escape curl bs = Some e \<longrightarrow> 0 \<notin> set e \<and> length e \<le> 3 * length bs)"

definition wf_request :: "tracker_request \<Rightarrow> bool" where
  "wf_request r \<longleftrightarrow> length (tr_info_hash r) = 20 \<and> length (tr_peer_id r) = 20"

definition parameters_of :: "byte list \<Rightarrow> byte list \<Rightarrow> tracker_request \<Rightarrow> (byte list \<times> byte list) list" where
  "parameters_of info_hash peer_id r =
     [(bytes_of ''info_hash='', info_hash), (bytes_of ''&peer_id='', peer_id),
      (bytes_of ''&port='', nat_text (unat (tr_port r))),
      (bytes_of ''&uploaded='', nat_text (unat (tr_uploaded r))),
      (bytes_of ''&downloaded='', nat_text (unat (tr_downloaded r))),
      (bytes_of ''&left='', nat_text (unat (tr_left r))),
      (bytes_of ''&compact='', if tr_compact r then bytes_of ''1'' else bytes_of ''0'')]"

definition lengths_of :: "size_t \<Rightarrow> byte list \<Rightarrow> byte list \<Rightarrow> tracker_request \<Rightarrow> bool \<Rightarrow> byte list \<Rightarrow> size_t list" where
  "lengths_of announce_length info_hash peer_id r has_event event =
     [announce_length, strlen info_hash, strlen peer_id, strlen (nat_text (unat (tr_port r))),
      strlen (nat_text (unat (tr_uploaded r))), strlen (nat_text (unat (tr_downloaded r))),
      strlen (nat_text (unat (tr_left r))),
      strlen (if has_event
              then bytes_of ''?info_hash=&peer_id=&port=&uploaded=&downloaded=&left=&compact=1&event=''
              else bytes_of ''?info_hash=&peer_id=&port=&uploaded=&downloaded=&left=&compact=1''),
      strlen event]"

lemma parameters_text:
  assumes "0 \<notin> set info_hash" "0 \<notin> set peer_id"
    and "event_text (tr_event r) = Some (has_event, event)"
  shows "announce @ [separator_of announce] @ concat (map parameter_text (parameters_of info_hash peer_id r)) @
      (if has_event then parameter_text (bytes_of ''&event='', event) else []) =
    announce_url_of announce info_hash peer_id r"
  using event_text_spec [OF assms(3)]
  by (simp add: announce_url_of_def parameters_of_def c_string_id assms(1,2))

text \<open>The capacity the code adds up is the length of the URL and its NUL.\<close>

lemma capacity_exact:
  assumes "0 \<notin> set info_hash" "0 \<notin> set peer_id" "length info_hash \<le> 60" "length peer_id \<le> 60"
    and "event_text (tr_event r) = Some (has_event, event)" "unat n = length announce"
  shows "1 + sum_list (map unat (lengths_of n info_hash peer_id r has_event event)) =
    length (announce_url_of announce info_hash peer_id r) + 1"
proof -
  note ev = event_text_spec [OF assms(5)]
  have s: "unat (strlen s) = length s" if "c_string s = s" "length s \<le> 80" for s
    using that unat_strlen [of s] by simp
  have numbers: "unat (strlen (nat_text (unat (tr_port r)))) = length (nat_text (unat (tr_port r)))"
    "unat (strlen (nat_text (unat (tr_uploaded r)))) = length (nat_text (unat (tr_uploaded r)))"
    "unat (strlen (nat_text (unat (tr_downloaded r)))) = length (nat_text (unat (tr_downloaded r)))"
    "unat (strlen (nat_text (unat (tr_left r)))) = length (nat_text (unat (tr_left r)))"
    using port_width [of "tr_port r"] count_width [of "tr_uploaded r"] count_width [of "tr_downloaded r"]
      count_width [of "tr_left r"] by (simp_all add: s)
  have strings: "unat (strlen info_hash) = length info_hash" "unat (strlen peer_id) = length peer_id"
    "unat (strlen event) = length event"
    using assms(1-4) ev by (simp_all add: s c_string_id)
  have static: "unat (strlen (if has_event
              then bytes_of ''?info_hash=&peer_id=&port=&uploaded=&downloaded=&left=&compact=1&event=''
              else bytes_of ''?info_hash=&peer_id=&port=&uploaded=&downloaded=&left=&compact=1'')) =
      (if has_event then 71 else 64)"
    by (simp add: s)
  show ?thesis
    using ev unfolding lengths_of_def
    by (simp add: numbers strings static assms(6) announce_url_of_def)
qed

lemma live_curl [heap_simps]:
  "live (acquire h) = live h + 1" "live (curl_free h) = live h - 1" "live (curl_easy_cleanup h) = live h - 1"
  by (simp_all add: acquire_def curl_free_def curl_easy_cleanup_def heap_simps)

lemma plentiful_acquire [simp]: "plentiful (acquire h) = plentiful h"
  by (simp add: plentiful_def acquire_def)

lemma plentiful_release [simp]:
  "plentiful (free is_null h) = plentiful h" "plentiful (curl_free h) = plentiful h"
  "plentiful (curl_easy_cleanup h) = plentiful h"
  by (simp_all add: plentiful_def curl_free_def curl_easy_cleanup_def)

text \<open>When the escaped strings and the event are there, only the capacity and the memory decide.\<close>

text \<open>The block that \<open>build_tracker_url\<close> allocates is filled exactly.\<close>

lemma fill_announce_url:
  assumes a: "valid_segment a"
    and ih: "0 \<notin> set ih" "length ih \<le> 60" and pid: "0 \<notin> set pid" "length pid \<le> 60"
    and ev: "event_text (tr_event r) = Some (has_event, event)"
    and c: "unat c = length (announce_url_of (seg_bytes a) ih pid r @ [0])" "length init = unat c"
  shows "fill_url a (parameters_of ih pid r) has_event event c init =
    Some (Some (announce_url_of (seg_bytes a) ih pid r @ [0]))"
proof -
  note widths = port_width [of "tr_port r"] count_width [of "tr_uploaded r"]
    count_width [of "tr_downloaded r"] count_width [of "tr_left r"]
  have small: "\<forall>x \<in> set (parameters_of ih pid r). length (parameter_text x) < 2 ^ 62"
    using ih pid widths by (auto simp: parameters_of_def c_string_id)
  have event: "length (c_string event) < 2 ^ 61" using event_text_spec [OF ev] by simp
  have url_eq: "seg_bytes a @ [separator_of (seg_bytes a)] @ concat (map parameter_text (parameters_of ih pid r)) @
      (if has_event then parameter_text (bytes_of ''&event='', event) else []) @ [0] =
      announce_url_of (seg_bytes a) ih pid r @ [0]"
    using parameters_text [OF ih(1) pid(1) ev, of "seg_bytes a"] by simp
  then have "length init = length (seg_bytes a) + 1 + length (concat (map parameter_text (parameters_of ih pid r))) +
      (if has_event then length (parameter_text (bytes_of ''&event='', event)) else 0) + 1"
    unfolding c by (auto simp flip: url_eq)
  then show ?thesis
    using fill_url_exact [OF a _ small event, of c init has_event] c(2) url_eq by simp
qed

lemma build_url_core:
  assumes a: "valid_segment a" "seg_length a > 0" and "escape_init curl"
    and ih: "easy_escape curl (tr_info_hash r) = Some ih" "0 \<notin> set ih" "length ih \<le> 60"
    and pid: "easy_escape curl (tr_peer_id r) = Some pid" "0 \<notin> set pid" "length pid \<le> 60"
    and ev: "event_text (tr_event r) = Some (has_event, event)"
  defines "url \<equiv> announce_url_of (seg_bytes a) ih pid r @ [0]"
  shows "\<exists>res h'. build_tracker_url curl (Some a) (Some r) h = Some (res, h') \<and>
    live h' = live h + (if res = None then 0 else 1) \<and>
    (res = None \<or> res = Some url) \<and>
    (plentiful h \<and> length url < 2 ^ 64 \<longrightarrow> res = Some url \<and> plentiful h')"
proof -
  have data: "seg_data a \<noteq> NULL" using a by (auto simp: valid_segment_def)
  have n: "unat (seg_length a) = length (seg_bytes a)" using length_seg_bytes [OF a(1)] by simp
  let ?ns = "lengths_of (seg_length a) ih pid r has_event event"
  have sum: "1 + sum_list (map unat ?ns) = length url"
    using capacity_exact [OF ih(2) pid(2) ih(3) pid(3) ev n] by (simp add: url_def)
  have guards: "\<not> 6 \<le> length (nat_text (unat (tr_port r)))" "\<not> 21 \<le> length (nat_text (unat (tr_uploaded r)))"
    "\<not> 21 \<le> length (nat_text (unat (tr_downloaded r)))" "\<not> 21 \<le> length (nat_text (unat (tr_left r)))"
    using port_width [of "tr_port r"] count_width [of "tr_uploaded r"]
      count_width [of "tr_downloaded r"] count_width [of "tr_left r"] by linarith+
  note code = build_tracker_url_def compose_tracker_url_def give_up_def Let_def snprintf_port snprintf_count data a(2) \<open>escape_init curl\<close> ih(1) pid(1) ev guards
  obtain g h1 where m: "malloc (acquire (acquire (acquire h))) = (g, h1)" by fastforce
  have good: "plentiful h \<Longrightarrow> g \<and> plentiful h1"
    using plentiful_malloc [of "acquire (acquire (acquire h))"] m by auto
  show ?thesis
  proof (cases "length url < 2 ^ 64")
    case True
    then obtain c where incr: "increased_by_all 1 ?ns = (True, c)" "unat c = length url"
      using increased_by_all_eq [of 1 ?ns] sum by auto
    have fill: "fill_url a (parameters_of ih pid r) has_event event c (map (uninitialised curl) [0..<unat c]) = Some (Some url)"
      unfolding url_def using incr(2) by (intro fill_announce_url [OF a(1) ih(2,3) pid(2,3) ev]) (simp_all add: url_def)
    show ?thesis
      using good m incr fill unfolding lengths_of_def parameters_of_def
      by (cases g) (auto simp: code heap_simps live_malloc [OF m] simp del: increased_by_all.simps)
  next
    case False
    then obtain c where incr: "increased_by_all 1 ?ns = (False, c)"
      using increased_by_all_eq [of 1 ?ns] sum by auto
    then show ?thesis
      using False unfolding lengths_of_def by (simp add: code heap_simps del: increased_by_all.simps)
  qed
qed

lemma build_url_total:
  assumes "valid_segment a" "escape_documented curl" "wf_request r"
  shows "\<exists>res h'. build_tracker_url curl (Some a) (Some r) h = Some (res, h') \<and>
    live h' = live h + (if res = None then 0 else 1) \<and>
    (\<forall>url. res = Some url \<longrightarrow> (\<exists>ih pid. easy_escape curl (tr_info_hash r) = Some ih \<and>
       easy_escape curl (tr_peer_id r) = Some pid \<and> url = announce_url_of (seg_bytes a) ih pid r @ [0]))"
proof -
  have esc: "0 \<notin> set e \<and> length e \<le> 60"
    if "easy_escape curl bs = Some e" "length bs = 20" for bs e
  proof -
    have "0 \<notin> set e \<and> length e \<le> 3 * length bs"
      using that(1) assms(2) unfolding escape_documented_def by blast
    then show ?thesis using that(2) by simp
  qed
  have data: "seg_data a \<noteq> NULL" using assms(1) by (auto simp: valid_segment_def)
  note code = build_tracker_url_def compose_tracker_url_def give_up_def Let_def data heap_simps
  consider "\<not> seg_length a > 0" | "\<not> escape_init curl"
    | "easy_escape curl (tr_info_hash r) = None" | "easy_escape curl (tr_peer_id r) = None"
    | ih pid where "seg_length a > 0" "escape_init curl"
        "easy_escape curl (tr_info_hash r) = Some ih" "easy_escape curl (tr_peer_id r) = Some pid"
    by blast
  then show ?thesis
  proof cases
    case (5 ih pid)
    have ih: "0 \<notin> set ih" "length ih \<le> 60" and pid: "0 \<notin> set pid" "length pid \<le> 60"
      using esc 5 assms(3) by (auto simp: wf_request_def)
    show ?thesis
    proof (cases "event_text (tr_event r)")
      case None
      then show ?thesis
        using 5 port_width [of "tr_port r"] count_width [of "tr_uploaded r"]
          count_width [of "tr_downloaded r"] count_width [of "tr_left r"]
        by (simp add: code snprintf_port snprintf_count)
    next
      case (Some e)
      then obtain has_event event where ev: "event_text (tr_event r) = Some (has_event, event)"
        by (cases e) simp
      show ?thesis
        using build_url_core [OF assms(1) 5(1,2,3) ih 5(4) pid ev, of h] 5 by auto
    qed
  qed (auto simp: code split: option.splits)
qed

section \<open>Collecting the response\<close>

text \<open>
  \<open>realloc\<close> keeps the old contents; the bytes it adds are those \<open>memcpy\<close> overwrites next, and
  are shown as zeros. Shrinking an existing block to no bytes has no defined result.
\<close>

definition write_chunk_to_tracker_response_buffer ::
  "ptr \<Rightarrow> size_t \<Rightarrow> size_t \<Rightarrow> tracker_response_buffer option \<Rightarrow> heap \<Rightarrow>
   (size_t \<times> tracker_response_buffer option \<times> heap) option" where
  "write_chunk_to_tracker_response_buffer chunk elem_size nmemb tracker_response_buffer h =
     (case tracker_response_buffer of
        None \<Rightarrow> Some (0, None, h)
      | Some response_buffer \<Rightarrow>
          let chunk_size = elem_size * nmemb in
          if rb_length response_buffer > SIZE_MAX - chunk_size then Some (0, Some response_buffer, h)
          else
            let new_buffer_length = rb_length response_buffer + chunk_size in
            if new_buffer_length = 0 \<and> rb_data response_buffer \<noteq> None then None
            else (case realloc (rb_data response_buffer = None) h of
                (False, h) \<Rightarrow> Some (0, Some response_buffer, h)
              | (True, h) \<Rightarrow>
                  let old = response_bytes response_buffer;
                      temp_buffer = old @ replicate (unat new_buffer_length - length old) 0 in do {
                    bytes \<leftarrow> read_bytes chunk (unat chunk_size);
                    data \<leftarrow> store_bytes temp_buffer (unat (rb_length response_buffer)) bytes;
                    Some (chunk_size, Some \<lparr>rb_data = Some data, rb_length = new_buffer_length\<rparr>, h)
                  }))"

text \<open>
  \<open>curl_easy_perform\<close> passes the chunks to the callback, each with size 1, and gives up when
  the callback takes fewer bytes than it was given.
\<close>

fun deliver :: "byte list list \<Rightarrow> tracker_response_buffer \<Rightarrow> heap \<Rightarrow> (bool \<times> tracker_response_buffer \<times> heap) option" where
  "deliver [] buffer h = Some (True, buffer, h)"
| "deliver (c # cs) buffer h = do {
     (taken, buffer, h) \<leftarrow> write_chunk_to_tracker_response_buffer (Ptr c 0) 1 (of_nat (length c)) (Some buffer) h;
     buffer \<leftarrow> buffer;
     if taken \<noteq> of_nat (length c) then Some (False, buffer, h)
     else deliver cs buffer h
   }"

definition tracker_announce ::
  "curl \<Rightarrow> bencode_segment option \<Rightarrow> tracker_request option \<Rightarrow> tracker_response_buffer option \<Rightarrow> heap \<Rightarrow>
   (bool \<times> tracker_response_buffer option \<times> heap) option" where
  "tracker_announce curl announce request out_response h =
     (if announce = None \<or> request = None \<or> out_response = None then Some (False, out_response, h)
      else if \<not> session_init curl then Some (False, out_response, h)
      else
        let h = acquire h;
            temp_response = \<lparr>rb_data = None, rb_length = 0\<rparr> in
        if \<not> set_write_function curl then Some (False, out_response, curl_easy_cleanup h)
        else if \<not> set_write_data curl then Some (False, out_response, curl_easy_cleanup h)
        else do {
          (tracker_url, h) \<leftarrow> build_tracker_url curl announce request h;
          case tracker_url of
            None \<Rightarrow> Some (False, out_response, curl_easy_cleanup h)
          | Some tracker_url \<Rightarrow>
              if \<not> set_url curl then Some (False, out_response, free False (curl_easy_cleanup h))
              else do {
                let h = free False h;
                let (chunks, transfer_ok) = easy_perform curl (c_string tracker_url);
                (delivered, temp_response, h) \<leftarrow> deliver chunks temp_response h;
                if \<not> (delivered \<and> transfer_ok)
                then Some (False, out_response, free (rb_data temp_response = None) (curl_easy_cleanup h))
                else if response_code curl \<noteq> Some 200
                then Some (False, out_response, free (rb_data temp_response = None) (curl_easy_cleanup h))
                else Some (True, Some temp_response, curl_easy_cleanup h)
              }
        })"

definition blocks :: "tracker_response_buffer \<Rightarrow> int" where
  "blocks b = (if rb_data b = None then 0 else 1)"

lemma write_chunk_step:
  assumes b: "consistent_response b" and c: "c \<noteq> [] \<or> rb_data b = None" "length c < 2 ^ 63"
  shows "\<exists>taken b' h'. write_chunk_to_tracker_response_buffer (Ptr c 0) 1 (of_nat (length c)) (Some b) h =
      Some (taken, Some b', h') \<and> consistent_response b' \<and> live h' = live h + blocks b' - blocks b \<and>
    (taken = of_nat (length c) \<longrightarrow> response_bytes b' = response_bytes b @ c) \<and>
    (taken \<noteq> of_nat (length c) \<longrightarrow> taken = 0 \<and> b' = b) \<and>
    (plentiful h \<and> length (response_bytes b) + length c < 2 ^ 64 \<longrightarrow> taken = of_nat (length c) \<and> plentiful h')"
proof -
  let ?n = "of_nat (length c) :: size_t"
  have n: "unat ?n = length c" using c(2) by (simp add: unat_of_nat_size)
  have full: "rb_length b > SIZE_MAX - ?n \<longleftrightarrow> \<not> unat (rb_length b) + length c < 2 ^ 64"
    using n c(2) unat_size_lt [of ?n] by (auto simp: word_less_nat_alt unat_diff)
  have zero: "?n = 0 \<longleftrightarrow> c = []" using n by (metis length_0_conv unat_0 unat_eq_zero)
  note code = write_chunk_to_tracker_response_buffer_def Let_def
  show ?thesis
  proof (cases "unat (rb_length b) + length c < 2 ^ 64")
    case True
    have len: "unat (rb_length b + ?n) = length (response_bytes b) + length c"
      using True b n by (simp add: unat_plus_bounded consistent_response_def)
    have grown: "\<not> (rb_length b + ?n = 0 \<and> rb_data b \<noteq> None)"
      using len c(1) by (metis add_is_0 length_0_conv unat_0)
    have store: "store_bytes (response_bytes b @ replicate (length c) 0) (unat (rb_length b)) c =
        Some (response_bytes b @ c)"
      using b by (simp add: store_bytes_def consistent_response_def)
    obtain g h1 where r: "realloc (rb_data b = None) h = (g, h1)" by fastforce
    have good: "plentiful h \<Longrightarrow> g \<and> plentiful h1" using plentiful_realloc [of h "rb_data b = None"] r by auto
    show ?thesis
    proof (cases g)
      case True
      then show ?thesis
        using good full \<open>unat (rb_length b) + length c < 2 ^ 64\<close> grown r store len n
        by (simp add: code consistent_response_def response_bytes_def [of "\<lparr>rb_data = _, rb_length = _\<rparr>"]
            blocks_def live_realloc [OF r])
    next
      case False
      then show ?thesis
        using good full \<open>unat (rb_length b) + length c < 2 ^ 64\<close> grown r zero b
        by (cases "c = []") (auto simp: code blocks_def live_realloc [OF r])
    qed
  next
    case False
    then have "\<not> length (response_bytes b) + length c < 2 ^ 64" using b by (simp add: consistent_response_def)
    then show ?thesis using False full b zero n by (cases "c = []") (auto simp: code)
  qed
qed

text \<open>
  What libcurl documents of its calls to the callback: at least one byte each, except for a
  single empty call when the transferred file is empty.
\<close>

definition perform_documented :: "curl \<Rightarrow> bool" where
  "perform_documented curl \<longleftrightarrow>
     (\<forall>url. (fst (easy_perform curl url) = [[]] \<or> [] \<notin> set (fst (easy_perform curl url))) \<and>
       (\<forall>c \<in> set (fst (easy_perform curl url)). length c < 2 ^ 63))"

lemma deliver_collects:
  assumes "consistent_response b" "[] \<notin> set cs" "\<forall>c \<in> set cs. length c < 2 ^ 63"
  shows "\<exists>ok b' h'. deliver cs b h = Some (ok, b', h') \<and> consistent_response b' \<and>
    live h' = live h + blocks b' - blocks b \<and> (ok \<longrightarrow> response_bytes b' = response_bytes b @ concat cs) \<and>
    (plentiful h \<and> length (response_bytes b) + length (concat cs) < 2 ^ 64 \<longrightarrow> ok \<and> plentiful h')"
  using assms
proof (induction cs arbitrary: b h)
  case (Cons c cs)
  obtain taken b1 h1 where step: "write_chunk_to_tracker_response_buffer (Ptr c 0) 1 (of_nat (length c)) (Some b) h =
      Some (taken, Some b1, h1)" "consistent_response b1" "live h1 = live h + blocks b1 - blocks b"
      "taken = of_nat (length c) \<longrightarrow> response_bytes b1 = response_bytes b @ c"
      "plentiful h \<and> length (response_bytes b) + length c < 2 ^ 64 \<longrightarrow> taken = of_nat (length c) \<and> plentiful h1"
    using write_chunk_step [of b c h] Cons.prems by auto
  show ?case
  proof (cases "taken = of_nat (length c)")
    case True
    then show ?thesis using Cons.IH [of b1 h1] Cons.prems step by fastforce
  next
    case False
    then show ?thesis using step by (intro exI [of _ False]) auto
  qed
qed auto

lemma deliver_documented:
  assumes "perform_documented curl"
  shows "\<exists>ok b' h'. deliver (fst (easy_perform curl url)) \<lparr>rb_data = None, rb_length = 0\<rparr> h = Some (ok, b', h') \<and>
    consistent_response b' \<and> live h' = live h + blocks b' \<and>
    (ok \<longrightarrow> response_bytes b' = concat (fst (easy_perform curl url))) \<and>
    (plentiful h \<and> length (concat (fst (easy_perform curl url))) < 2 ^ 64 \<longrightarrow> ok \<and> plentiful h')"
proof -
  let ?b = "\<lparr>rb_data = None, rb_length = 0\<rparr>"
  have b: "consistent_response ?b" "blocks ?b = 0" "response_bytes ?b = []"
    by (simp_all add: consistent_response_def response_bytes_def blocks_def)
  show ?thesis
  proof (cases "fst (easy_perform curl url) = [[]]")
    case True
    obtain taken b1 h1 where "write_chunk_to_tracker_response_buffer (Ptr [] 0) 1 0 (Some ?b) h = Some (taken, Some b1, h1)"
      "consistent_response b1" "live h1 = live h + blocks b1 - blocks ?b"
      "taken = 0 \<longrightarrow> response_bytes b1 = response_bytes ?b" "plentiful h \<longrightarrow> taken = 0 \<and> plentiful h1"
      using write_chunk_step [OF b(1), of "[]" h] b(3) by auto
    then show ?thesis using True b
      by (cases "taken = 0") (auto intro: exI [of _ True] exI [of _ False])
  next
    case False
    then have "[] \<notin> set (fst (easy_perform curl url))" "\<forall>c \<in> set (fst (easy_perform curl url)). length c < 2 ^ 63"
      using assms unfolding perform_documented_def by blast+
    then show ?thesis using deliver_collects [OF b(1)] b by fastforce
  qed
qed

lemma announce_run:
  assumes a: "valid_segment a" and curl: "escape_documented curl" "perform_documented curl" and r: "wf_request r"
  shows "\<exists>ok out h'. tracker_announce curl (Some a) (Some r) (Some old) h = Some (ok, Some out, h') \<and>
    (if ok then consistent_response out \<and> live h' = live h + blocks out \<and> response_code curl = Some 200 \<and>
       (\<exists>ih pid. easy_escape curl (tr_info_hash r) = Some ih \<and> easy_escape curl (tr_peer_id r) = Some pid \<and>
          response_bytes out =
            concat (fst (easy_perform curl (c_string (announce_url_of (seg_bytes a) ih pid r @ [0])))))
     else out = old \<and> live h' = live h)"
proof -
  note code = tracker_announce_def Let_def
  let ?h = "acquire h"
  obtain url h1 where build: "build_tracker_url curl (Some a) (Some r) ?h = Some (url, h1)"
    and h1: "live h1 = live ?h + (if url = None then 0 else 1)"
    and url: "\<forall>u. url = Some u \<longrightarrow> (\<exists>ih pid. easy_escape curl (tr_info_hash r) = Some ih \<and>
       easy_escape curl (tr_peer_id r) = Some pid \<and> u = announce_url_of (seg_bytes a) ih pid r @ [0])"
    using build_url_total [OF a curl(1) r, of ?h] by blast
  consider "\<not> session_init curl" | "\<not> set_write_function curl" | "\<not> set_write_data curl" | "url = None" | "\<not> set_url curl"
    | u where "session_init curl" "set_write_function curl" "set_write_data curl" "url = Some u" "set_url curl"
    by fastforce
  then show ?thesis
  proof cases
    case (6 u)
    obtain ih pid where u: "easy_escape curl (tr_info_hash r) = Some ih" "easy_escape curl (tr_peer_id r) = Some pid"
      "u = announce_url_of (seg_bytes a) ih pid r @ [0]"
      using url 6 by blast
    obtain cs good where perform: "easy_perform curl (c_string u) = (cs, good)" by fastforce
    obtain ok b h2 where b: "deliver cs \<lparr>rb_data = None, rb_length = 0\<rparr> (free False h1) = Some (ok, b, h2)"
      "consistent_response b" "live h2 = live h1 - 1 + blocks b" "ok \<longrightarrow> response_bytes b = concat cs"
      using deliver_documented [OF curl(2), of "c_string u" "free False h1"] perform by (auto simp: heap_simps)
    have live: "live h2 = live h + 1 + blocks b" using h1 b(3) 6 by (simp add: heap_simps)
    have run: "tracker_announce curl (Some a) (Some r) (Some old) h =
        (if \<not> (ok \<and> good) \<or> response_code curl \<noteq> Some 200
         then Some (False, Some old, free (rb_data b = None) (curl_easy_cleanup h2))
         else Some (True, Some b, curl_easy_cleanup h2))"
      using 6 build perform b(1) by (simp add: code)
    show ?thesis
    proof (cases "ok \<and> good \<and> response_code curl = Some 200")
      case True
      then show ?thesis using run b live u perform by (auto simp: heap_simps)
    next
      case False
      then show ?thesis using run live by (auto simp: heap_simps blocks_def)
    qed
  qed (use build h1 in \<open>cases url; auto simp: code heap_simps\<close>)+
qed

text \<open>What has to go well for the announcement to succeed.\<close>

definition curl_works :: "curl \<Rightarrow> bool" where
  "curl_works curl \<longleftrightarrow>
     session_init curl \<and> escape_init curl \<and> set_write_function curl \<and> set_write_data curl \<and> set_url curl \<and>
     response_code curl = Some 200 \<and> (\<forall>bs. easy_escape curl bs \<noteq> None) \<and> (\<forall>url. snd (easy_perform curl url))"

lemma url_fits:
  assumes a: "valid_segment a" "unat (seg_length a) < 2 ^ 62" and len: "length ih \<le> 60" "length pid \<le> 60"
    and ev: "event_text (tr_event r) = Some (has_event, event)"
  shows "length (announce_url_of (seg_bytes a) ih pid r @ [0]) < 2 ^ 64"
  using a(2) len event_text_spec [OF ev] port_width [of "tr_port r"] count_width [of "tr_uploaded r"]
    count_width [of "tr_downloaded r"] count_width [of "tr_left r"]
  by (simp add: announce_url_of_def length_seg_bytes [OF a(1)])

lemma announce_succeeds:
  assumes a: "valid_segment a" "0 < seg_length a" "unat (seg_length a) < 2 ^ 62"
    and curl: "escape_documented curl" "perform_documented curl" "curl_works curl"
    and r: "wf_request r" "\<forall>v. tr_event r \<noteq> EVENT_VALUE v" and h: "plentiful h"
    and answer: "\<And>url. concat (fst (easy_perform curl url)) = answer" "length answer < 2 ^ 64"
  shows "\<exists>out h'. tracker_announce curl (Some a) (Some r) (Some old) h = Some (True, Some out, h') \<and>
    consistent_response out \<and> response_bytes out = answer \<and> plentiful h'"
proof -
  obtain ih pid where e: "easy_escape curl (tr_info_hash r) = Some ih" "easy_escape curl (tr_peer_id r) = Some pid"
    using curl(3) unfolding curl_works_def by blast
  have ih: "0 \<notin> set ih" "length ih \<le> 3 * length (tr_info_hash r)"
    and pid: "0 \<notin> set pid" "length pid \<le> 3 * length (tr_peer_id r)"
    using curl(1) e unfolding escape_documented_def by blast+
  then have len: "length ih \<le> 60" "length pid \<le> 60" using r(1) by (simp_all add: wf_request_def)
  obtain has_event event where ev: "event_text (tr_event r) = Some (has_event, event)"
    using r(2) by (cases "tr_event r") (auto simp: event_text_def)
  have h1: "plentiful (acquire h)" using h by simp
  have init: "escape_init curl" using curl(3) by (simp add: curl_works_def)
  define url where "url = announce_url_of (seg_bytes a) ih pid r @ [0]"
  obtain h2 where build: "build_tracker_url curl (Some a) (Some r) (acquire h) = Some (Some url, h2)" "plentiful h2"
    using build_url_core [OF a(1,2) init e(1) ih(1) len(1) e(2) pid(1) len(2) ev, of "acquire h"] h1
      url_fits [OF a(1,3) len ev] by (auto simp: url_def)
  have h2: "plentiful (free False h2)" using build(2) by simp
  obtain cs where cs: "easy_perform curl (c_string url) = (cs, True)"
    using curl(3) by (metis curl_works_def prod.collapse)
  then have all: "concat cs = answer" using answer(1) [of "c_string url"] by simp
  obtain b h3 where "deliver cs \<lparr>rb_data = None, rb_length = 0\<rparr> (free False h2) = Some (True, b, h3)"
    "consistent_response b" "response_bytes b = answer" "plentiful h3"
    using deliver_documented [OF curl(2), of "c_string url" "free False h2"] h2 cs all answer(2) by auto
  then show ?thesis
    using curl(3) build(1) cs
    by (simp add: tracker_announce_def Let_def curl_works_def curl_easy_cleanup_def)
qed

section \<open>Properties\<close>

text \<open>A libcurl that percent-encodes every byte and whose transfers deliver two chunks.\<close>

definition percent_encode :: "byte list \<Rightarrow> byte list" where
  "percent_encode bs = concat (map (\<lambda>b. [37, 48 OR drop_bit 4 b, 64 OR (b AND 15)]) bs)"

definition sample_curl :: curl where
  "sample_curl =
     \<lparr>session_init = True, escape_init = True, easy_escape = (\<lambda>bs. Some (percent_encode bs)),
      set_write_function = True, set_write_data = True, set_url = True,
      easy_perform = (\<lambda>url. ([bytes_of ''d8:inter'', bytes_of ''vali900ee''], True)),
      response_code = Some 200, uninitialised = (\<lambda>i. 170)\<rparr>"

definition sample_request :: tracker_request where
  "sample_request =
     \<lparr>tr_info_hash = replicate 20 1, tr_peer_id = replicate 20 65, tr_port = 80, tr_uploaded = 0,
      tr_downloaded = 0, tr_left = 9, tr_compact = True, tr_event = TRACKER_EVENT_STARTED\<rparr>"

lemma nonzero_or: "(48 OR b :: byte) \<noteq> 0" "(64 OR b :: byte) \<noteq> 0"
proof -
  have "bit (48 OR b :: byte) 4" "bit (64 OR b :: byte) 6" by (simp_all add: bit_simps)
  then show "(48 OR b :: byte) \<noteq> 0" "(64 OR b :: byte) \<noteq> 0" by force+
qed

lemma sample_escape: "escape_documented sample_curl"
proof -
  have "length (percent_encode bs) = 3 * length bs" and "0 \<notin> set (percent_encode bs)" for bs
    by (induction bs) (auto simp: percent_encode_def nonzero_or [symmetric])
  then show ?thesis by (auto simp: escape_documented_def sample_curl_def)
qed

lemma sample_perform: "perform_documented sample_curl"
  by (simp add: perform_documented_def sample_curl_def bytes_of_def)

lemma sample_request_wf: "wf_request sample_request"
  by (simp add: wf_request_def sample_request_def)

text \<open>
  C15: \<open>build_tracker_url\<close> returns, for a non-empty announce URL, exactly the URL followed by
  \<open>?\<close> or \<open>&\<close> and the parameters \<open>info_hash\<close>, \<open>peer_id\<close>, \<open>port\<close>, \<open>uploaded\<close>, \<open>downloaded\<close>, \<open>left\<close>,
  \<open>compact\<close> and the event in this order, terminated by a NUL, in a block of exactly that size:
  every copy is inside the block and none of the checks made while filling it fails.
\<close>

theorem tracker_url_exact:
  assumes "valid_segment a" and "0 < seg_length a" and "unat (seg_length a) < 2 ^ 62"
    and "escape_documented curl" and "wf_request r" and "plentiful h" and "escape_init curl"
    and "easy_escape curl (tr_info_hash r) = Some ih" and "easy_escape curl (tr_peer_id r) = Some pid"
    and "\<forall>v. tr_event r \<noteq> EVENT_VALUE v"
  shows "\<exists>h'. build_tracker_url curl (Some a) (Some r) h =
      Some (Some (announce_url_of (seg_bytes a) ih pid r @ [0]), h') \<and> live h' = live h + 1"
proof -
  have ih: "0 \<notin> set ih" "length ih \<le> 3 * length (tr_info_hash r)"
    and pid: "0 \<notin> set pid" "length pid \<le> 3 * length (tr_peer_id r)"
    using assms(4,8,9) unfolding escape_documented_def by blast+
  have len: "length ih \<le> 60" "length pid \<le> 60" using ih pid assms(5) by (simp_all add: wf_request_def)
  obtain has_event event where ev: "event_text (tr_event r) = Some (has_event, event)"
    using assms(10) by (cases "tr_event r") (auto simp: event_text_def)
  have "length (announce_url_of (seg_bytes a) ih pid r @ [0]) < 2 ^ 64"
    by (rule url_fits [OF assms(1,3) len ev])
  then show ?thesis
    using build_url_core [OF assms(1,2,7,8) ih(1) len(1) assms(9) pid(1) len(2) ev, of h] assms(6) by auto
qed

theorem tracker_url_exact_witness:
  "\<exists>h'. build_tracker_url sample_curl (Some (segment_of (bytes_of ''http://t/a?k''))) (Some sample_request) fresh_heap =
     Some (Some (announce_url_of (bytes_of ''http://t/a?k'') (percent_encode (replicate 20 1))
        (percent_encode (replicate 20 65)) sample_request @ [0]), h') \<and> live h' = 1"
proof -
  let ?a = "segment_of (bytes_of ''http://t/a?k'')"
  have a: "valid_segment ?a" "seg_bytes ?a = bytes_of ''http://t/a?k''" "unat (seg_length ?a) = 12"
    using segment_of_valid [of "bytes_of ''http://t/a?k''"] by simp_all
  then have "0 < seg_length ?a" by (simp add: word_less_nat_alt)
  then show ?thesis
    using tracker_url_exact [OF a(1) _ _ sample_escape sample_request_wf plentiful_fresh] a
    by (simp add: sample_curl_def sample_request_def fresh_heap_def)
qed

text \<open>
  C16: \<open>tracker_announce\<close> returns whatever libcurl answers; on success the status is 200, the
  response is the concatenation of the received chunks with its length, and only its block is
  left allocated; on failure the output is untouched and every handle, string and block is
  given back.
\<close>

theorem tracker_announce_exact:
  assumes "valid_segment a" and "escape_documented curl" and "perform_documented curl" and "wf_request r"
  shows "\<exists>ok out h'. tracker_announce curl (Some a) (Some r) (Some old) h = Some (ok, Some out, h') \<and>
    (if ok then consistent_response out \<and> live h' = live h + blocks out \<and> response_code curl = Some 200 \<and>
       (\<exists>ih pid. easy_escape curl (tr_info_hash r) = Some ih \<and> easy_escape curl (tr_peer_id r) = Some pid \<and>
          response_bytes out =
            concat (fst (easy_perform curl (c_string (announce_url_of (seg_bytes a) ih pid r @ [0])))))
     else out = old \<and> live h' = live h)"
  by (rule announce_run [OF assms])

definition empty_response :: tracker_response_buffer where
  "empty_response = \<lparr>rb_data = None, rb_length = 0\<rparr>"

lemma sample_works: "curl_works sample_curl"
  by (simp add: curl_works_def sample_curl_def)

lemma sample_transfer: "concat (fst (easy_perform sample_curl url)) = bytes_of ''d8:intervali900ee''"
  by (simp add: sample_curl_def bytes_of_def)

theorem tracker_announce_exact_witness:
  "\<exists>out h'. tracker_announce sample_curl (Some (segment_of (bytes_of ''u''))) (Some sample_request)
      (Some empty_response) fresh_heap = Some (True, Some out, h') \<and>
    response_bytes out = bytes_of ''d8:intervali900ee'' \<and> live h' = 1"
proof -
  let ?a = "segment_of (bytes_of ''u'')"
  have a: "valid_segment ?a" "unat (seg_length ?a) = 1" using segment_of_valid [of "bytes_of ''u''"] by simp_all
  then have "0 < seg_length ?a" by (simp add: word_less_nat_alt)
  then obtain out h' where run: "tracker_announce sample_curl (Some ?a) (Some sample_request)
      (Some empty_response) fresh_heap = Some (True, Some out, h')" "response_bytes out = bytes_of ''d8:intervali900ee''"
    using announce_succeeds [OF a(1) _ _ sample_escape sample_perform sample_works sample_request_wf _ plentiful_fresh
        sample_transfer, of empty_response] a(2) by (auto simp: sample_request_def)
  have "rb_data out \<noteq> None" using run(2) by (cases "rb_data out") (simp_all add: response_bytes_def bytes_of_def)
  then have "blocks out = 1" by (simp add: blocks_def)
  then show ?thesis
    using tracker_announce_exact [OF a(1) sample_escape sample_perform sample_request_wf, of empty_response fresh_heap] run
    by (auto simp: fresh_heap_def split: if_splits)
qed

end
