(* ===== verification/Wire_Socket.thy ===== *)
theory Wire_Socket
  imports Loco_Prelude
begin

text \<open>
  The socket under src/peer_connection.c. A connected socket is a script of what the kernel is
  going to answer: to \<open>recv\<close>, data that has arrived (in fragments of any size), an interruption
  by a signal, an error, or the end of the stream; to \<open>send\<close>, how many bytes it takes, an
  interruption or an error. After its script \<open>recv\<close> reports the end of the stream and \<open>send\<close>
  takes everything. \<open>recv_all\<close> and \<open>send_all\<close> are the loops around the two calls; the file has
  four copies of the first and three of the second.
\<close>

section \<open>The system calls\<close>

datatype recv_event = Data "byte list" | Recv_Interrupted | Recv_Failed | Closed

datatype send_event = Takes nat | Send_Interrupted | Send_Failed

record socket =
  sk_rx :: "recv_event list"
  sk_tx :: "send_event list"
  sk_sent :: "byte list"

text \<open>
  A result of -1 is split by \<open>errno\<close>; \<open>Received []\<close> is the result 0, \<open>Sent n\<close> a result \<open>n \<ge> 0\<close>.
\<close>

datatype recv_result = Received "byte list" | Recv_EINTR | Recv_Error

datatype send_result = Sent nat | Send_EINTR | Send_Error

text \<open>\<open>recv\<close> into room for \<open>n\<close> bytes; data that does not fit stays for the next call.\<close>

fun recv :: "nat \<Rightarrow> recv_event list \<Rightarrow> recv_result \<times> recv_event list" where
  "recv n [] = (Received [], [])"
| "recv n (Data bs # rx) =
     (if length bs \<le> n then (Received bs, rx) else (Received (take n bs), Data (drop n bs) # rx))"
| "recv n (Recv_Interrupted # rx) = (Recv_EINTR, rx)"
| "recv n (Recv_Failed # rx) = (Recv_Error, rx)"
| "recv n (Closed # rx) = (Received [], Closed # rx)"

definition send :: "byte list \<Rightarrow> socket \<Rightarrow> send_result \<times> socket" where
  "send bs s =
     (case sk_tx s of
        [] \<Rightarrow> (Sent (length bs), s\<lparr>sk_sent := sk_sent s @ bs\<rparr>)
      | Takes k # tx \<Rightarrow> (Sent (min k (length bs)), s\<lparr>sk_tx := tx, sk_sent := sk_sent s @ take k bs\<rparr>)
      | Send_Interrupted # tx \<Rightarrow> (Send_EINTR, s\<lparr>sk_tx := tx\<rparr>)
      | Send_Failed # tx \<Rightarrow> (Send_Error, s\<lparr>sk_tx := tx\<rparr>))"

text \<open>What is left of the script: it shrinks with every call that gets anything done.\<close>

fun script_size :: "recv_event list \<Rightarrow> nat" where
  "script_size [] = 0"
| "script_size (Data bs # rx) = Suc (length bs) + script_size rx"
| "script_size (_ # rx) = Suc (script_size rx)"

lemma recv_shrinks:
  "recv n rx = (r, rx') \<Longrightarrow> 0 < n \<Longrightarrow> r \<noteq> Received [] \<Longrightarrow> script_size rx' < script_size rx"
  by (induction n rx rule: recv.induct) (auto split: if_splits)

lemma recv_never_grows: "recv n rx = (r, rx') \<Longrightarrow> script_size rx' \<le> script_size rx"
  by (induction n rx rule: recv.induct) (auto split: if_splits)

lemma recv_room: "recv n rx = (Received bs, rx') \<Longrightarrow> length bs \<le> n"
  by (induction n rx rule: recv.induct) (auto split: if_splits)

section \<open>The receiving loop\<close>

text \<open>
  \<open>while (received_total < total)\<close>: the result says whether the buffer was filled.
\<close>

function recv_all :: "nat \<Rightarrow> byte list \<Rightarrow> nat \<Rightarrow> recv_event list \<Rightarrow> (bool \<times> byte list \<times> recv_event list) option" where
  "recv_all tot buffer received_total rx =
     (if received_total < tot then
        (case recv (tot - received_total) rx of
           (Received received, rx') \<Rightarrow>
             if received = [] then Some (False, buffer, rx')
             else do {
               buffer \<leftarrow> store_bytes buffer received_total received;
               recv_all tot buffer (received_total + length received) rx'
             }
         | (Recv_EINTR, rx') \<Rightarrow> recv_all tot buffer received_total rx'
         | (Recv_Error, rx') \<Rightarrow> Some (False, buffer, rx'))
      else Some (True, buffer, rx))"
  by pat_completeness auto
termination
  by (relation "measure (\<lambda>(tot, buffer, received_total, rx). script_size rx)")
    (auto dest!: sym [of _ "recv _ _"] dest: recv_shrinks)

declare recv_all.simps [simp del]

text \<open>The bytes the peer gets through before the stream ends or breaks.\<close>

fun stream :: "recv_event list \<Rightarrow> byte list" where
  "stream [] = []"
| "stream (Data bs # rx) = (if bs = [] then [] else bs @ stream rx)"
| "stream (Recv_Interrupted # rx) = stream rx"
| "stream (Recv_Failed # rx) = []"
| "stream (Closed # rx) = []"

text \<open>
  A script that says how the connection ends. After a script that does not, the model lets the stream
  end, whereas a real peer may stay silent and keep \<open>recv\<close> waiting; once the end is in the script, what
  would come after it makes no difference.
\<close>

definition ends :: "recv_event list \<Rightarrow> bool" where
  "ends rx \<longleftrightarrow> Closed \<in> set rx \<or> Recv_Failed \<in> set rx"

lemma stream_ends: "ends rx \<Longrightarrow> stream (rx @ later) = stream rx"
  by (induction rx rule: stream.induct) (auto simp: ends_def)

lemma stream_recv:
  "recv n rx = (Received bs, rx') \<Longrightarrow> bs \<noteq> [] \<Longrightarrow> stream rx = bs @ stream rx'"
  "recv n rx = (Recv_EINTR, rx') \<Longrightarrow> stream rx' = stream rx"
  "recv n rx = (Recv_Error, rx') \<Longrightarrow> stream rx = []"
  "recv n rx = (Received [], rx') \<Longrightarrow> 0 < n \<Longrightarrow> stream rx = []"
  by (induction n rx rule: recv.induct) (auto split: if_splits)

text \<open>A fragment goes behind what is already in the buffer.\<close>

lemma recv_all_fragment:
  assumes more: "received_total < tot" and r: "recv (tot - received_total) rx = (Received bs, rx1)" and bs: "bs \<noteq> []"
    and buffer: "length buffer = tot"
  obtains b where "store_bytes buffer received_total bs = Some b" "length b = tot"
    "recv_all tot buffer received_total rx = recv_all tot b (received_total + length bs) rx1"
    "take (received_total + length bs) b = take received_total buffer @ bs" "received_total + length bs \<le> tot"
    "stream rx = bs @ stream rx1" "script_size rx1 < script_size rx"
proof -
  have room: "length bs \<le> tot - received_total" by (rule recv_room [OF r])
  let ?b = "take received_total buffer @ bs @ drop (received_total + length bs) buffer"
  have store: "store_bytes buffer received_total bs = Some ?b"
    using room buffer more by (auto simp: store_bytes_def)
  then have "recv_all tot buffer received_total rx = recv_all tot ?b (received_total + length bs) rx1"
    using more r bs by (subst recv_all.simps) simp
  moreover have "script_size rx1 < script_size rx" using recv_shrinks [OF r] more bs by simp
  ultimately show thesis
    using that [of ?b] store room more buffer stream_recv(1) [OF r bs] by simp
qed

text \<open>
  The loop depends on the fragments only through the stream: it fills the buffer with the next
  bytes if there are enough of them, and never writes outside it.
\<close>

lemma recv_all_stream:
  assumes "length buffer = tot" "received_total \<le> tot"
  shows "\<exists>buffer' rx'. recv_all tot buffer received_total rx =
      Some (tot - received_total \<le> length (stream rx), buffer', rx') \<and> length buffer' = tot \<and>
    script_size rx' \<le> script_size rx \<and>
    (tot - received_total \<le> length (stream rx) \<longrightarrow>
       buffer' = take received_total buffer @ take (tot - received_total) (stream rx) \<and>
       stream rx' = drop (tot - received_total) (stream rx) \<and>
       (received_total < tot \<longrightarrow> script_size rx' < script_size rx))"
  using assms
proof (induction tot buffer received_total rx rule: recv_all.induct)
  case (1 tot buffer received_total rx)
  show ?case
  proof (cases "received_total < tot")
    case False
    then show ?thesis using 1(3,4) by (simp add: recv_all.simps)
  next
    case more: True
    obtain r rx1 where r: "recv (tot - received_total) rx = (r, rx1)" by fastforce
    consider (fragment) bs where "r = Received bs" "bs \<noteq> []" | (stops) "r = Received [] \<or> r = Recv_Error"
      | (interrupted) "r = Recv_EINTR" by (cases r) auto
    then show ?thesis
    proof cases
      case fragment
      obtain b where b: "store_bytes buffer received_total bs = Some b" "length b = tot"
        "recv_all tot buffer received_total rx = recv_all tot b (received_total + length bs) rx1"
        "take (received_total + length bs) b = take received_total buffer @ bs" "received_total + length bs \<le> tot"
        "stream rx = bs @ stream rx1" "script_size rx1 < script_size rx"
        using recv_all_fragment [OF more r [unfolded fragment(1)] fragment(2) 1(3)] .
      define k where "k = tot - (received_total + length bs)"
      have k: "tot - received_total = length bs + k" using b(5) by (simp add: k_def)
      obtain b2 rx2 where "recv_all tot b (received_total + length bs) rx1 = Some (k \<le> length (stream rx1), b2, rx2)"
        "length b2 = tot" "script_size rx2 \<le> script_size rx1"
        "k \<le> length (stream rx1) \<longrightarrow> b2 = (take received_total buffer @ bs) @ take k (stream rx1) \<and>
           stream rx2 = drop k (stream rx1)"
        using 1(1) [OF more r [symmetric] fragment b(1,2,5)] unfolding k_def b(4) by blast
      then show ?thesis unfolding b(3,6) k using b(7) by simp
    next
      case stops
      then have "recv_all tot buffer received_total rx = Some (False, buffer, rx1)" "stream rx = []"
        using more r stream_recv(3,4) [of "tot - received_total" rx rx1] by (auto simp: recv_all.simps [of tot buffer])
      then show ?thesis using more 1(3) recv_never_grows [OF r] by simp
    next
      case interrupted
      then have "recv_all tot buffer received_total rx = recv_all tot buffer received_total rx1"
        using more r by (subst recv_all.simps) simp
      then show ?thesis
        using 1(2) [OF more r [symmetric] interrupted] 1(3,4) stream_recv(2) [OF r [unfolded interrupted]]
          recv_shrinks [OF r] interrupted more by fastforce
    qed
  qed
qed

section \<open>Reading from a stream\<close>

text \<open>
  What a protocol needs of the receiving side: a read of \<open>n\<close> bytes returns the next \<open>n\<close> bytes
  of the stream or fails when there are fewer, and a read that gets something leaves less.
\<close>

locale byte_stream =
  fixes read :: "nat \<Rightarrow> 'c \<Rightarrow> (byte list option \<times> 'c) option"
    and content :: "'c \<Rightarrow> byte list"
    and left :: "'c \<Rightarrow> nat"
  assumes read_enough: "n \<le> length (content c) \<Longrightarrow>
      \<exists>c'. read n c = Some (Some (take n (content c)), c') \<and> content c' = drop n (content c)"
    and read_short: "length (content c) < n \<Longrightarrow> \<exists>c'. read n c = Some (None, c')"
    and read_shrinks: "read n c = Some (Some bs, c') \<Longrightarrow> 0 < n \<Longrightarrow> left c' < left c"
    and read_bounded: "read n c = Some (r, c') \<Longrightarrow> left c' \<le> left c"
begin

lemma read_cases:
  obtains (short) c' where "read n c = Some (None, c')" "length (content c) < n" "left c' \<le> left c"
  | (enough) c' where "read n c = Some (Some (take n (content c)), c')" "n \<le> length (content c)"
      "content c' = drop n (content c)" "left c' \<le> left c" "0 < n \<Longrightarrow> left c' < left c"
  using read_enough [of n c] read_short [of c n] read_shrinks [of n c] read_bounded [of n c]
  by (metis not_le)

text \<open>A field followed by more data is read back exactly, however the data arrives.\<close>

lemma read_field:
  "content c = field @ rest \<Longrightarrow>
   \<exists>c'. read (length field) c = Some (Some field, c') \<and> content c' = rest \<and> (field \<noteq> [] \<longrightarrow> left c' < left c)"
  using read_enough [of "length field" c] read_shrinks [of "length field" c] by auto

end

text \<open>A loop over a zeroed buffer, as a read.\<close>

definition recv_exact :: "nat \<Rightarrow> recv_event list \<Rightarrow> (byte list option \<times> recv_event list) option" where
  "recv_exact n rx = do {
     (filled, buffer, rx) \<leftarrow> recv_all n (replicate n 0) 0 rx;
     Some (if filled then Some buffer else None, rx)
   }"

lemma recv_exact_run:
  "\<exists>rx'. recv_exact n rx = Some (if n \<le> length (stream rx) then Some (take n (stream rx)) else None, rx') \<and>
     script_size rx' \<le> script_size rx \<and>
     (n \<le> length (stream rx) \<longrightarrow> stream rx' = drop n (stream rx) \<and> (0 < n \<longrightarrow> script_size rx' < script_size rx))"
  using recv_all_stream [of "replicate n 0" n 0 rx] by (auto simp: recv_exact_def)

interpretation wire: byte_stream recv_exact stream script_size
proof unfold_locales
  fix n c bs c' r
  show "n \<le> length (stream c) \<Longrightarrow>
      \<exists>c'. recv_exact n c = Some (Some (take n (stream c)), c') \<and> stream c' = drop n (stream c)"
    and "length (stream c) < n \<Longrightarrow> \<exists>c'. recv_exact n c = Some (None, c')"
    using recv_exact_run [of n c] by auto
  show "recv_exact n c = Some (Some bs, c') \<Longrightarrow> 0 < n \<Longrightarrow> script_size c' < script_size c"
    and "recv_exact n c = Some (r, c') \<Longrightarrow> script_size c' \<le> script_size c"
    using recv_exact_run [of n c] by (auto split: if_splits)
qed

section \<open>The sending loop\<close>

function send_all :: "byte list \<Rightarrow> nat \<Rightarrow> socket \<Rightarrow> bool \<times> socket" where
  "send_all buffer send_total s =
     (if send_total < length buffer then
        (case send (drop send_total buffer) s of
           (Sent sent, s') \<Rightarrow> if sent = 0 then (False, s') else send_all buffer (send_total + sent) s'
         | (Send_EINTR, s') \<Rightarrow> send_all buffer send_total s'
         | (Send_Error, s') \<Rightarrow> (False, s'))
      else (True, s))"
  by pat_completeness auto
termination
  by (relation "measure (\<lambda>(buffer, send_total, s). length (sk_tx s) + (length buffer - send_total))")
    (auto simp: send_def split: list.splits send_event.splits)

declare send_all.simps [simp del]

text \<open>A kernel that never reports an error to \<open>send\<close>.\<close>

definition sends_ready :: "send_event list \<Rightarrow> bool" where
  "sends_ready tx \<longleftrightarrow> list_all (\<lambda>e. e \<noteq> Send_Failed \<and> e \<noteq> Takes 0) tx"

text \<open>One call takes a part of the message, or nothing.\<close>

lemma send_once:
  assumes "send bs s = (r, s')"
  shows "sk_rx s' = sk_rx s"
    and "r = Sent n \<Longrightarrow> n \<le> length bs \<and> sk_sent s' = sk_sent s @ take n bs"
    and "r = Send_EINTR \<or> r = Send_Error \<Longrightarrow> sk_sent s' = sk_sent s"
    and "sends_ready (sk_tx s) \<Longrightarrow> sends_ready (sk_tx s') \<and> r \<noteq> Send_Error \<and> (bs \<noteq> [] \<longrightarrow> r \<noteq> Sent 0)"
  using assms by (auto simp: send_def sends_ready_def min_def split: list.splits send_event.splits if_splits)

text \<open>
  The loop sends the rest of the message, in order and once, or reports failure after a proper
  part of it.
\<close>

lemma send_all_spec:
  assumes "send_total \<le> length buffer"
  shows "\<exists>ok s' m. send_all buffer send_total s = (ok, s') \<and> sk_rx s' = sk_rx s \<and>
    sk_sent s' = sk_sent s @ take m (drop send_total buffer) \<and>
    (ok \<longrightarrow> send_total + m = length buffer) \<and> (\<not> ok \<longrightarrow> send_total + m < length buffer) \<and>
    (sends_ready (sk_tx s) \<longrightarrow> ok \<and> sends_ready (sk_tx s'))"
  using assms
proof (induction buffer send_total s rule: send_all.induct)
  case (1 buffer send_total s)
  show ?case
  proof (cases "send_total < length buffer")
    case False
    then show ?thesis using 1(3)
      by (intro exI [of _ True] exI [of _ s] exI [of _ 0]) (subst send_all.simps, simp)
  next
    case more: True
    obtain r s1 where r: "send (drop send_total buffer) s = (r, s1)" by fastforce
    note once = send_once [OF r]
    consider (part) n where "r = Sent n" "n \<noteq> 0" | (stops) "r = Sent 0 \<or> r = Send_Error"
      | (interrupted) "r = Send_EINTR" by (cases r) auto
    then show ?thesis
    proof cases
      case part
      have n: "n \<le> length buffer - send_total" "sk_sent s1 = sk_sent s @ take n (drop send_total buffer)"
        using once(2) [OF part(1)] by simp_all
      have "send_total + n \<le> length buffer" using n(1) more by simp
      then obtain ok s2 m where rest: "send_all buffer (send_total + n) s1 = (ok, s2)" "sk_rx s2 = sk_rx s1"
        "sk_sent s2 = sk_sent s1 @ take m (drop (send_total + n) buffer)"
        "ok \<longrightarrow> send_total + n + m = length buffer" "\<not> ok \<longrightarrow> send_total + n + m < length buffer"
        "sends_ready (sk_tx s1) \<longrightarrow> ok \<and> sends_ready (sk_tx s2)"
        using 1(1) [OF more r [symmetric] part] by blast
      have "send_all buffer send_total s = (ok, s2)"
        using more r part rest(1) by (subst send_all.simps) simp
      moreover have "sk_sent s2 = sk_sent s @ take (n + m) (drop send_total buffer)"
        using rest(3) n by (simp add: take_add add.commute [of n send_total])
      ultimately show ?thesis
        using rest once(1,4) by (intro exI [of _ ok] exI [of _ s2] exI [of _ "n + m"]) auto
    next
      case stops
      then have "send_all buffer send_total s = (False, s1)" "sk_sent s1 = sk_sent s"
        using more r once(2,3) by (subst send_all.simps, auto)+
      then show ?thesis
        using more stops once(1,4) by (intro exI [of _ False] exI [of _ s1] exI [of _ 0]) auto
    next
      case interrupted
      then have "send_all buffer send_total s = send_all buffer send_total s1"
        using more r by (subst send_all.simps) simp
      then show ?thesis
        using 1(2) [OF more r [symmetric] interrupted 1(3)] once(1,3,4) interrupted by auto
    qed
  qed
qed

end
