(* ===== verification/Peer_Messages.thy ===== *)
theory Peer_Messages
  imports Wire_Socket Buffer_Writer Tracker_Response
begin

text \<open>
  The peer protocol of src/peer_connection.c: connecting (\<open>connect_to_peer\<close>), the handshake
  (\<open>build_handshake\<close>, \<open>validate_handshake_response\<close>, \<open>handshake_with_peer\<close>), the messages the
  client sends (\<open>peer_send_interested\<close>, \<open>peer_send_request\<close>) and the framing of those it receives
  (\<open>receive_peer_wire_message\<close>, \<open>free_peer_wire_message\<close>).

  A frame is what a message means on the wire; \<open>parse_frame\<close> says which bytes are one, and the
  receiving function is shown to do the same on any socket.
\<close>

section \<open>Structures\<close>

datatype message_id =
    PEER_MESSAGE_CHOKE | PEER_MESSAGE_UNCHOKE | PEER_MESSAGE_INTERESTED | PEER_MESSAGE_NOT_INTERESTED
  | PEER_MESSAGE_HAVE | PEER_MESSAGE_BITFIELD | PEER_MESSAGE_REQUEST | PEER_MESSAGE_PIECE
  | PEER_MESSAGE_CANCEL | PEER_MESSAGE_INVALID

text \<open>The constants of the enumeration, and the cast from a received byte below 9.\<close>

fun message_code :: "message_id \<Rightarrow> byte" where
  "message_code PEER_MESSAGE_CHOKE = 0"
| "message_code PEER_MESSAGE_UNCHOKE = 1"
| "message_code PEER_MESSAGE_INTERESTED = 2"
| "message_code PEER_MESSAGE_NOT_INTERESTED = 3"
| "message_code PEER_MESSAGE_HAVE = 4"
| "message_code PEER_MESSAGE_BITFIELD = 5"
| "message_code PEER_MESSAGE_REQUEST = 6"
| "message_code PEER_MESSAGE_PIECE = 7"
| "message_code PEER_MESSAGE_CANCEL = 8"
| "message_code PEER_MESSAGE_INVALID = 9"

definition message_id_of :: "byte \<Rightarrow> message_id" where
  "message_id_of b =
     [PEER_MESSAGE_CHOKE, PEER_MESSAGE_UNCHOKE, PEER_MESSAGE_INTERESTED, PEER_MESSAGE_NOT_INTERESTED,
      PEER_MESSAGE_HAVE, PEER_MESSAGE_BITFIELD, PEER_MESSAGE_REQUEST, PEER_MESSAGE_PIECE,
      PEER_MESSAGE_CANCEL, PEER_MESSAGE_INVALID] ! unat b"

lemma message_id_of_code [simp]: "message_id_of (message_code i) = i"
  by (cases i) (simp_all add: message_id_of_def)

lemma message_code_of_id: "b < 9 \<Longrightarrow> message_code (message_id_of b) = b \<and> message_id_of b \<noteq> PEER_MESSAGE_INVALID"
proof -
  assume "b < 9"
  then have "unat b < 9" by (simp add: word_less_nat_alt)
  then have "unat b \<in> {0, 1, 2, 3, 4, 5, 6, 7, 8}" by auto
  then have "b \<in> {0, 1, 2, 3, 4, 5, 6, 7, 8}"
    by (auto simp: word_unat_eq_iff)
  then show ?thesis by (auto simp: message_id_of_def)
qed

lemma message_code_less: "message_code i < 9 \<longleftrightarrow> i \<noteq> PEER_MESSAGE_INVALID"
  by (cases i) simp_all

record peer_wire_message =
  msg_id :: message_id
  msg_payload :: "byte list option"
  msg_payload_length :: size_t
  msg_is_keep_alive :: bool

definition blank_message :: peer_wire_message where
  "blank_message = \<lparr>msg_id = PEER_MESSAGE_INVALID, msg_payload = None, msg_payload_length = 0,
     msg_is_keep_alive = False\<rparr>"

definition free_peer_wire_message :: "peer_wire_message \<Rightarrow> heap \<Rightarrow> peer_wire_message \<times> heap" where
  "free_peer_wire_message message h = (blank_message, free (msg_payload message = None) h)"

abbreviation MAX_PAYLOAD_LENGTH :: size_t where "MAX_PAYLOAD_LENGTH \<equiv> 1048576"

definition is_valid_payload_length_for_message :: "size_t \<Rightarrow> message_id \<Rightarrow> bool" where
  "is_valid_payload_length_for_message payload_length message_id =
     (case message_id of
        PEER_MESSAGE_CHOKE \<Rightarrow> payload_length = 0
      | PEER_MESSAGE_UNCHOKE \<Rightarrow> payload_length = 0
      | PEER_MESSAGE_INTERESTED \<Rightarrow> payload_length = 0
      | PEER_MESSAGE_NOT_INTERESTED \<Rightarrow> payload_length = 0
      | PEER_MESSAGE_HAVE \<Rightarrow> payload_length = 4
      | PEER_MESSAGE_REQUEST \<Rightarrow> payload_length = 12
      | PEER_MESSAGE_CANCEL \<Rightarrow> payload_length = 12
      | PEER_MESSAGE_PIECE \<Rightarrow> payload_length \<ge> 8 \<and> payload_length \<le> 16392
      | PEER_MESSAGE_BITFIELD \<Rightarrow> True
      | PEER_MESSAGE_INVALID \<Rightarrow> False)"

section \<open>Receiving a message\<close>

definition socket_recv :: "nat \<Rightarrow> socket \<Rightarrow> (byte list option \<times> socket) option" where
  "socket_recv n s = do {
     (r, rx) \<leftarrow> recv_exact n (sk_rx s);
     Some (r, s\<lparr>sk_rx := rx\<rparr>)
   }"

text \<open>The payload, when there is one; \<open>None\<close> is the result false.\<close>

definition receive_payload ::
  "message_id \<Rightarrow> size_t \<Rightarrow> socket \<Rightarrow> heap \<Rightarrow> (peer_wire_message option \<times> socket \<times> heap) option" where
  "receive_payload message_id payload_length s h =
     (if payload_length = 0 then
        Some (Some \<lparr>msg_id = message_id, msg_payload = None, msg_payload_length = 0, msg_is_keep_alive = False\<rparr>, s, h)
      else (case malloc h of
          (False, h) \<Rightarrow> Some (None, s, h)
        | (True, h) \<Rightarrow> do {
            (payload_buffer, s) \<leftarrow> socket_recv (unat payload_length) s;
            case payload_buffer of
              None \<Rightarrow> Some (None, s, free False h)
            | Some payload \<Rightarrow>
                Some (Some \<lparr>msg_id = message_id, msg_payload = Some payload, msg_payload_length = payload_length,
                  msg_is_keep_alive = False\<rparr>, s, h)
          }))"

text \<open>The message id, the check of the payload's length, and the payload.\<close>

definition receive_body :: "uint32 \<Rightarrow> socket \<Rightarrow> heap \<Rightarrow> (peer_wire_message option \<times> socket \<times> heap) option" where
  "receive_body prefix_length s h = do {
     (message_id_buffer, s) \<leftarrow> socket_recv 1 s;
     case message_id_buffer of
       None \<Rightarrow> Some (None, s, h)
     | Some id_bytes \<Rightarrow>
         if id_bytes ! 0 \<ge> message_code PEER_MESSAGE_INVALID then Some (None, s, h)
         else
           let payload_length = (ucast prefix_length :: size_t) - 1;
               message_id = message_id_of (id_bytes ! 0) in
           if payload_length > MAX_PAYLOAD_LENGTH \<or>
             \<not> is_valid_payload_length_for_message payload_length message_id
           then Some (None, s, h)
           else receive_payload message_id payload_length s h
   }"

definition receive_peer_wire_message ::
  "int \<Rightarrow> peer_wire_message option \<Rightarrow> socket \<Rightarrow> heap \<Rightarrow> (bool \<times> peer_wire_message option \<times> socket \<times> heap) option" where
  "receive_peer_wire_message file_descriptor out_message s h =
     (case out_message of
        None \<Rightarrow> Some (False, None, s, h)
      | Some old \<Rightarrow>
          if file_descriptor < 0 then Some (False, out_message, s, h)
          else if msg_id old \<noteq> PEER_MESSAGE_INVALID \<or> msg_is_keep_alive old = True \<or> msg_payload old \<noteq> None \<or>
            msg_payload_length old \<noteq> 0 then Some (False, out_message, s, h)
          else do {
            (prefix_length_buffer, s) \<leftarrow> socket_recv 4 s;
            case prefix_length_buffer of
              None \<Rightarrow> Some (False, out_message, s, h)
            | Some prefix_bytes \<Rightarrow>
                let prefix_length = read_uint32 prefix_bytes in
                if prefix_length = 0 then
                  Some (True, Some \<lparr>msg_id = PEER_MESSAGE_INVALID, msg_payload = None, msg_payload_length = 0,
                    msg_is_keep_alive = True\<rparr>, s, h)
                else do {
                  (received, s, h) \<leftarrow> receive_body prefix_length s h;
                  case received of
                    None \<Rightarrow> Some (False, out_message, s, h)
                  | Some message \<Rightarrow> Some (True, Some message, s, h)
                }
          })"

section \<open>Frames\<close>

datatype frame = Keep_Alive | Frame message_id "byte list"

fun encode_frame :: "frame \<Rightarrow> byte list" where
  "encode_frame Keep_Alive = uint32_bytes 0"
| "encode_frame (Frame i payload) = uint32_bytes (of_nat (Suc (length payload))) @ [message_code i] @ payload"

text \<open>The payload sizes the protocol gives each message, with the client's limit on bitfields.\<close>

fun valid_frame :: "frame \<Rightarrow> bool" where
  "valid_frame Keep_Alive \<longleftrightarrow> True"
| "valid_frame (Frame i payload) \<longleftrightarrow>
     (case i of
        PEER_MESSAGE_HAVE \<Rightarrow> length payload = 4
      | PEER_MESSAGE_REQUEST \<Rightarrow> length payload = 12
      | PEER_MESSAGE_CANCEL \<Rightarrow> length payload = 12
      | PEER_MESSAGE_PIECE \<Rightarrow> 8 \<le> length payload \<and> length payload \<le> 16392
      | PEER_MESSAGE_BITFIELD \<Rightarrow> length payload \<le> 1048576
      | PEER_MESSAGE_INVALID \<Rightarrow> False
      | _ \<Rightarrow> payload = [])"

definition parse_frame :: "byte list \<Rightarrow> (frame \<times> byte list) option" where
  "parse_frame bs =
     (if length bs < 4 then None
      else
        let n = unat (read_uint32 (take 4 bs)); rest = drop 4 bs in
        if n = 0 then Some (Keep_Alive, rest)
        else (case rest of
            [] \<Rightarrow> None
          | b # payload \<Rightarrow>
              if b < 9 \<and> n - 1 \<le> length payload \<and> valid_frame (Frame (message_id_of b) (take (n - 1) payload))
              then Some (Frame (message_id_of b) (take (n - 1) payload), drop (n - 1) payload)
              else None))"

text \<open>What a received message says.\<close>

definition frame_of :: "peer_wire_message \<Rightarrow> frame" where
  "frame_of m =
     (if msg_is_keep_alive m then Keep_Alive
      else Frame (msg_id m) (case msg_payload m of None \<Rightarrow> [] | Some p \<Rightarrow> p))"

text \<open>What every received message guarantees to its handlers.\<close>

definition wf_message :: "peer_wire_message \<Rightarrow> bool" where
  "wf_message m \<longleftrightarrow>
     unat (msg_payload_length m) = (case msg_payload m of None \<Rightarrow> 0 | Some p \<Rightarrow> length p) \<and>
     (msg_payload m = Some [] \<longrightarrow> False)"

definition message_blocks :: "peer_wire_message \<Rightarrow> int" where
  "message_blocks m = (if msg_payload m = None then 0 else 1)"

lemma valid_frame_length: "valid_frame (Frame i p) \<Longrightarrow> length p \<le> 1048576"
  by (cases i) auto

lemma valid_payload_length:
  assumes "unat n = length p"
  shows "\<not> n > MAX_PAYLOAD_LENGTH \<and> is_valid_payload_length_for_message n i \<longleftrightarrow> valid_frame (Frame i p)"
  using assms
  by (cases i) (auto simp: is_valid_payload_length_for_message_def word_le_nat_alt word_unat_eq_iff not_less)

lemma parse_encode_frame:
  assumes "valid_frame f"
  shows "parse_frame (encode_frame f @ rest) = Some (f, rest)"
proof (cases f)
  case Keep_Alive
  then show ?thesis using be32.decode_prefix [of 0 rest] by (simp add: parse_frame_def be32.length_encode)
next
  case (Frame i p)
  then have short: "length p \<le> 1048576" and i: "i \<noteq> PEER_MESSAGE_INVALID"
    using assms valid_frame_length by auto
  let ?n = "of_nat (Suc (length p)) :: uint32"
  have n: "unat ?n = Suc (length p)"
    using short by (simp only: unat_of_nat) (simp add: take_bit_eq_mod)
  have "read_uint32 (take 4 (encode_frame f @ rest)) = ?n"
    using be32.decode_prefix [of ?n "message_code i # p @ rest"] by (simp add: Frame)
  moreover have "drop 4 (encode_frame f @ rest) = message_code i # p @ rest"
    by (simp add: Frame be32.length_encode)
  moreover have "\<not> length (encode_frame f @ rest) < 4" by (simp add: Frame be32.length_encode)
  ultimately show ?thesis
    using n i assms by (simp add: parse_frame_def Frame message_code_less del: encode_frame.simps valid_frame.simps)
qed

lemma socket_recv_cases:
  obtains (short) s' where "socket_recv n s = Some (None, s')" "length (stream (sk_rx s)) < n"
      "sk_tx s' = sk_tx s" "sk_sent s' = sk_sent s" "script_size (sk_rx s') \<le> script_size (sk_rx s)"
  | (enough) s' where "socket_recv n s = Some (Some (take n (stream (sk_rx s))), s')"
      "n \<le> length (stream (sk_rx s))" "stream (sk_rx s') = drop n (stream (sk_rx s))"
      "sk_tx s' = sk_tx s" "sk_sent s' = sk_sent s" "script_size (sk_rx s') \<le> script_size (sk_rx s)"
      "0 < n \<Longrightarrow> script_size (sk_rx s') < script_size (sk_rx s)"
proof (rule wire.read_cases [of n "sk_rx s"])
  fix rx assume "recv_exact n (sk_rx s) = Some (None, rx)" "length (stream (sk_rx s)) < n"
    "script_size rx \<le> script_size (sk_rx s)"
  then show thesis by (intro short [of "s\<lparr>sk_rx := rx\<rparr>"]) (simp_all add: socket_recv_def)
next
  fix rx assume "recv_exact n (sk_rx s) = Some (Some (take n (stream (sk_rx s))), rx)"
    "n \<le> length (stream (sk_rx s))" "stream rx = drop n (stream (sk_rx s))"
    "script_size rx \<le> script_size (sk_rx s)" "0 < n \<Longrightarrow> script_size rx < script_size (sk_rx s)"
  then show thesis by (intro enough [of "s\<lparr>sk_rx := rx\<rparr>"]) (simp_all add: socket_recv_def)
qed

text \<open>
  What a part of receiving guarantees: it reads the frame that \<open>parsed\<close> names off the stream, or
  reports failure; it sends nothing, and only the payload of the message stays allocated.
\<close>

definition receives ::
  "(frame \<times> byte list) option \<Rightarrow> socket \<Rightarrow> heap \<Rightarrow> peer_wire_message option \<Rightarrow> socket \<Rightarrow> heap \<Rightarrow> bool" where
  "receives parsed s h r s' h' \<longleftrightarrow>
     sk_tx s' = sk_tx s \<and> sk_sent s' = sk_sent s \<and> script_size (sk_rx s') \<le> script_size (sk_rx s) \<and>
     (plentiful h \<longrightarrow> plentiful h') \<and>
     (case r of
        None \<Rightarrow> live h' = live h \<and> (plentiful h \<longrightarrow> parsed = None)
      | Some m \<Rightarrow> live h' = live h + message_blocks m \<and> wf_message m \<and> valid_frame (frame_of m) \<and>
          parsed = Some (frame_of m, stream (sk_rx s')))"

lemma receive_payload_run:
  assumes valid: "\<And>p. length p = unat l \<Longrightarrow> valid_frame (Frame i p)"
  shows "\<exists>r s' h'. receive_payload i l s h = Some (r, s', h') \<and>
    receives (if unat l \<le> length (stream (sk_rx s))
      then Some (Frame i (take (unat l) (stream (sk_rx s))), drop (unat l) (stream (sk_rx s))) else None) s h r s' h'"
proof (cases "l = 0")
  case True
  then show ?thesis
    using valid [of "[]"] by (simp add: receive_payload_def receives_def message_blocks_def wf_message_def frame_of_def)
next
  case l: False
  then have n: "unat l \<noteq> 0" by (simp add: unat_eq_zero)
  obtain g h1 where m: "malloc h = (g, h1)" by fastforce
  have plenty: "plentiful h \<Longrightarrow> g \<and> plentiful h1" using plentiful_malloc [of h] m by auto
  show ?thesis
  proof (cases g)
    case False
    then show ?thesis using l m plenty live_malloc [OF m] by (auto simp: receive_payload_def receives_def)
  next
    case mem: True
    show ?thesis
    proof (cases rule: socket_recv_cases [of "unat l" s])
      case (short s1)
      then show ?thesis
        using l m mem plenty live_malloc [OF m] by (auto simp: receive_payload_def receives_def heap_simps plentiful_def)
    next
      case (enough s1)
      let ?p = "take (unat l) (stream (sk_rx s))"
      have "length ?p = unat l" using enough(2) by simp
      then show ?thesis
        using enough l n m mem plenty live_malloc [OF m] valid [of ?p]
        by (auto simp: receive_payload_def receives_def message_blocks_def wf_message_def frame_of_def
            simp del: valid_frame.simps)
    qed
  qed
qed

text \<open>What follows the length prefix.\<close>

definition parse_body :: "nat \<Rightarrow> byte list \<Rightarrow> (frame \<times> byte list) option" where
  "parse_body n bs =
     (case bs of
        [] \<Rightarrow> None
      | b # payload \<Rightarrow>
          if b < 9 \<and> n \<le> length payload \<and> valid_frame (Frame (message_id_of b) (take n payload))
          then Some (Frame (message_id_of b) (take n payload), drop n payload) else None)"

lemma parse_frame_body:
  "4 \<le> length bs \<Longrightarrow> read_uint32 (take 4 bs) \<noteq> 0 \<Longrightarrow>
   parse_frame bs = parse_body (unat (read_uint32 (take 4 bs)) - 1) (drop 4 bs)"
  by (cases "drop 4 bs") (simp_all add: parse_frame_def parse_body_def unat_eq_zero Let_def)

lemma unat_payload_length:
  assumes "(n :: uint32) \<noteq> 0"
  shows "unat ((ucast n :: size_t) - 1) = unat n - 1"
proof -
  have n: "unat (ucast n :: size_t) = unat n"
    using unsigned_less [of n, where 'a=nat] by (simp add: unsigned_ucast_eq take_bit_eq_mod)
  moreover have "unat n \<noteq> 0" using assms by (simp add: unat_eq_zero)
  ultimately have "(1 :: size_t) \<le> ucast n" by (simp add: word_le_nat_alt Suc_le_eq)
  then show ?thesis using n by (simp add: unat_diff)
qed

lemma receive_body_run:
  assumes nonzero: "n \<noteq> 0"
  shows "\<exists>r s' h'. receive_body n s h = Some (r, s', h') \<and>
    receives (parse_body (unat n - 1) (stream (sk_rx s))) s h r s' h'"
proof (cases rule: socket_recv_cases [of 1 s])
  case (short s1)
  then show ?thesis by (simp add: receive_body_def receives_def parse_body_def)
next
  case (enough s1)
  obtain b rest where bs: "stream (sk_rx s) = b # rest" using enough(2) by (cases "stream (sk_rx s)") auto
  let ?l = "(ucast n :: size_t) - 1" and ?i = "message_id_of b"
  have len: "unat ?l = unat n - 1" by (rule unat_payload_length [OF nonzero])
  have valid: "valid_frame (Frame ?i p) \<longleftrightarrow> \<not> ?l > MAX_PAYLOAD_LENGTH \<and> is_valid_payload_length_for_message ?l ?i"
    if "length p = unat n - 1" for p
    using valid_payload_length [of ?l p ?i] that len by simp
  show ?thesis
  proof (cases "b < 9 \<and> \<not> ?l > MAX_PAYLOAD_LENGTH \<and> is_valid_payload_length_for_message ?l ?i")
    case False
    then have "parse_body (unat n - 1) (b # rest) = None" using valid [of "take (unat n - 1) rest"] by (auto simp: parse_body_def)
    then show ?thesis using False enough bs by (auto simp: receive_body_def receives_def Let_def not_le not_less)
  next
    case True
    then have ok: "\<And>p. length p = unat ?l \<Longrightarrow> valid_frame (Frame ?i p)" using valid len by simp
    have rest: "stream (sk_rx s1) = rest" using enough(3) bs by simp
    have "parse_body (unat n - 1) (b # rest) =
        (if unat ?l \<le> length rest then Some (Frame ?i (take (unat ?l) rest), drop (unat ?l) rest) else None)"
      using True ok [of "take (unat ?l) rest"] unfolding len by (simp add: parse_body_def del: valid_frame.simps)
    moreover obtain r s' h' where "receive_payload ?i ?l s1 h = Some (r, s', h')"
      "receives (if unat ?l \<le> length rest then Some (Frame ?i (take (unat ?l) rest), drop (unat ?l) rest) else None) s1 h r s' h'"
      using receive_payload_run [of ?l ?i s1 h, OF ok] rest by auto
    ultimately show ?thesis
      using True enough(1,4,5,6) bs by (auto simp: receive_body_def receives_def Let_def not_le)
  qed
qed

text \<open>
  On a message variable that has been freed, \<open>receive_peer_wire_message\<close> reads one frame off the
  stream, or reports failure and leaves the variable blank; apart from the payload of the
  message nothing stays allocated, and a success uses up part of the script.
\<close>

lemma receive_frame:
  assumes "0 \<le> fd"
  shows "\<exists>ok m s' h'. receive_peer_wire_message fd (Some blank_message) s h = Some (ok, Some m, s', h') \<and>
    sk_tx s' = sk_tx s \<and> sk_sent s' = sk_sent s \<and> live h' = live h + message_blocks m \<and> wf_message m \<and>
    (plentiful h \<longrightarrow> plentiful h') \<and>
    (if ok then parse_frame (stream (sk_rx s)) = Some (frame_of m, stream (sk_rx s')) \<and> valid_frame (frame_of m) \<and>
        script_size (sk_rx s') < script_size (sk_rx s)
     else m = blank_message \<and> (plentiful h \<longrightarrow> parse_frame (stream (sk_rx s)) = None))"
proof -
  have fd: "\<not> fd < 0" using assms by simp
  note code = receive_peer_wire_message_def blank_message_def fd Let_def
  note blank = message_blocks_def wf_message_def blank_message_def
  let ?bs = "stream (sk_rx s)"
  show ?thesis
  proof (cases rule: socket_recv_cases [of 4 s])
    case (short s1)
    then show ?thesis by (intro exI [of _ False]) (simp add: code blank parse_frame_def)
  next
    case (enough s1)
    let ?prefix = "read_uint32 (take 4 ?bs)"
    show ?thesis
    proof (cases "?prefix = 0")
      case True
      then show ?thesis
        using enough by (intro exI [of _ True]) (simp add: code blank parse_frame_def frame_of_def)
    next
      case False
      obtain r s' h' where body: "receive_body ?prefix s1 h = Some (r, s', h')"
        "receives (parse_frame ?bs) s1 h r s' h'"
        using receive_body_run [OF False, of s1 h] parse_frame_body [OF enough(2) False] enough(3) by auto
      show ?thesis
      proof (cases r)
        case None
        then show ?thesis
          using body enough(1,4,5) False by (intro exI [of _ False]) (simp add: code blank receives_def)
      next
        case (Some m)
        then show ?thesis
          using body enough(1,4,5,7) False by (intro exI [of _ True] exI [of _ m]) (auto simp: code receives_def)
      qed
    qed
  qed
qed

section \<open>Connecting\<close>

text \<open>
  The answers of the system calls \<open>connect_to_peer\<close> makes, in its order; \<open>connect\<close> answers by the
  address. \<open>fds\<close> is the set of open descriptors.
\<close>

record connect_answers =
  ca_socket :: int
  ca_getfl :: int
  ca_set_nonblock :: int
  ca_connect :: "byte list \<Rightarrow> int"
  ca_in_progress :: bool
  ca_poll :: int
  ca_getsockopt :: int
  ca_socket_error :: int
  ca_restore_flags :: int

definition close_fd :: "int \<Rightarrow> int set \<Rightarrow> int set" where
  "close_fd fd fds = fds - {fd}"

text \<open>\<open>sin_addr\<close> and \<open>sin_port\<close>, both in network byte order.\<close>

definition socket_address :: "peer \<Rightarrow> byte list" where
  "socket_address p = (case ipv4_address p of (a, b, c, d) \<Rightarrow> [a, b, c, d]) @ uint16_bytes (peer_port p)"

definition connect_to_peer :: "connect_answers \<Rightarrow> peer option \<Rightarrow> int set \<Rightarrow> int \<times> int set" where
  "connect_to_peer a p fds =
     (case p of
        None \<Rightarrow> (- 1, fds)
      | Some peer \<Rightarrow>
          let file_descriptor = ca_socket a in
          if file_descriptor < 0 then (- 1, fds)
          else
            let fds = insert file_descriptor fds in
            if ca_getfl a = - 1 then (- 1, close_fd file_descriptor fds)
            else if ca_set_nonblock a = - 1 then (- 1, close_fd file_descriptor fds)
            else
              let connect_result = ca_connect a (socket_address peer) in
              if connect_result = - 1 \<and> \<not> ca_in_progress a then (- 1, close_fd file_descriptor fds)
              else if connect_result = - 1 \<and> ca_poll a \<le> 0 then (- 1, close_fd file_descriptor fds)
              else if connect_result = - 1 \<and> ca_getsockopt a \<noteq> 0 then (- 1, close_fd file_descriptor fds)
              else if connect_result = - 1 \<and> ca_socket_error a \<noteq> 0 then (- 1, close_fd file_descriptor fds)
              else if ca_restore_flags a = - 1 then (- 1, close_fd file_descriptor fds)
              else (file_descriptor, fds))"

text \<open>A descriptor that is not open yet: what \<open>socket\<close> documents of its result.\<close>

lemma connect_to_peer_fds:
  assumes "ca_socket a \<notin> fds"
  shows "connect_to_peer a (Some p) fds = (fd, fds') \<Longrightarrow>
    if fd < 0 then fds' = fds else fd = ca_socket a \<and> fds' = insert fd fds"
  using assms by (auto simp: connect_to_peer_def close_fd_def Let_def split: if_splits)

section \<open>The handshake\<close>

definition handshake_protocol :: "byte list" where
  "handshake_protocol = bytes_of ''BitTorrent protocol''"

definition build_handshake ::
  "byte list option \<Rightarrow> byte list option \<Rightarrow> byte list option \<Rightarrow> size_t \<Rightarrow> (bool \<times> byte list option) option" where
  "build_handshake info_hash peer_id out_handshake_buffer handshake_capacity =
     (case (info_hash, peer_id, out_handshake_buffer) of
        (Some info_hash, Some peer_id, Some out) \<Rightarrow>
          if handshake_capacity < 68 then Some (False, out_handshake_buffer)
          else do {
            let handshake = replicate 68 (0 :: byte);
            let handshake = handshake[0 := 19];
            handshake \<leftarrow> store_bytes handshake 1 (take 19 handshake_protocol);
            handshake \<leftarrow> store_bytes handshake 28 (take 20 info_hash);
            handshake \<leftarrow> store_bytes handshake 48 (take 20 peer_id);
            out \<leftarrow> store_bytes out 0 handshake;
            Some (True, Some out)
          }
      | _ \<Rightarrow> Some (False, out_handshake_buffer))"

definition validate_handshake_response :: "byte list option \<Rightarrow> byte list option \<Rightarrow> bool option" where
  "validate_handshake_response handshake_response_buffer info_hash =
     (case (handshake_response_buffer, info_hash) of
        (Some response, Some info_hash) \<Rightarrow> do {
          first \<leftarrow> deref (Ptr response 0) 0;
          if first \<noteq> 19 then Some False
          else do {
            protocol \<leftarrow> read_bytes (Ptr response 1) 19;
            if memcmp protocol handshake_protocol \<noteq> 0 then Some False
            else do {
              hash \<leftarrow> read_bytes (Ptr response 28) 20;
              if memcmp hash info_hash \<noteq> 0 then Some False else Some True
            }
          }
        }
      | _ \<Rightarrow> Some False)"

definition handshake_with_peer ::
  "byte list option \<Rightarrow> byte list option \<Rightarrow> socket \<Rightarrow> (bool \<times> socket) option" where
  "handshake_with_peer info_hash peer_id s = do {
     (handshake_build, handshake_buffer) \<leftarrow> build_handshake info_hash peer_id (Some (replicate 68 0)) 68;
     if \<not> handshake_build then Some (False, s)
     else do {
       handshake_buffer \<leftarrow> handshake_buffer;
       let (sent, s) = send_all handshake_buffer 0 s;
       if \<not> sent then Some (False, s)
       else do {
         (received, s) \<leftarrow> socket_recv 68 s;
         case received of
           None \<Rightarrow> Some (False, s)
         | Some handshake_received_buffer \<Rightarrow> do {
             valid \<leftarrow> validate_handshake_response (Some handshake_received_buffer) info_hash;
             if \<not> valid then Some (False, s) else Some (True, s)
           }
       }
     }
   }"

text \<open>The protocol's 68 bytes, and what the client accepts as an answer.\<close>

definition handshake_bytes :: "byte list \<Rightarrow> byte list \<Rightarrow> byte list" where
  "handshake_bytes info_hash peer_id = 19 # handshake_protocol @ replicate 8 0 @ info_hash @ peer_id"

definition answers_handshake :: "byte list \<Rightarrow> byte list \<Rightarrow> bool" where
  "answers_handshake info_hash bs \<longleftrightarrow>
     (\<exists>reserved peer_id rest. bs = (19 # handshake_protocol) @ reserved @ info_hash @ peer_id @ rest \<and>
        length reserved = 8 \<and> length peer_id = 20)"

lemma length_protocol [simp]: "length handshake_protocol = 19"
  by (simp add: handshake_protocol_def)

lemma build_handshake_eq:
  assumes "length ih = 20" "length pid = 20" "length out = 68"
  shows "build_handshake (Some ih) (Some pid) (Some out) 68 = Some (True, Some (handshake_bytes ih pid))"
  using assms
  by (simp add: build_handshake_def store_bytes_def Let_def handshake_bytes_def numeral_eq_Suc)

lemma take_drop_split: "take k (drop i bs) @ drop (i + k) bs = drop i bs"
  by (metis add.commute append_take_drop_id drop_drop)

lemma validate_handshake_eq:
  assumes "length bs = 68" "length ih = 20"
  shows "validate_handshake_response (Some bs) (Some ih) = Some (answers_handshake ih bs)"
proof -
  let ?p = "take 19 (drop 1 bs)" and ?h = "take 20 (drop 28 bs)"
  have code: "validate_handshake_response (Some bs) (Some ih) =
      Some (bs ! 0 = 19 \<and> ?p = handshake_protocol \<and> ?h = ih)"
    using assms by (simp add: validate_handshake_response_def)
  have split: "bs = (bs ! 0 # ?p) @ take 8 (drop 20 bs) @ ?h @ take 20 (drop 48 bs) @ []"
  proof -
    have "bs = bs ! 0 # drop 1 bs" using assms(1) by (cases bs) auto
    also have "drop 1 bs = ?p @ take 8 (drop 20 bs) @ ?h @ take 20 (drop 48 bs)"
      using take_drop_split [of 19 1 bs] take_drop_split [of 8 20 bs] take_drop_split [of 20 28 bs] assms(1) by simp
    finally show ?thesis by simp
  qed
  show ?thesis
    unfolding code option.inject
  proof
    assume "bs ! 0 = 19 \<and> ?p = handshake_protocol \<and> ?h = ih"
    then have "bs = (19 # handshake_protocol) @ take 8 (drop 20 bs) @ ih @ take 20 (drop 48 bs) @ []"
      using split by simp
    then show "answers_handshake ih bs"
      unfolding answers_handshake_def using assms(1)
      by (intro exI [of _ "take 8 (drop 20 bs)"] exI [of _ "take 20 (drop 48 bs)"] exI [of _ "[]"]) simp
  next
    assume "answers_handshake ih bs"
    then show "bs ! 0 = 19 \<and> ?p = handshake_protocol \<and> ?h = ih"
      using assms(2) by (auto simp: answers_handshake_def)
  qed
qed

text \<open>
  The handshake sends the 68 bytes and accepts exactly the answers that begin with the protocol
  name and carry the info hash at its place; it takes at most the answer off the stream.
\<close>

lemma handshake_run:
  assumes "length ih = 20" "length pid = 20"
  shows "\<exists>ok s' m. handshake_with_peer (Some ih) (Some pid) s = Some (ok, s') \<and>
    sk_sent s' = sk_sent s @ take m (handshake_bytes ih pid) \<and> script_size (sk_rx s') \<le> script_size (sk_rx s) \<and>
    (ok \<longrightarrow> m = 68 \<and> 68 \<le> length (stream (sk_rx s)) \<and> answers_handshake ih (take 68 (stream (sk_rx s))) \<and>
       stream (sk_rx s') = drop 68 (stream (sk_rx s))) \<and>
    (sends_ready (sk_tx s) \<longrightarrow> sends_ready (sk_tx s') \<and> m = 68 \<and>
       (68 \<le> length (stream (sk_rx s)) \<and> answers_handshake ih (take 68 (stream (sk_rx s))) \<longrightarrow> ok))"
proof -
  let ?hs = "handshake_bytes ih pid"
  have len: "length ?hs = 68" using assms by (simp add: handshake_bytes_def)
  obtain sent s1 m where send: "send_all ?hs 0 s = (sent, s1)" "sk_rx s1 = sk_rx s"
    "sk_sent s1 = sk_sent s @ take m ?hs" "sent \<longrightarrow> m = 68" "\<not> sent \<longrightarrow> m < 68"
    "sends_ready (sk_tx s) \<longrightarrow> sent \<and> sends_ready (sk_tx s1)"
    using send_all_spec [of 0 ?hs s] len by auto
  note code = handshake_with_peer_def build_handshake_eq [OF assms] send(1)
  show ?thesis
  proof (cases sent)
    case False
    then show ?thesis using send by (intro exI [of _ False] exI [of _ s1] exI [of _ m]) (auto simp: code)
  next
    case True
    show ?thesis
    proof (cases rule: socket_recv_cases [of 68 s1])
      case (short s2)
      then show ?thesis
        using True send by (intro exI [of _ False] exI [of _ s2] exI [of _ 68]) (simp add: code)
    next
      case (enough s2)
      let ?bs = "take 68 (stream (sk_rx s))"
      have bs: "length ?bs = 68" using enough(2) send(2) by simp
      show ?thesis
        using True send enough validate_handshake_eq [OF bs assms(1)]
        by (intro exI [of _ "answers_handshake ih ?bs"] exI [of _ s2] exI [of _ 68]) (simp add: code)
    qed
  qed
qed

section \<open>Sending messages\<close>

definition peer_send_request :: "int \<Rightarrow> uint32 \<Rightarrow> uint32 \<Rightarrow> uint32 \<Rightarrow> socket \<Rightarrow> (bool \<times> socket) option" where
  "peer_send_request file_descriptor piece_index begin len s =
     (if file_descriptor < 0 then Some (False, s)
      else do {
        (appended, buffer, byte_offset) \<leftarrow> append_uint32_big_endian (replicate 17 0) 17 0 13;
        if \<not> appended then Some (False, s)
        else do {
          buffer \<leftarrow> store_bytes buffer (unat byte_offset) [message_code PEER_MESSAGE_REQUEST];
          let byte_offset = byte_offset + 1;
          (appended, buffer, byte_offset) \<leftarrow>
            append_all append_uint32_big_endian buffer 17 byte_offset [piece_index, begin, len];
          if \<not> appended then Some (False, s)
          else if byte_offset \<noteq> 17 then Some (False, s)
          else Some (send_all buffer 0 s)
        }
      })"

definition peer_send_interested :: "int \<Rightarrow> socket \<Rightarrow> (bool \<times> socket) option" where
  "peer_send_interested file_descriptor s =
     (if file_descriptor < 0 then Some (False, s)
      else do {
        (written, buffer) \<leftarrow> write_uint32_big_endian (replicate 5 0) 0 5 1;
        if \<not> written then Some (False, s)
        else do {
          buffer \<leftarrow> store_bytes buffer 4 [message_code PEER_MESSAGE_INTERESTED];
          Some (send_all buffer 0 s)
        }
      })"

definition request_frame :: "uint32 \<Rightarrow> uint32 \<Rightarrow> uint32 \<Rightarrow> frame" where
  "request_frame piece_index begin len =
     Frame PEER_MESSAGE_REQUEST (uint32_bytes piece_index @ uint32_bytes begin @ uint32_bytes len)"

text \<open>A message function that sends \<open>bs\<close>: all of it, or a proper part with a report of failure.\<close>

definition sends :: "byte list \<Rightarrow> socket \<Rightarrow> (bool \<times> socket) option \<Rightarrow> bool" where
  "sends bs s r \<longleftrightarrow>
     (\<exists>ok s' m. r = Some (ok, s') \<and> sk_rx s' = sk_rx s \<and> sk_sent s' = sk_sent s @ take m bs \<and>
        (if ok then m = length bs else m < length bs) \<and>
        (sends_ready (sk_tx s) \<longrightarrow> ok \<and> sends_ready (sk_tx s')))"

lemma sends_all: "sends bs s (Some (send_all bs 0 s))"
  using send_all_spec [of 0 bs s] unfolding sends_def by auto

lemma peer_send_request_eq:
  assumes "0 \<le> fd"
  shows "peer_send_request fd i b n s = Some (send_all (encode_frame (request_frame i b n)) 0 s)"
proof -
  have first: "append_uint32_big_endian (replicate 17 0) 17 0 13 = Some (True, uint32_bytes 13 @ replicate 13 0, 4)"
    by (simp add: append_uint32_big_endian_eq)
  let ?b = "uint32_bytes 13 @ [6] @ replicate 12 0"
  have store: "store_bytes (uint32_bytes 13 @ replicate 13 0) 4 [6] = Some ?b"
    by (simp add: store_bytes_def be32.length_encode)
  have len: "length ?b = 17" by (simp add: be32.length_encode)
  obtain buf off where rest: "append_all append_uint32_big_endian ?b 17 5 [i, b, n] = Some (True, buf, off)"
    "length buf = 17" "unat off = 17" "take (unat off) buf = take 5 ?b @ uint32_bytes i @ uint32_bytes b @ uint32_bytes n"
    using uint32_writer.append_all_fits [of 17 ?b "[i, b, n]" 5] len by (auto simp: be32.length_encode)
  have off: "off = 17" using rest(3) by (simp add: word_unat_eq_iff)
  have "buf = uint32_bytes 13 @ [6] @ uint32_bytes i @ uint32_bytes b @ uint32_bytes n"
    using rest by (simp add: be32.length_encode)
  then have "buf = encode_frame (request_frame i b n)"
    by (simp add: request_frame_def be32.length_encode)
  then show ?thesis
    using assms first store rest(1) off by (simp add: peer_send_request_def del: append_all.simps)
qed

lemma peer_send_request_sends:
  "0 \<le> fd \<Longrightarrow> sends (encode_frame (request_frame i b n)) s (peer_send_request fd i b n s)"
  by (simp only: peer_send_request_eq sends_all)

lemma peer_send_interested_eq:
  assumes "0 \<le> fd"
  shows "peer_send_interested fd s = Some (send_all (encode_frame (Frame PEER_MESSAGE_INTERESTED [])) 0 s)"
proof -
  have "write_uint32_big_endian (replicate 5 0) 0 5 1 = Some (True, uint32_bytes 1 @ [0])"
    by (simp add: write_uint32_ok)
  moreover have "store_bytes (uint32_bytes 1 @ [0]) 4 [2] = Some (uint32_bytes 1 @ [2])"
    by (simp add: store_bytes_def be32.length_encode)
  ultimately show ?thesis using assms by (simp add: peer_send_interested_def)
qed

lemma peer_send_interested_sends:
  "0 \<le> fd \<Longrightarrow> sends (encode_frame (Frame PEER_MESSAGE_INTERESTED [])) s (peer_send_interested fd s)"
  by (simp only: peer_send_interested_eq sends_all)

section \<open>Properties\<close>

text \<open>A socket on which these fragments arrive, and which takes everything that is sent.\<close>

definition socket_with :: "recv_event list \<Rightarrow> socket" where
  "socket_with rx = \<lparr>sk_rx = rx, sk_tx = [], sk_sent = []\<rparr>"

text \<open>
  C11: however the bytes are fragmented and interrupted on their way, \<open>receive_peer_wire_message\<close>
  returns the frame at the front of the stream and leaves the rest of the stream, and refuses
  when the front is not a complete valid frame: too short, an unknown id, or a payload of a
  size its id does not have.
\<close>

theorem receive_message_exact:
  assumes "0 \<le> fd" and "plentiful h"
  shows "\<exists>ok m s' h'. receive_peer_wire_message fd (Some blank_message) s h = Some (ok, Some m, s', h') \<and>
    (case parse_frame (stream (sk_rx s)) of
       None \<Rightarrow> \<not> ok \<and> m = blank_message
     | Some (f, rest) \<Rightarrow> ok \<and> frame_of m = f \<and> stream (sk_rx s') = rest)"
  using receive_frame [OF assms(1), of s h] assms(2)
  by (auto split: if_splits option.splits)

theorem receive_message_exact_witness:
  "\<exists>m s' h'. receive_peer_wire_message 3 (Some blank_message)
      (socket_with [Data [0, 0], Recv_Interrupted, Data [0, 5, 4, 0, 0], Data [1, 2, 0, 0]]) fresh_heap =
        Some (True, Some m, s', h') \<and>
      frame_of m = Frame PEER_MESSAGE_HAVE [0, 0, 1, 2] \<and> stream (sk_rx s') = [0, 0]"
proof -
  let ?s = "socket_with [Data [0, 0], Recv_Interrupted, Data [0, 5, 4, 0, 0], Data [1, 2, 0, 0]]"
  have "parse_frame (stream (sk_rx ?s)) = Some (Frame PEER_MESSAGE_HAVE [0, 0, 1, 2], [0, 0])" by code_simp
  then show ?thesis using receive_message_exact [of 3 fresh_heap ?s] by auto
qed

text \<open>
  Whatever arrives and whatever the allocator answers, a message that is handed over is well-formed,
  and on failure nothing stays allocated.
\<close>

lemma receive_message_run:
  assumes "0 \<le> fd"
  shows "\<exists>ok m s' h'. receive_peer_wire_message fd (Some blank_message) s h = Some (ok, Some m, s', h') \<and>
    wf_message m \<and> live h' = live h + message_blocks m \<and>
    (if ok then valid_frame (frame_of m) \<and> script_size (sk_rx s') < script_size (sk_rx s) else m = blank_message)"
proof -
  obtain ok m s' h' where "receive_peer_wire_message fd (Some blank_message) s h = Some (ok, Some m, s', h')"
    "live h' = live h + message_blocks m" "wf_message m"
    "if ok then parse_frame (stream (sk_rx s)) = Some (frame_of m, stream (sk_rx s')) \<and> valid_frame (frame_of m) \<and>
        script_size (sk_rx s') < script_size (sk_rx s)
     else m = blank_message \<and> (plentiful h \<longrightarrow> parse_frame (stream (sk_rx s)) = None)"
    using receive_frame [OF assms, of s h] by blast
  then show ?thesis by (intro exI [of _ ok] exI [of _ m] exI [of _ s'] exI [of _ h']) (simp split: if_splits)
qed

text \<open>
  C34: a valid message that the other side encodes is received as it was sent, whatever follows
  it and however it is fragmented.
\<close>

theorem message_roundtrip:
  assumes "0 \<le> fd" and "plentiful h" and "valid_frame f" and "stream (sk_rx s) = encode_frame f @ rest"
  shows "\<exists>m s' h'. receive_peer_wire_message fd (Some blank_message) s h = Some (True, Some m, s', h') \<and>
    frame_of m = f \<and> stream (sk_rx s') = rest"
  using receive_frame [OF assms(1), of s h] parse_encode_frame [OF assms(3), of rest] assms(2,4)
  by (auto split: if_splits)

theorem message_roundtrip_witness:
  "\<exists>m s' h'. receive_peer_wire_message 3 (Some blank_message)
      (socket_with (map (\<lambda>b. Data [b]) (encode_frame (request_frame 1 16384 100)))) fresh_heap =
        Some (True, Some m, s', h') \<and> frame_of m = request_frame 1 16384 100 \<and> stream (sk_rx s') = []"
proof -
  let ?s = "socket_with (map (\<lambda>b. Data [b]) (encode_frame (request_frame 1 16384 100)))"
  have "stream (sk_rx ?s) = encode_frame (request_frame 1 16384 100) @ []" by code_simp
  then show ?thesis
    by (intro message_roundtrip) (simp_all add: request_frame_def be32.length_encode)
qed

text \<open>
  C35: \<open>peer_send_request\<close> puts exactly one request message on the wire, with the piece index,
  the offset and the length as big-endian fields, whatever the sizes \<open>send\<close> takes it in; when
  it reports failure only a proper part has been sent.
\<close>

theorem request_on_the_wire:
  assumes "0 \<le> fd"
  shows "\<exists>ok s' m. peer_send_request fd i b n s = Some (ok, s') \<and>
    sk_sent s' = sk_sent s @ take m (encode_frame (request_frame i b n)) \<and> (ok \<longleftrightarrow> 17 \<le> m) \<and>
    (sends_ready (sk_tx s) \<longrightarrow> ok)"
proof -
  have len: "length (encode_frame (request_frame i b n)) = 17"
    by (simp add: request_frame_def be32.length_encode)
  obtain ok s' m where "peer_send_request fd i b n s = Some (ok, s')"
    "sk_sent s' = sk_sent s @ take m (encode_frame (request_frame i b n))"
    "if ok then m = 17 else m < 17" "sends_ready (sk_tx s) \<longrightarrow> ok"
    using peer_send_request_sends [OF assms, of i b n s] unfolding sends_def len by blast
  then show ?thesis
    by (intro exI [of _ ok] exI [of _ s'] exI [of _ m]) (auto split: if_splits)
qed

theorem request_on_the_wire_witness:
  "\<exists>s'. peer_send_request 3 1 16384 100 \<lparr>sk_rx = [], sk_tx = [Takes 3, Send_Interrupted, Takes 9], sk_sent = []\<rparr> =
      Some (True, s') \<and> sk_sent s' = encode_frame (request_frame 1 16384 100)"
proof -
  let ?s = "\<lparr>sk_rx = [], sk_tx = [Takes 3, Send_Interrupted, Takes 9], sk_sent = []\<rparr>"
  have "sends_ready (sk_tx ?s)" by (simp add: sends_ready_def)
  moreover have "length (encode_frame (request_frame 1 16384 100)) = 17"
    by (simp add: request_frame_def be32.length_encode)
  ultimately show ?thesis using request_on_the_wire [of 3 1 16384 100 ?s] by auto
qed

text \<open>
  C36: \<open>handshake_with_peer\<close> sends the 68-byte handshake and, when the sending goes through,
  succeeds if and only if the next 68 bytes of the stream begin with the protocol name and
  carry the torrent's info hash, in whatever fragments they arrive; it then leaves the rest of
  the stream for the messages.
\<close>

theorem handshake_exact:
  assumes "length ih = 20" and "length pid = 20" and "sends_ready (sk_tx s)"
  shows "\<exists>ok s'. handshake_with_peer (Some ih) (Some pid) s = Some (ok, s') \<and>
    sk_sent s' = sk_sent s @ handshake_bytes ih pid \<and>
    (ok \<longleftrightarrow> 68 \<le> length (stream (sk_rx s)) \<and> answers_handshake ih (take 68 (stream (sk_rx s)))) \<and>
    (ok \<longrightarrow> stream (sk_rx s') = drop 68 (stream (sk_rx s)))"
proof -
  have len: "length (handshake_bytes ih pid) = 68" using assms by (simp add: handshake_bytes_def)
  show ?thesis using handshake_run [OF assms(1,2), of s] assms(3) len by auto
qed

theorem handshake_exact_witness:
  "\<exists>s'. handshake_with_peer (Some (replicate 20 7)) (Some (replicate 20 1))
      (socket_with [Data (handshake_bytes (replicate 20 7) (replicate 20 2)), Data [0, 0, 0, 0]]) = Some (True, s') \<and>
    stream (sk_rx s') = [0, 0, 0, 0]"
proof -
  let ?s = "socket_with [Data (handshake_bytes (replicate 20 7) (replicate 20 2)), Data [0, 0, 0, 0]]"
  have bytes: "take 68 (stream (sk_rx ?s)) = (19 # handshake_protocol) @ replicate 8 0 @ replicate 20 7 @ replicate 20 2 @ []"
    "length (stream (sk_rx ?s)) = 72" "drop 68 (stream (sk_rx ?s)) = [0, 0, 0, 0]"
    by code_simp+
  then have "answers_handshake (replicate 20 7) (take 68 (stream (sk_rx ?s)))"
    unfolding answers_handshake_def bytes(1)
    by (intro exI [of _ "replicate 8 0"] exI [of _ "replicate 20 2"] exI [of _ "[]"]) simp
  moreover have "sends_ready (sk_tx ?s)" by (simp add: socket_with_def sends_ready_def)
  ultimately show ?thesis
    using handshake_exact [of "replicate 20 7" "replicate 20 1" ?s] bytes by auto
qed

end
