(* ===== verification/Peer_State.thy ===== *)
theory Peer_State
  imports Peer_Messages
begin

text \<open>
  What the client keeps about a connection and about the piece it is fetching, and the handlers
  that change it (src/peer_connection.c): the peer's bitfield (\<open>bitfield_applied\<close>,
  \<open>update_bitfield\<close>) and the download state of the current piece
  (\<open>determine_piece_info_from_piece_payload\<close>, \<open>process_incoming_piece_message\<close>,
  \<open>reset_piece_state\<close>).
\<close>

section \<open>Sets of pieces\<close>

locale piece_set =
  fixes has :: "'s \<Rightarrow> nat \<Rightarrow> bool"
    and mark :: "'s \<Rightarrow> nat \<Rightarrow> 's"
    and capacity :: "'s \<Rightarrow> nat"
  assumes has_mark: "i < capacity s \<Longrightarrow> j < capacity s \<Longrightarrow> has (mark s i) j \<longleftrightarrow> j = i \<or> has s j"
    and capacity_mark: "capacity (mark s i) = capacity s"
begin

lemma mark_keeps: "i < capacity s \<Longrightarrow> j < capacity s \<Longrightarrow> has s j \<Longrightarrow> has (mark s i) j"
  by (simp add: has_mark)

lemma capacity_marks: "capacity (fold (\<lambda>i s. mark s i) is s) = capacity s"
  by (induction "is" arbitrary: s) (simp_all add: capacity_mark)

text \<open>The order and the repetition of marks do not matter.\<close>

lemma has_marks:
  "\<forall>i \<in> set is. i < capacity s \<Longrightarrow> j < capacity s \<Longrightarrow>
   has (fold (\<lambda>i s. mark s i) is s) j \<longleftrightarrow> j \<in> set is \<or> has s j"
  by (induction "is" arbitrary: s) (auto simp: has_mark capacity_mark)

end

text \<open>\<open>0x80 >> bit_position\<close> and the byte and bit of a piece.\<close>

definition bit_mask :: "nat \<Rightarrow> byte" where
  "bit_mask i = drop_bit (i mod 8) 0x80"

definition has_bit :: "byte list \<Rightarrow> nat \<Rightarrow> bool" where
  "has_bit bs i \<longleftrightarrow> bs ! (i div 8) AND bit_mask i \<noteq> 0"

definition mark_bit :: "byte list \<Rightarrow> nat \<Rightarrow> byte list" where
  "mark_bit bs i = bs[i div 8 := bs ! (i div 8) OR bit_mask i]"

lemma mask_bit: "bit (bit_mask i) k \<longleftrightarrow> k = 7 - i mod 8"
proof -
  have "bit (bit_mask i) k \<longleftrightarrow> bit (2 ^ 7 :: byte) (i mod 8 + k)"
    unfolding bit_mask_def bit_drop_bit_eq by (simp add: comp_def)
  also have "\<dots> \<longleftrightarrow> i mod 8 + k = 7" unfolding bit_exp_iff by (auto simp: possible_bit_word)
  also have "\<dots> \<longleftrightarrow> k = 7 - i mod 8" by presburger
  finally show ?thesis .
qed

lemma and_mask: "b AND bit_mask i \<noteq> 0 \<longleftrightarrow> bit b (7 - i mod 8)" for b :: byte
proof
  assume "b AND bit_mask i \<noteq> 0"
  then obtain k where "bit (b AND bit_mask i) k" by (metis bit_0_eq bit_eqI bot_apply bot_bool_def)
  then show "bit b (7 - i mod 8)" by (auto simp: bit_simps mask_bit)
next
  assume "bit b (7 - i mod 8)"
  then have "bit (b AND bit_mask i) (7 - i mod 8)" by (simp add: bit_simps mask_bit)
  then show "b AND bit_mask i \<noteq> 0" by auto
qed

interpretation bitfield: piece_set has_bit mark_bit "\<lambda>bs. 8 * length bs"
proof unfold_locales
  fix i j :: nat and bs :: "byte list"
  assume i: "i < 8 * length bs" and j: "j < 8 * length bs"
  have eq: "i = j" if "i div 8 = j div 8" "7 - i mod 8 = 7 - j mod 8"
  proof -
    have "i mod 8 < 8" "j mod 8 < 8" by simp_all
    then have "i mod 8 = j mod 8" using that(2) by linarith
    then show ?thesis using that(1) by (metis div_mod_decomp)
  qed
  have room: "i div 8 < length bs" using i by (simp add: less_mult_imp_div_less mult.commute)
  show "has_bit (mark_bit bs i) j \<longleftrightarrow> j = i \<or> has_bit bs j"
  proof (cases "i div 8 = j div 8")
    case True
    then have "has_bit (mark_bit bs i) j \<longleftrightarrow> 7 - j mod 8 = 7 - i mod 8 \<or> has_bit bs j"
      using room by (auto simp: has_bit_def mark_bit_def and_mask bit_or_iff mask_bit)
    then show ?thesis using eq [OF True] by metis
  next
    case False
    then have "mark_bit bs i ! (j div 8) = bs ! (j div 8)" "j \<noteq> i" by (auto simp: mark_bit_def)
    then show ?thesis by (simp add: has_bit_def)
  qed
qed (simp add: mark_bit_def)

section \<open>A connection and its bitfield\<close>

record peer_connection =
  pc_bitfield :: "byte list option"
  pc_bitfield_length :: size_t
  pc_peer :: peer
  pc_peer_choking_us :: bool
  pc_we_are_interested :: bool
  pc_socket :: int

definition update_bitfield ::
  "peer_connection option \<Rightarrow> byte list option \<Rightarrow> size_t \<Rightarrow> size_t \<Rightarrow> heap \<Rightarrow>
   (bool \<times> peer_connection option \<times> heap) option" where
  "update_bitfield peer_connection received_have_payload payload_length piece_count h =
     (case (peer_connection, received_have_payload) of
        (Some c, Some payload) \<Rightarrow>
          if payload_length \<noteq> 4 then Some (False, Some c, h)
          else do {
            piece_index_buffer \<leftarrow> read_bytes (Ptr payload 0) 4;
            let piece_index = (ucast (read_uint32 piece_index_buffer) :: size_t);
            if piece_index \<ge> piece_count then Some (False, Some c, h)
            else
              let bitfield_length = (piece_count + 7) div 8 in
              if pc_bitfield c \<noteq> None \<and> pc_bitfield_length c \<noteq> bitfield_length then Some (False, Some c, h)
              else if pc_bitfield c = None \<and> pc_bitfield_length c \<noteq> 0 then Some (False, Some c, h)
              else
                let (initialised, c, h) =
                  (if pc_bitfield c = None then
                     (case malloc h of
                        (False, h) \<Rightarrow> (False, c, h)
                      | (True, h) \<Rightarrow> (True, c\<lparr>pc_bitfield := Some (replicate (unat bitfield_length) 0),
                          pc_bitfield_length := bitfield_length\<rparr>, h))
                   else (True, c, h)) in
                if \<not> initialised then Some (False, Some c, h)
                else do {
                  bytes \<leftarrow> pc_bitfield c;
                  let byte_index = unat (piece_index div 8);
                  let bit_position = unat (piece_index mod 8);
                  let mask = (drop_bit bit_position 0x80 :: byte);
                  old \<leftarrow> deref (Ptr bytes 0) byte_index;
                  Some (True, Some (c\<lparr>pc_bitfield := Some (bytes[byte_index := old OR mask])\<rparr>), h)
                }
          }
      | (c, _) \<Rightarrow> Some (False, c, h))"

text \<open>Whether the last byte of a bitfield has a bit set beyond the last piece.\<close>

definition padding_bit_set :: "byte list \<Rightarrow> size_t \<Rightarrow> size_t \<Rightarrow> bool option" where
  "padding_bit_set received_bitfield_payload payload_length piece_count =
     (let remainder = piece_count mod 8 in
      if remainder \<noteq> 0 then
        let padding_bits = 8 - remainder;
            padding_mask = (ucast (push_bit (unat padding_bits) 1 - 1 :: 32 word) :: byte) in do {
          last_bitfield_byte \<leftarrow> deref (Ptr received_bitfield_payload 0) (unat (payload_length - 1));
          Some (padding_mask AND last_bitfield_byte \<noteq> 0)
        }
      else Some False)"

definition bitfield_applied ::
  "peer_connection option \<Rightarrow> byte list option \<Rightarrow> size_t \<Rightarrow> size_t \<Rightarrow> heap \<Rightarrow>
   (bool \<times> peer_connection option \<times> heap) option" where
  "bitfield_applied peer_connection received_bitfield_payload payload_length piece_count h =
     (case (peer_connection, received_bitfield_payload) of
        (Some c, Some payload) \<Rightarrow>
          if pc_bitfield c \<noteq> None \<or> pc_bitfield_length c \<noteq> 0 then Some (False, Some c, h)
          else
            let expected_length = (piece_count + 7) div 8 in
            if payload_length \<noteq> expected_length then Some (False, Some c, h)
            else do {
              padded \<leftarrow> padding_bit_set payload payload_length piece_count;
              if padded then Some (False, Some c, h)
              else (case malloc h of
                  (False, h) \<Rightarrow> Some (False, Some c, h)
                | (True, h) \<Rightarrow> do {
                    bytes \<leftarrow> read_bytes (Ptr payload 0) (unat payload_length);
                    Some (True, Some (c\<lparr>pc_bitfield := Some bytes, pc_bitfield_length := payload_length\<rparr>), h)
                  })
            }
      | (c, _) \<Rightarrow> Some (False, c, h))"

definition bitfield_blocks :: "peer_connection \<Rightarrow> int" where
  "bitfield_blocks c = (if pc_bitfield c = None then 0 else 1)"

text \<open>
  The invariant of a connection: no bitfield, or one with room for every piece.
\<close>

definition bitfield_size :: "size_t \<Rightarrow> nat" where
  "bitfield_size piece_count = (unat piece_count + 7) div 8"

definition wf_connection :: "size_t \<Rightarrow> peer_connection \<Rightarrow> bool" where
  "wf_connection piece_count c \<longleftrightarrow>
     (case pc_bitfield c of
        None \<Rightarrow> pc_bitfield_length c = 0
      | Some bytes \<Rightarrow> length bytes = bitfield_size piece_count \<and> unat (pc_bitfield_length c) = length bytes)"

text \<open>The pieces the client believes the peer to have.\<close>

definition peer_has :: "peer_connection \<Rightarrow> nat \<Rightarrow> bool" where
  "peer_has c i \<longleftrightarrow> (case pc_bitfield c of None \<Rightarrow> False | Some bytes \<Rightarrow> has_bit bytes i)"

lemma bitfield_size_word:
  "unat piece_count < 2 ^ 60 \<Longrightarrow> unat ((piece_count + 7) div 8) = bitfield_size piece_count"
  by (simp add: bitfield_size_def unat_div unat_plus_bounded)

lemma bitfield_size_room: "i < unat piece_count \<Longrightarrow> i < 8 * bitfield_size piece_count"
  by (simp add: bitfield_size_def)

lemma has_bit_zeros: "i < 8 * n \<Longrightarrow> \<not> has_bit (replicate n 0) i"
  by (simp add: has_bit_def)

lemma unat_ucast32 [simp]: "unat (ucast (w :: uint32) :: size_t) = unat w"
  using unsigned_less [of w, where 'a=nat] by (simp add: unsigned_ucast_eq take_bit_eq_mod)

text \<open>A HAVE message marks its piece and keeps the others; an index beyond the torrent is refused.\<close>

lemma piece_bit_word:
  assumes "unat piece_count < 2 ^ 60" and "k < unat piece_count" and "unat i = k"
  shows "\<not> i \<ge> piece_count" "drop_bit (unat (i mod 8)) (0x80 :: byte) = bit_mask k" "unat (i div 8) = k div 8"
    "k div 8 < bitfield_size piece_count" "k < 8 * bitfield_size piece_count"
  using assms bitfield_size_room [of k piece_count]
  by (auto simp: word_le_nat_alt bit_mask_def unat_mod unat_div less_mult_imp_div_less mult.commute)

text \<open>The first HAVE message of a peer without a bitfield makes one.\<close>

lemma update_fresh_bitfield:
  assumes c: "wf_connection piece_count c" "pc_bitfield c = None" and n: "unat piece_count < 2 ^ 60"
    and p: "length payload = 4" "k = unat (read_uint32 payload)" "k < unat piece_count"
    and m: "malloc h = (g, h')"
  shows "update_bitfield (Some c) (Some payload) 4 piece_count h =
    (if g then Some (True, Some (c\<lparr>pc_bitfield := Some (mark_bit (replicate (bitfield_size piece_count) 0) k),
        pc_bitfield_length := (piece_count + 7) div 8\<rparr>), h')
     else Some (False, Some c, h'))"
proof -
  have "pc_bitfield_length c = 0" using c by (simp add: wf_connection_def)
  moreover have "unat (ucast (read_uint32 payload) :: size_t) = k" using p(2) by simp
  note bit = piece_bit_word [OF n p(3) this]
  ultimately show ?thesis
    using c(2) m p(1) bit by (simp add: update_bitfield_def Let_def bitfield_size_word [OF n] mark_bit_def)
qed

lemma update_known_bitfield:
  assumes c: "wf_connection piece_count c" "pc_bitfield c = Some bs" and n: "unat piece_count < 2 ^ 60"
    and p: "length payload = 4" "k = unat (read_uint32 payload)" "k < unat piece_count"
  shows "update_bitfield (Some c) (Some payload) 4 piece_count h =
    Some (True, Some (c\<lparr>pc_bitfield := Some (mark_bit bs k)\<rparr>), h)"
proof -
  have "length bs = bitfield_size piece_count" "pc_bitfield_length c = (piece_count + 7) div 8"
    using c by (simp_all add: wf_connection_def word_unat_eq_iff bitfield_size_word [OF n])
  moreover have "unat (ucast (read_uint32 payload) :: size_t) = k" using p(2) by simp
  note bit = piece_bit_word [OF n p(3) this]
  ultimately show ?thesis
    using c(2) p(1) bit by (simp add: update_bitfield_def Let_def bitfield_size_word [OF n] mark_bit_def)
qed

text \<open>What the peer has after the bit is set.\<close>

lemma marked_connection:
  assumes n: "unat piece_count < 2 ^ 60" and k: "k < unat piece_count" and bs: "length bs = bitfield_size piece_count"
    and known: "\<And>j. j < unat piece_count \<Longrightarrow> peer_has c j \<longleftrightarrow> has_bit bs j"
    and c': "pc_bitfield c' = Some (mark_bit bs k)" "unat (pc_bitfield_length c') = bitfield_size piece_count"
  shows "wf_connection piece_count c'"
    and "\<forall>j < unat piece_count. peer_has c' j \<longleftrightarrow> j = k \<or> peer_has c j"
proof -
  have room: "j < 8 * bitfield_size piece_count" if "j < unat piece_count" for j
    using bitfield_size_room [OF that] by (simp add: mult.commute)
  show "wf_connection piece_count c'" using bs c' by (simp add: wf_connection_def mark_bit_def)
  show "\<forall>j < unat piece_count. peer_has c' j \<longleftrightarrow> j = k \<or> peer_has c j"
    using c' bs known bitfield.has_mark [of k bs] room k by (simp add: peer_has_def)
qed

lemma update_bitfield_step:
  assumes c: "wf_connection piece_count c" and n: "unat piece_count < 2 ^ 60"
    and p: "length payload = 4" "unat payload_length = 4"
  shows "\<exists>ok c' h'. update_bitfield (Some c) (Some payload) payload_length piece_count h = Some (ok, Some c', h') \<and>
    wf_connection piece_count c' \<and> live h' = live h + bitfield_blocks c' - bitfield_blocks c \<and>
    (plentiful h \<longrightarrow> plentiful h') \<and>
    (if ok then unat (read_uint32 payload) < unat piece_count \<and>
        c' = c\<lparr>pc_bitfield := pc_bitfield c', pc_bitfield_length := pc_bitfield_length c'\<rparr> \<and>
        (\<forall>j < unat piece_count. peer_has c' j \<longleftrightarrow> j = unat (read_uint32 payload) \<or> peer_has c j)
     else c' = c \<and> (plentiful h \<longrightarrow> unat piece_count \<le> unat (read_uint32 payload)))"
proof -
  let ?k = "unat (read_uint32 payload)"
  have four: "payload_length = 4" using p(2) by (simp add: word_unat_eq_iff)
  show ?thesis
  proof (cases "?k < unat piece_count")
    case False
    then have "(ucast (read_uint32 payload) :: size_t) \<ge> piece_count" by (simp add: word_le_nat_alt)
    then show ?thesis using c False p by (simp add: update_bitfield_def Let_def four bitfield_blocks_def)
  next
    case k: True
    show ?thesis
    proof (cases "pc_bitfield c")
      case None
      obtain g h1 where m: "malloc h = (g, h1)" by fastforce
      note run = update_fresh_bitfield [OF c None n p(1) refl k m]
      let ?bs = "replicate (bitfield_size piece_count) 0"
      let ?c = "c\<lparr>pc_bitfield := Some (mark_bit ?bs ?k), pc_bitfield_length := (piece_count + 7) div 8\<rparr>"
      have "peer_has c j \<longleftrightarrow> has_bit ?bs j" if "j < unat piece_count" for j
        using None bitfield_size_room [OF that] by (simp add: peer_has_def has_bit_zeros mult.commute)
      note marked = marked_connection [OF n k _ this, of ?c]
      show ?thesis
        using run marked None k c live_malloc [OF m] plentiful_malloc [of h] m
        by (cases g; intro exI [of _ g] exI [of _ "if g then ?c else c"] exI [of _ h1])
          (auto simp: four bitfield_blocks_def bitfield_size_word [OF n])
    next
      case (Some bs)
      then have bs: "length bs = bitfield_size piece_count" "unat (pc_bitfield_length c) = bitfield_size piece_count"
        using c by (simp_all add: wf_connection_def)
      let ?c = "c\<lparr>pc_bitfield := Some (mark_bit bs ?k)\<rparr>"
      note run = update_known_bitfield [OF c Some n p(1) refl k, of h]
      note marked = marked_connection [OF n k bs(1), of c ?c]
      show ?thesis
        using run marked Some k bs
        by (intro exI [of _ True] exI [of _ ?c] exI [of _ h]) (simp add: four bitfield_blocks_def peer_has_def)
    qed
  qed
qed

text \<open>
  The bitfield a peer may send: the right number of bytes, and no bit set beyond the last piece.
\<close>

definition valid_bitfield :: "size_t \<Rightarrow> byte list \<Rightarrow> bool" where
  "valid_bitfield piece_count bs \<longleftrightarrow>
     length bs = bitfield_size piece_count \<and>
     (\<forall>i. unat piece_count \<le> i \<and> i < 8 * length bs \<longrightarrow> \<not> has_bit bs i)"

text \<open>\<open>(1 << (8 - r)) - 1\<close> covers exactly the last \<open>8 - r\<close> bits in the order of the pieces.\<close>

lemma padding_mask_bits:
  assumes "0 < r" "r < 8"
  shows "(ucast (push_bit (8 - r) 1 - 1 :: 32 word) :: byte) AND b \<noteq> 0 \<longleftrightarrow> (\<exists>i. r \<le> i \<and> i < 8 \<and> bit b (7 - i))"
proof -
  have mask: "(push_bit (8 - r) 1 - 1 :: 32 word) = mask (8 - r)"
    by (simp add: mask_eq_exp_minus_1 push_bit_eq_mult)
  have "(ucast (push_bit (8 - r) 1 - 1 :: 32 word) :: byte) AND b \<noteq> 0 \<longleftrightarrow> (\<exists>k < 8 - r. bit b k)"
    unfolding mask by (auto simp: bit_eq_iff bit_simps) (meson diff_le_self less_le_trans)
  also have "\<dots> \<longleftrightarrow> (\<exists>i. r \<le> i \<and> i < 8 \<and> bit b (7 - i))"
  proof
    assume "\<exists>k < 8 - r. bit b k"
    then obtain k where "k < 8 - r" "bit b k" by blast
    then show "\<exists>i. r \<le> i \<and> i < 8 \<and> bit b (7 - i)" by (intro exI [of _ "7 - k"]) auto
  next
    assume "\<exists>i. r \<le> i \<and> i < 8 \<and> bit b (7 - i)"
    then obtain i where "r \<le> i" "i < 8" "bit b (7 - i)" by blast
    then show "\<exists>k < 8 - r. bit b k" by (intro exI [of _ "7 - i"]) auto
  qed
  finally show ?thesis .
qed

text \<open>The bits beyond the last piece are those of the last byte at and after the remainder.\<close>

lemma padding_bits:
  assumes len: "length bs = bitfield_size n" and r: "unat n mod 8 \<noteq> 0"
  shows "(\<exists>i. unat n \<le> i \<and> i < 8 * length bs \<and> has_bit bs i) \<longleftrightarrow>
    (\<exists>i. unat n mod 8 \<le> i \<and> i < 8 \<and> bit (bs ! (length bs - 1)) (7 - i))"
proof -
  define q where "q = unat n div 8"
  define m where "m = unat n mod 8"
  have m: "0 < m" "m < 8" "unat n = 8 * q + m" using r by (auto simp: m_def q_def)
  then have l: "length bs = Suc q" using len by (simp add: bitfield_size_def)
  have bit_at: "has_bit bs (8 * q + i) \<longleftrightarrow> bit (bs ! q) (7 - i)" if "i < 8" for i
    using that by (simp add: has_bit_def and_mask)
  show ?thesis
    unfolding l m(3) m_def [symmetric]
  proof
    assume "\<exists>i. 8 * q + m \<le> i \<and> i < 8 * Suc q \<and> has_bit bs i"
    then obtain i where i: "8 * q + m \<le> i" "i < 8 * Suc q" "has_bit bs i" by blast
    define j where "j = i - 8 * q"
    have "i = 8 * q + j" "m \<le> j" "j < 8" using i m by (auto simp: j_def)
    then show "\<exists>i. (8 * q + m) mod 8 \<le> i \<and> i < 8 \<and> bit (bs ! (Suc q - 1)) (7 - i)"
      using i bit_at m by auto
  next
    assume "\<exists>i. (8 * q + m) mod 8 \<le> i \<and> i < 8 \<and> bit (bs ! (Suc q - 1)) (7 - i)"
    then obtain i where i: "m \<le> i" "i < 8" "bit (bs ! q) (7 - i)" using m by auto
    then show "\<exists>i. 8 * q + m \<le> i \<and> i < 8 * Suc q \<and> has_bit bs i"
      using bit_at by (intro exI [of _ "8 * q + i"]) auto
  qed
qed

text \<open>
  A first bitfield is taken over as it is when it is valid for the torrent, and refused
  otherwise, as is a second one.
\<close>

lemma bitfield_applied_step:
  assumes c: "wf_connection piece_count c" and n: "unat piece_count < 2 ^ 60"
    and p: "payload \<noteq> []" "unat payload_length = length payload"
  shows "\<exists>ok c' h'. bitfield_applied (Some c) (Some payload) payload_length piece_count h = Some (ok, Some c', h') \<and>
    wf_connection piece_count c' \<and> live h' = live h + bitfield_blocks c' - bitfield_blocks c \<and>
    (plentiful h \<longrightarrow> plentiful h') \<and>
    (if ok then pc_bitfield c = None \<and> valid_bitfield piece_count payload \<and>
        c' = c\<lparr>pc_bitfield := Some payload, pc_bitfield_length := payload_length\<rparr>
     else c' = c \<and> (plentiful h \<longrightarrow> pc_bitfield c \<noteq> None \<or> \<not> valid_bitfield piece_count payload))"
proof (cases "pc_bitfield c = None \<and> length payload = bitfield_size piece_count")
  case False
  have "bitfield_applied (Some c) (Some payload) payload_length piece_count h = Some (False, Some c, h)"
  proof (cases "pc_bitfield c")
    case None
    then have "payload_length \<noteq> (piece_count + 7) div 8"
      using False p(2) bitfield_size_word [OF n] by auto
    then show ?thesis using None by (simp add: bitfield_applied_def Let_def)
  qed (simp add: bitfield_applied_def)
  then show ?thesis using False c by (auto simp: valid_bitfield_def)
next
  case True
  then have none: "pc_bitfield c = None" "pc_bitfield_length c = 0" and len: "length payload = bitfield_size piece_count"
    using c by (auto simp: wf_connection_def)
  have nonempty: "0 < bitfield_size piece_count" using len p(1) by (metis length_greater_0_conv)
  have eq: "payload_length = (piece_count + 7) div 8"
    using p(2) len bitfield_size_word [OF n] by (simp add: word_unat_eq_iff)
  have last: "unat (payload_length - 1) = length payload - 1"
    using p by (subst unat_diff) (auto simp: word_le_nat_alt Suc_le_eq)
  have rem: "piece_count mod 8 \<noteq> 0 \<longleftrightarrow> unat piece_count mod 8 \<noteq> 0"
    by (simp add: word_unat_eq_iff unat_mod)
  have "unat (8 - piece_count mod 8) = 8 - unat piece_count mod 8"
    by (subst unat_diff) (simp_all add: word_le_nat_alt unat_mod)
  then have pad: "piece_count mod 8 \<noteq> 0 \<Longrightarrow>
      (ucast (push_bit (unat (8 - piece_count mod 8)) 1 - 1 :: 32 word) :: byte) AND payload ! (length payload - 1) \<noteq> 0
      \<longleftrightarrow> (\<exists>i. unat piece_count \<le> i \<and> i < 8 * length payload \<and> has_bit payload i)"
    using padding_mask_bits [of "unat piece_count mod 8"] padding_bits [OF len] rem by simp
  have no_pad: "piece_count mod 8 = 0 \<Longrightarrow> \<not> (unat piece_count \<le> i \<and> i < 8 * length payload)" for i
    using len rem by (auto simp: bitfield_size_def)
  have padded: "padding_bit_set payload payload_length piece_count = Some (\<not> valid_bitfield piece_count payload)"
    using pad no_pad p len nonempty by (cases "piece_count mod 8 = 0") (auto simp: padding_bit_set_def Let_def last valid_bitfield_def)
  let ?c = "c\<lparr>pc_bitfield := Some payload, pc_bitfield_length := payload_length\<rparr>"
  obtain g h1 where m: "malloc h = (g, h1)" by fastforce
  have run: "bitfield_applied (Some c) (Some payload) payload_length piece_count h =
      (if \<not> valid_bitfield piece_count payload then Some (False, Some c, h)
       else if g then Some (True, Some ?c, h1) else Some (False, Some c, h1))"
    using none eq m p(2) padded by (simp add: bitfield_applied_def Let_def)
  have mem: "g \<longrightarrow> (plentiful h \<longrightarrow> plentiful h1)" "\<not> g \<longrightarrow> \<not> plentiful h"
    using plentiful_malloc [of h] m by auto
  show ?thesis
    using run mem live_malloc [OF m] none c len p(2)
    by (cases "valid_bitfield piece_count payload"; cases g)
      (auto simp: bitfield_blocks_def wf_connection_def)
qed

section \<open>The piece being fetched\<close>

record piece_download_state =
  ds_piece_index :: size_t
  ds_piece_size :: size_t
  ds_piece_buffer :: "byte list option"
  ds_bytes_received :: size_t
  ds_request_pending :: bool
  ds_requested_begin :: size_t
  ds_requested_length :: size_t

definition reset_piece_state :: "piece_download_state option \<Rightarrow> piece_download_state option" where
  "reset_piece_state piece_state =
     (case piece_state of
        None \<Rightarrow> None
      | Some st \<Rightarrow> Some (st\<lparr>ds_request_pending := False, ds_requested_length := 0, ds_requested_begin := 0,
          ds_bytes_received := 0\<rparr>))"

text \<open>The four output parameters of \<open>determine_piece_info_from_piece_payload\<close>.\<close>

record piece_info =
  pi_index :: size_t
  pi_begin :: size_t
  pi_block :: ptr
  pi_block_length :: size_t

definition determine_piece_info_from_piece_payload ::
  "peer_wire_message option \<Rightarrow> piece_info option \<Rightarrow> (bool \<times> piece_info option) option" where
  "determine_piece_info_from_piece_payload piece_message out =
     (case (piece_message, out) of
        (Some msg, Some _) \<Rightarrow>
          if msg_id msg \<noteq> PEER_MESSAGE_PIECE \<or> msg_payload_length msg < 8 then Some (False, out)
          else (case msg_payload msg of
              None \<Rightarrow> Some (False, out)
            | Some payload \<Rightarrow> do {
                index_bytes \<leftarrow> read_bytes (Ptr payload 0) 4;
                begin_bytes \<leftarrow> read_bytes (Ptr payload 4) 4;
                blk \<leftarrow> ptr_add (Ptr payload 0) 8;
                Some (True, Some \<lparr>pi_index = ucast (read_uint32 index_bytes), pi_begin = ucast (read_uint32 begin_bytes),
                  pi_block = blk, pi_block_length = msg_payload_length msg - 8\<rparr>)
              })
      | _ \<Rightarrow> Some (False, out))"

definition process_incoming_piece_message ::
  "piece_download_state option \<Rightarrow> peer_wire_message option \<Rightarrow> (bool \<times> piece_download_state option) option" where
  "process_incoming_piece_message current_piece_state msg =
     (case (current_piece_state, msg) of
        (Some st, Some m) \<Rightarrow>
          (case ds_piece_buffer st of
             None \<Rightarrow> Some (False, Some st)
           | Some piece_buffer \<Rightarrow>
               if \<not> ds_request_pending st then Some (False, Some st)
               else do {
                 (piece_info_determined, info) \<leftarrow> determine_piece_info_from_piece_payload (Some m)
                    (Some \<lparr>pi_index = 0, pi_begin = 0, pi_block = NULL, pi_block_length = 0\<rparr>);
                 if \<not> piece_info_determined then Some (False, Some st)
                 else do {
                   info \<leftarrow> info;
                   if pi_index info \<noteq> ds_piece_index st \<or> pi_begin info \<noteq> ds_requested_begin st \<or>
                     pi_block_length info \<noteq> ds_requested_length st then Some (False, Some st)
                   else if pi_begin info > ds_piece_size st \<or>
                     pi_block_length info > ds_piece_size st - pi_begin info then Some (False, Some st)
                   else do {
                     blk \<leftarrow> read_bytes (pi_block info) (unat (pi_block_length info));
                     piece_buffer \<leftarrow> store_bytes piece_buffer (unat (pi_begin info)) blk;
                     Some (True, Some (st\<lparr>ds_piece_buffer := Some piece_buffer,
                       ds_bytes_received := ds_bytes_received st + pi_block_length info,
                       ds_request_pending := False\<rparr>))
                   }
                 }
               })
      | (st, _) \<Rightarrow> Some (False, st))"

text \<open>A PIECE message on the wire.\<close>

definition piece_frame :: "uint32 \<Rightarrow> uint32 \<Rightarrow> byte list \<Rightarrow> frame" where
  "piece_frame index begin blk = Frame PEER_MESSAGE_PIECE (uint32_bytes index @ uint32_bytes begin @ blk)"

text \<open>The block a message has to carry to answer the request that is pending.\<close>

definition answers_request :: "piece_download_state \<Rightarrow> frame \<Rightarrow> byte list \<Rightarrow> bool" where
  "answers_request st f blk \<longleftrightarrow>
     ds_request_pending st \<and>
     (\<exists>i b. f = piece_frame i b blk \<and> unat i = unat (ds_piece_index st) \<and>
        unat b = unat (ds_requested_begin st)) \<and>
     length blk = unat (ds_requested_length st) \<and>
     unat (ds_requested_begin st) + length blk \<le> unat (ds_piece_size st)"

lemma piece_frame_cases:
  assumes "wf_message m" "msg_id m = PEER_MESSAGE_PIECE" "msg_is_keep_alive m = False" "valid_frame (frame_of m)"
  obtains i b blk where "msg_payload m = Some (uint32_bytes i @ uint32_bytes b @ blk)"
    "frame_of m = piece_frame i b blk" "unat (msg_payload_length m) = 8 + length blk"
proof -
  from assms(2-4) obtain p where p: "msg_payload m = Some p" "8 \<le> length p"
    by (cases "msg_payload m") (auto simp: frame_of_def)
  have "p = uint32_bytes (read_uint32 (take 4 p)) @ uint32_bytes (read_uint32 (take 4 (drop 4 p))) @ drop 8 p"
    using p(2) take_drop_split [of 4 4 p] by (simp add: be32.encode_decode)
  then obtain i b blk where "p = uint32_bytes i @ uint32_bytes b @ blk" by blast
  then show thesis
    using that [of i b blk] p assms(1-3)
    by (simp add: frame_of_def piece_frame_def wf_message_def be32.length_encode)
qed

text \<open>
  A PIECE message that answers the pending request is stored at its offset, any other is
  refused; that the store stays inside the buffer depends on the size of the piece.
\<close>

lemma process_piece_run:
  assumes m: "wf_message m" "msg_id m = PEER_MESSAGE_PIECE" "msg_is_keep_alive m = False" "valid_frame (frame_of m)"
    and buf: "ds_piece_buffer st = Some buf"
  shows "answers_request st (frame_of m) blk \<Longrightarrow> process_incoming_piece_message (Some st) (Some m) = do {
      buf' \<leftarrow> store_bytes buf (unat (ds_requested_begin st)) blk;
      Some (True, Some (st\<lparr>ds_piece_buffer := Some buf',
        ds_bytes_received := ds_bytes_received st + ds_requested_length st, ds_request_pending := False\<rparr>))
    }" (is "?answers \<Longrightarrow> _")
    and "\<not> (\<exists>blk. answers_request st (frame_of m) blk) \<Longrightarrow>
      process_incoming_piece_message (Some st) (Some m) = Some (False, Some st)"
proof -
  obtain i b c where p: "msg_payload m = Some (uint32_bytes i @ uint32_bytes b @ c)"
    "frame_of m = piece_frame i b c" "unat (msg_payload_length m) = 8 + length c"
    using piece_frame_cases [OF m] .
  have inject: "piece_frame i b c = piece_frame i' b' c' \<longleftrightarrow> i = i' \<and> b = b' \<and> c = c'" for i' b' c'
    by (auto simp: piece_frame_def be32.length_encode be32.encode_inject)
  have l8: "\<not> msg_payload_length m < 8" using p(3) by (simp add: word_less_nat_alt)
  have l: "unat (msg_payload_length m - 8) = length c"
    using p(3) by (subst unat_diff) (simp_all add: word_le_nat_alt)
  have determined: "determine_piece_info_from_piece_payload (Some m) (Some x) = Some (True, Some \<lparr>pi_index = ucast i,
      pi_begin = ucast b, pi_block = Ptr (uint32_bytes i @ uint32_bytes b @ c) 8,
      pi_block_length = msg_payload_length m - 8\<rparr>)" for x
    using m(2) p(1) l8 be32.decode_prefix
    by (simp add: determine_piece_info_from_piece_payload_def be32.length_encode be32.decode_encode)
  have eq: "(ucast i :: size_t) = ds_piece_index st \<longleftrightarrow> unat i = unat (ds_piece_index st)"
    "(ucast b :: size_t) = ds_requested_begin st \<longleftrightarrow> unat b = unat (ds_requested_begin st)"
    "msg_payload_length m - 8 = ds_requested_length st \<longleftrightarrow> length c = unat (ds_requested_length st)"
    by (simp_all add: word_unat_eq_iff l)
  have fits: "\<not> (ds_requested_begin st > ds_piece_size st \<or> ds_requested_length st > ds_piece_size st - ds_requested_begin st)
      \<longleftrightarrow> unat (ds_requested_begin st) + unat (ds_requested_length st) \<le> unat (ds_piece_size st)"
    by (auto simp: not_less word_le_nat_alt unat_diff le_diff_conv2)
  let ?good = "ds_request_pending st \<and> unat i = unat (ds_piece_index st) \<and> unat b = unat (ds_requested_begin st) \<and>
    length c = unat (ds_requested_length st) \<and>
    unat (ds_requested_begin st) + unat (ds_requested_length st) \<le> unat (ds_piece_size st)"
  have answers: "answers_request st (frame_of m) blk' \<longleftrightarrow> ?good \<and> blk' = c" for blk'
    by (auto simp: answers_request_def p(2) inject)
  note code = process_incoming_piece_message_def buf determined
  show "process_incoming_piece_message (Some st) (Some m) = Some (False, Some st)"
    if none: "\<not> (\<exists>blk. answers_request st (frame_of m) blk)"
    using none eq fits unfolding answers by (auto simp: code)
  assume ?answers
  then have good: ?good and blk: "blk = c" unfolding answers by simp_all
  then have same: "(ucast i :: size_t) = ds_piece_index st" "(ucast b :: size_t) = ds_requested_begin st"
    "msg_payload_length m - 8 = ds_requested_length st"
    using eq by blast+
  have room: "\<not> ds_requested_begin st > ds_piece_size st" "\<not> ds_requested_length st > ds_piece_size st - ds_requested_begin st"
    using good fits by blast+
  show "process_incoming_piece_message (Some st) (Some m) = do {
      buf' \<leftarrow> store_bytes buf (unat (ds_requested_begin st)) blk;
      Some (True, Some (st\<lparr>ds_piece_buffer := Some buf',
        ds_bytes_received := ds_bytes_received st + ds_requested_length st, ds_request_pending := False\<rparr>))
    }"
    using good same room by (simp add: code be32.length_encode blk)
qed

lemma process_piece_step:
  assumes m: "wf_message m" "msg_id m = PEER_MESSAGE_PIECE" "msg_is_keep_alive m = False" "valid_frame (frame_of m)"
    and buf: "ds_piece_buffer st = Some buf" "unat (ds_piece_size st) \<le> length buf"
  shows "if \<exists>blk. answers_request st (frame_of m) blk
    then \<exists>blk. answers_request st (frame_of m) blk \<and> process_incoming_piece_message (Some st) (Some m) =
      Some (True, Some (st\<lparr>
        ds_piece_buffer := Some (take (unat (ds_requested_begin st)) buf @ blk @
          drop (unat (ds_requested_begin st) + length blk) buf),
        ds_bytes_received := ds_bytes_received st + ds_requested_length st, ds_request_pending := False\<rparr>))
    else process_incoming_piece_message (Some st) (Some m) = Some (False, Some st)"
proof (cases "\<exists>blk. answers_request st (frame_of m) blk")
  case False
  then show ?thesis using process_piece_run(2) [OF m buf(1)] by simp
next
  case True
  then obtain blk where blk: "answers_request st (frame_of m) blk" by blast
  then have "unat (ds_requested_begin st) + length blk \<le> length buf" using buf(2) by (simp add: answers_request_def)
  then show ?thesis
    using blk process_piece_run(1) [OF m buf(1) blk] by (auto simp: store_bytes_Some intro!: exI [of _ blk])
qed

section \<open>Properties\<close>

definition sample_connection :: peer_connection where
  "sample_connection = \<lparr>pc_bitfield = None, pc_bitfield_length = 0, pc_peer = zero_peer, pc_peer_choking_us = True,
     pc_we_are_interested = False, pc_socket = 3\<rparr>"

lemma sample_connection_wf: "wf_connection n sample_connection"
  by (simp add: wf_connection_def sample_connection_def)

text \<open>
  C37: \<open>update_bitfield\<close> is a set insertion: a HAVE message for a piece of the torrent adds that
  piece to those the peer is known to have and changes no other, creating the bitfield when
  there is none; an index beyond the last piece, or a lack of memory, changes nothing.
\<close>

theorem have_marks_piece:
  assumes "wf_connection piece_count c" and "unat piece_count < 2 ^ 60"
    and "length payload = 4" and "unat payload_length = 4"
  shows "\<exists>ok c' h'. update_bitfield (Some c) (Some payload) payload_length piece_count h = Some (ok, Some c', h') \<and>
    wf_connection piece_count c' \<and> live h' = live h + bitfield_blocks c' - bitfield_blocks c \<and>
    (if ok then unat (read_uint32 payload) < unat piece_count \<and>
        (\<forall>j < unat piece_count. peer_has c' j \<longleftrightarrow> j = unat (read_uint32 payload) \<or> peer_has c j)
     else c' = c \<and> (plentiful h \<longrightarrow> unat piece_count \<le> unat (read_uint32 payload)))"
proof -
  obtain ok c' h' where "update_bitfield (Some c) (Some payload) payload_length piece_count h = Some (ok, Some c', h')"
    "wf_connection piece_count c'" "live h' = live h + bitfield_blocks c' - bitfield_blocks c"
    "if ok then unat (read_uint32 payload) < unat piece_count \<and>
        c' = c\<lparr>pc_bitfield := pc_bitfield c', pc_bitfield_length := pc_bitfield_length c'\<rparr> \<and>
        (\<forall>j < unat piece_count. peer_has c' j \<longleftrightarrow> j = unat (read_uint32 payload) \<or> peer_has c j)
     else c' = c \<and> (plentiful h \<longrightarrow> unat piece_count \<le> unat (read_uint32 payload))"
    using update_bitfield_step [OF assms, of h] by blast
  then show ?thesis by (intro exI [of _ ok] exI [of _ c'] exI [of _ h']) (simp split: if_splits)
qed

theorem have_marks_piece_witness:
  "\<exists>c' h'. update_bitfield (Some sample_connection) (Some [0, 0, 0, 9]) 4 12 fresh_heap = Some (True, Some c', h') \<and>
    peer_has c' 9 \<and> \<not> peer_has c' 8 \<and> live h' = 1"
proof -
  have "map_option (\<lambda>r. (fst r, live (snd (snd r))))
      (update_bitfield (Some sample_connection) (Some [0, 0, 0, 9]) 4 12 fresh_heap) = Some (True, 1)"
    by code_simp
  moreover have "unat (read_uint32 [0, 0, 0, 9]) = 9" by code_simp
  moreover have "\<not> peer_has sample_connection 8" by (simp add: peer_has_def sample_connection_def)
  ultimately show ?thesis
    using have_marks_piece [OF sample_connection_wf [of 12], of "[0, 0, 0, 9]" 4 fresh_heap] by (force split: if_splits)
qed

text \<open>
  C38: \<open>bitfield_applied\<close> accepts a bitfield message exactly when the peer has sent none before
  and its bytes are a bitfield for this torrent, \<open>(n + 7) div 8\<close> bytes with no bit set beyond the
  last piece; it then knows exactly the pieces the bits say.
\<close>

theorem bitfield_accepted_exactly:
  assumes "wf_connection piece_count c" and "unat piece_count < 2 ^ 60" and "plentiful h"
    and "payload \<noteq> []" and "unat payload_length = length payload"
  shows "\<exists>ok c' h'. bitfield_applied (Some c) (Some payload) payload_length piece_count h = Some (ok, Some c', h') \<and>
    (ok \<longleftrightarrow> pc_bitfield c = None \<and> valid_bitfield piece_count payload) \<and> wf_connection piece_count c' \<and>
    (if ok then \<forall>j. peer_has c' j \<longleftrightarrow> has_bit payload j else c' = c)"
proof -
  obtain ok c' h' where run: "bitfield_applied (Some c) (Some payload) payload_length piece_count h = Some (ok, Some c', h')"
    "wf_connection piece_count c'"
    "if ok then pc_bitfield c = None \<and> valid_bitfield piece_count payload \<and>
        c' = c\<lparr>pc_bitfield := Some payload, pc_bitfield_length := payload_length\<rparr>
     else c' = c \<and> (plentiful h \<longrightarrow> pc_bitfield c \<noteq> None \<or> \<not> valid_bitfield piece_count payload)"
    using bitfield_applied_step [OF assms(1,2,4,5), of h] by blast
  then show ?thesis
    using assms(3) by (intro exI [of _ ok] exI [of _ c'] exI [of _ h']) (auto simp: peer_has_def split: if_splits)
qed

theorem bitfield_accepted_exactly_witness:
  "valid_bitfield 12 [0x80, 0x10] \<and> \<not> valid_bitfield 12 [0x80, 0x08] \<and>
   (\<exists>c' h'. bitfield_applied (Some sample_connection) (Some [0x80, 0x10]) 2 12 fresh_heap = Some (True, Some c', h') \<and>
     peer_has c' 0 \<and> peer_has c' 11)"
proof -
  have bits: "has_bit [0x80, 0x10] 0" "has_bit [0x80, 0x10] 11" "has_bit [0x80, 0x08] 12" by code_simp+
  have "\<not> has_bit [0x80, 0x10] i" if "12 \<le> i" "i < 16" for i
  proof -
    have "i = 12 \<or> i = 13 \<or> i = 14 \<or> i = 15" using that by linarith
    moreover have "\<not> has_bit [0x80, 0x10] 12" "\<not> has_bit [0x80, 0x10] 13" "\<not> has_bit [0x80, 0x10] 14"
      "\<not> has_bit [0x80, 0x10] 15" by code_simp+
    ultimately show ?thesis by auto
  qed
  then have valid: "valid_bitfield 12 [0x80, 0x10]"
    by (auto simp: valid_bitfield_def bitfield_size_def)
  moreover have "\<not> valid_bitfield 12 [0x80, 0x08]"
    using bits(3) by (auto simp: valid_bitfield_def bitfield_size_def)
  moreover have "pc_bitfield sample_connection = None" by (simp add: sample_connection_def)
  ultimately show ?thesis
    using bitfield_accepted_exactly [OF sample_connection_wf [of 12], of fresh_heap "[0x80, 0x10]" 2] bits
    by (auto split: if_splits)
qed

text \<open>
  C10: \<open>process_incoming_piece_message\<close> stores a block exactly when the message answers the
  request that is pending: same piece, same offset, same length, inside the piece. It then
  replaces just those bytes of the buffer, counts them and closes the request; any other
  message leaves the state as it is.
\<close>

theorem piece_message_exact:
  assumes "wf_message m" and "msg_id m = PEER_MESSAGE_PIECE" and "msg_is_keep_alive m = False"
    and "valid_frame (frame_of m)"
    and "ds_piece_buffer st = Some buf" and "unat (ds_piece_size st) \<le> length buf"
  shows "if \<exists>blk. answers_request st (frame_of m) blk
    then \<exists>blk. answers_request st (frame_of m) blk \<and> process_incoming_piece_message (Some st) (Some m) =
      Some (True, Some (st\<lparr>
        ds_piece_buffer := Some (take (unat (ds_requested_begin st)) buf @ blk @
          drop (unat (ds_requested_begin st) + length blk) buf),
        ds_bytes_received := ds_bytes_received st + ds_requested_length st, ds_request_pending := False\<rparr>))
    else process_incoming_piece_message (Some st) (Some m) = Some (False, Some st)"
  by (rule process_piece_step [OF assms])

definition sample_piece_state :: piece_download_state where
  "sample_piece_state = \<lparr>ds_piece_index = 1, ds_piece_size = 4, ds_piece_buffer = Some [9, 9, 9, 9],
     ds_bytes_received = 2, ds_request_pending = True, ds_requested_begin = 2, ds_requested_length = 2\<rparr>"

definition sample_piece_message :: peer_wire_message where
  "sample_piece_message = \<lparr>msg_id = PEER_MESSAGE_PIECE, msg_payload = Some [0, 0, 0, 1, 0, 0, 0, 2, 7, 8],
     msg_payload_length = 10, msg_is_keep_alive = False\<rparr>"

theorem piece_message_exact_witness:
  "\<exists>st'. process_incoming_piece_message (Some sample_piece_state) (Some sample_piece_message) = Some (True, Some st') \<and>
    ds_piece_buffer st' = Some [9, 9, 7, 8] \<and> ds_bytes_received st' = 4 \<and> \<not> ds_request_pending st'"
proof -
  have m: "wf_message sample_piece_message" "msg_id sample_piece_message = PEER_MESSAGE_PIECE"
    "msg_is_keep_alive sample_piece_message = False" "valid_frame (frame_of sample_piece_message)"
    by (simp_all add: wf_message_def sample_piece_message_def frame_of_def)
  have st: "ds_piece_buffer sample_piece_state = Some [9, 9, 9, 9]"
    "unat (ds_piece_size sample_piece_state) \<le> length [9, 9, 9, 9 :: byte]"
    by (simp_all add: sample_piece_state_def)
  have bytes: "uint32_bytes 1 = [0, 0, 0, 1]" "uint32_bytes 2 = [0, 0, 0, 2]" by code_simp+
  have "answers_request sample_piece_state (frame_of sample_piece_message) [7, 8]"
  proof -
    have "frame_of sample_piece_message = piece_frame 1 2 [7, 8]"
      by (simp add: piece_frame_def frame_of_def sample_piece_message_def bytes)
    then show ?thesis
      by (simp add: answers_request_def sample_piece_state_def) (rule exI [of _ 1], rule exI [of _ 2], simp)
  qed
  moreover have only: "blk = [7, 8]"
    if answer: "answers_request sample_piece_state (frame_of sample_piece_message) blk" for blk
  proof -
    obtain i b where "frame_of sample_piece_message = piece_frame i b blk"
      using answer unfolding answers_request_def by blast
    then have "uint32_bytes i @ uint32_bytes b @ blk = [0, 0, 0, 1, 0, 0, 0, 2, 7, 8]"
      by (simp add: piece_frame_def frame_of_def sample_piece_message_def)
    then have "drop 8 (uint32_bytes i @ uint32_bytes b @ blk) = [7, 8]" by simp
    then show ?thesis by (simp add: be32.length_encode)
  qed
  ultimately have "\<exists>blk. answers_request sample_piece_state (frame_of sample_piece_message) blk" by blast
  then obtain blk where blk: "answers_request sample_piece_state (frame_of sample_piece_message) blk"
    "process_incoming_piece_message (Some sample_piece_state) (Some sample_piece_message) =
      Some (True, Some (sample_piece_state\<lparr>
        ds_piece_buffer := Some (take (unat (ds_requested_begin sample_piece_state)) [9, 9, 9, 9] @ blk @
          drop (unat (ds_requested_begin sample_piece_state) + length blk) [9, 9, 9, 9]),
        ds_bytes_received := ds_bytes_received sample_piece_state + ds_requested_length sample_piece_state,
        ds_request_pending := False\<rparr>))"
    using piece_message_exact [OF m st] by (metis (no_types, lifting))
  show ?thesis unfolding blk(2) only [OF blk(1)] by (simp add: sample_piece_state_def)
qed

end
