(* ===== verification/Output_File.thy ===== *)
theory Output_File
  imports Loco_Prelude
begin

text \<open>
  The file main writes the pieces to: its contents, the position in it, and the answers \<open>fseek\<close>
  and \<open>fwrite\<close> are going to give. A file is used as a store of slices; the locale says what the
  download relies on.
\<close>

section \<open>The output file\<close>

text \<open>
  An empty list of answers means that every call goes through; \<open>dk_writes\<close> limits the number
  of elements \<open>fwrite\<close> gets written.
\<close>

record disk =
  dk_contents :: "byte list"
  dk_position :: nat
  dk_seeks :: "bool list"
  dk_writes :: "nat list"

definition fseek :: "nat \<Rightarrow> disk \<Rightarrow> bool \<times> disk" where
  "fseek off d =
     (case dk_seeks d of
        [] \<Rightarrow> (True, d\<lparr>dk_position := off\<rparr>)
      | ok # answers \<Rightarrow> (ok, d\<lparr>dk_seeks := answers, dk_position := if ok then off else dk_position d\<rparr>))"

text \<open>Writing at a position, with a gap of zeros when it is beyond the end.\<close>

definition overwrite :: "byte list \<Rightarrow> nat \<Rightarrow> byte list \<Rightarrow> byte list" where
  "overwrite f p bs =
     (if bs = [] then f else take p (f @ replicate (p - length f) 0) @ bs @ drop (p + length bs) f)"

definition fwrite :: "byte list \<Rightarrow> disk \<Rightarrow> nat \<times> disk" where
  "fwrite bs d =
     (let written = (case dk_writes d of [] \<Rightarrow> length bs | k # _ \<Rightarrow> min k (length bs)) in
      (written, d\<lparr>dk_contents := overwrite (dk_contents d) (dk_position d) (take written bs),
         dk_position := dk_position d + written, dk_writes := tl (dk_writes d)\<rparr>))"

section \<open>Slices\<close>

definition slice :: "byte list \<Rightarrow> nat \<Rightarrow> nat \<Rightarrow> byte list" where
  "slice f i n = take n (drop i f)"

locale slice_store =
  fixes put :: "'f \<Rightarrow> nat \<Rightarrow> byte list \<Rightarrow> 'f"
    and get :: "'f \<Rightarrow> nat \<Rightarrow> nat \<Rightarrow> byte list"
    and extent :: "'f \<Rightarrow> nat"
  assumes get_put: "p \<le> extent f \<Longrightarrow> get (put f p bs) p (length bs) = bs"
    and get_before: "p \<le> extent f \<Longrightarrow> i + n \<le> p \<Longrightarrow> get (put f p bs) i n = get f i n"
    and extent_put: "p \<le> extent f \<Longrightarrow> extent (put f p bs) = max (extent f) (p + length bs)"
begin

text \<open>Slices that end before the place written to are kept.\<close>

lemma slices_kept:
  assumes "p \<le> extent f" "\<And>i. i < k \<Longrightarrow> pos i + len i \<le> p"
  shows "map (\<lambda>i. get (put f p bs) (pos i) (len i)) [0..<k] = map (\<lambda>i. get f (pos i) (len i)) [0..<k]"
  using assms by (auto simp: get_before)

text \<open>Writing the next slice adds it to those already there.\<close>

lemma slices_snoc:
  assumes "pos k \<le> extent f" "\<And>i. i < k \<Longrightarrow> pos i + len i \<le> pos k" "len k = length bs"
  shows "map (\<lambda>i. get (put f (pos k) bs) (pos i) (len i)) [0..<Suc k] =
    map (\<lambda>i. get f (pos i) (len i)) [0..<k] @ [bs]"
  using slices_kept [of "pos k" f k pos len bs] assms by (simp add: get_put)

lemma extent_grows: "p \<le> extent f \<Longrightarrow> extent f \<le> extent (put f p bs) \<and> p + length bs \<le> extent (put f p bs)"
  by (simp add: extent_put)

lemma extent_bounded:
  "p \<le> extent f \<Longrightarrow> extent f \<le> n \<Longrightarrow> p + length bs \<le> n \<Longrightarrow> extent (put f p bs) \<le> n"
  by (simp add: extent_put)

end

lemma overwrite_inside: "p \<le> length f \<Longrightarrow> overwrite f p bs = take p f @ bs @ drop (p + length bs) f"
  by (auto simp: overwrite_def)

interpretation disk_file: slice_store overwrite slice length
proof unfold_locales
  fix f :: "byte list" and p i n and bs :: "byte list"
  assume p: "p \<le> length f"
  show "slice (overwrite f p bs) p (length bs) = bs"
    and "length (overwrite f p bs) = max (length f) (p + length bs)"
    using p by (simp_all add: overwrite_inside slice_def)
  show "slice (overwrite f p bs) i n = slice f i n" if inside: "i + n \<le> p"
  proof -
    have "n \<le> p - i" "n \<le> length (take p f) - i" using p inside by simp_all
    then have "take n (drop i (take p f @ bs @ drop (p + length bs) f)) = take n (drop i f)"
      using p by (simp add: drop_take min_absorb1)
    then show ?thesis using p by (simp add: overwrite_inside slice_def)
  qed
qed

text \<open>A file whose calls go through.\<close>

definition healthy :: "disk \<Rightarrow> bool" where
  "healthy d \<longleftrightarrow> dk_seeks d = [] \<and> dk_writes d = []"

end
