(* ===== verification/Download.thy ===== *)
theory Download
  imports Peer_State Output_File
begin

text \<open>
  The download in src/main.c: the loop over the messages of one peer (receive, dispatch,
  complete a piece, request the next block) and the loop over the peers. SHA-1 is a function of
  the context, and what the network does with each peer is an argument.
\<close>

section \<open>State\<close>

text \<open>What main has computed before the loops: \<open>piece_count\<close>, \<open>total_file_size\<close>, \<open>normal_piece_size\<close>.\<close>

record download_context =
  dc_piece_count :: size_t
  dc_total_file_size :: size_t
  dc_normal_piece_size :: size_t
  dc_pieces :: bencode_segment
  dc_info_hash :: "byte list"
  dc_peer_id :: "byte list"
  dc_sha1 :: "byte list \<Rightarrow> byte list"

text \<open>The variables the loop over one peer's messages works on.\<close>

record session =
  ss_conn :: peer_connection
  ss_piece :: piece_download_state
  ss_message :: peer_wire_message
  ss_socket :: socket
  ss_disk :: disk
  ss_heap :: heap
  ss_complete :: bool

text \<open>Where control goes after a part of the loop's body: on, or out of the loop (\<open>break\<close>).\<close>

datatype flow = Go session | Leave session

abbreviation LONG_MAX :: size_t where "LONG_MAX \<equiv> 9223372036854775807"
abbreviation UINT32_MAX :: size_t where "UINT32_MAX \<equiv> 4294967295"
abbreviation DEFAULT_REQUEST_BLOCK_SIZE :: size_t where "DEFAULT_REQUEST_BLOCK_SIZE \<equiv> 16384"

text \<open>\<open>reset_piece_state(&current_piece_state)\<close>\<close>

definition reset_piece :: "piece_download_state \<Rightarrow> piece_download_state" where
  "reset_piece st = (case reset_piece_state (Some st) of Some st' \<Rightarrow> st' | None \<Rightarrow> st)"

section \<open>The loop over the messages\<close>

text \<open>The switch over the message id; the result is false where the code gives up the connection.\<close>

definition dispatch_message :: "download_context \<Rightarrow> session \<Rightarrow> (bool \<times> session) option" where
  "dispatch_message ctx s =
     (case msg_id (ss_message s) of
        PEER_MESSAGE_CHOKE \<Rightarrow> Some (True, s\<lparr>ss_conn := (ss_conn s)\<lparr>pc_peer_choking_us := True\<rparr>\<rparr>)
      | PEER_MESSAGE_UNCHOKE \<Rightarrow> Some (True, s\<lparr>ss_conn := (ss_conn s)\<lparr>pc_peer_choking_us := False\<rparr>\<rparr>)
      | PEER_MESSAGE_INTERESTED \<Rightarrow> Some (True, s)
      | PEER_MESSAGE_NOT_INTERESTED \<Rightarrow> Some (True, s)
      | PEER_MESSAGE_HAVE \<Rightarrow> do {
          (bitfield_set, conn, h) \<leftarrow> update_bitfield (Some (ss_conn s)) (msg_payload (ss_message s))
             (msg_payload_length (ss_message s)) (dc_piece_count ctx) (ss_heap s);
          conn \<leftarrow> conn;
          Some (bitfield_set, s\<lparr>ss_conn := conn, ss_heap := h\<rparr>)
        }
      | PEER_MESSAGE_BITFIELD \<Rightarrow> do {
          (bitfield_payload_applied, conn, h) \<leftarrow> bitfield_applied (Some (ss_conn s)) (msg_payload (ss_message s))
             (msg_payload_length (ss_message s)) (dc_piece_count ctx) (ss_heap s);
          conn \<leftarrow> conn;
          Some (bitfield_payload_applied, s\<lparr>ss_conn := conn, ss_heap := h\<rparr>)
        }
      | PEER_MESSAGE_REQUEST \<Rightarrow> Some (True, s)
      | PEER_MESSAGE_PIECE \<Rightarrow> do {
          (processed, st) \<leftarrow> process_incoming_piece_message (Some (ss_piece s)) (Some (ss_message s));
          st \<leftarrow> st;
          Some (processed, s\<lparr>ss_piece := st\<rparr>)
        }
      | PEER_MESSAGE_CANCEL \<Rightarrow> Some (True, s)
      | PEER_MESSAGE_INVALID \<Rightarrow> Some (True, s))"

text \<open>After a piece has been written: is the next one the last, and how long is it?\<close>

definition next_piece :: "download_context \<Rightarrow> session \<Rightarrow> flow" where
  "next_piece ctx s =
     (let st = ss_piece s in
      if ds_piece_index st \<ge> dc_piece_count ctx then Leave (s\<lparr>ss_complete := True\<rparr>)
      else
        let last_index = dc_piece_count ctx - 1 in
        if ds_piece_index st = last_index then
          if last_index \<noteq> 0 \<and> dc_normal_piece_size ctx > SIZE_MAX div last_index then Leave s
          else
            let offset_last_piece = dc_normal_piece_size ctx * last_index in
            if offset_last_piece > dc_total_file_size ctx then Leave s
            else
              let remaining_piece_size = dc_total_file_size ctx - offset_last_piece in
              Go (s\<lparr>ss_piece := st\<lparr>ds_piece_size := remaining_piece_size\<rparr>\<rparr>)
        else Go s)"

text \<open>When all bytes of the piece are there: check the hash, write the piece, advance.\<close>

definition complete_piece :: "download_context \<Rightarrow> session \<Rightarrow> flow option" where
  "complete_piece ctx s =
     (let st = ss_piece s in
      if ds_bytes_received st = ds_piece_size st then
        let sha1_offset_current_piece_index = ds_piece_index st * 20 in
        if sha1_offset_current_piece_index > seg_length (dc_pieces ctx) - 20 then Some (Leave s)
        else do {
          hash_pointer \<leftarrow> ptr_add (seg_data (dc_pieces ctx)) (unat sha1_offset_current_piece_index);
          buffer \<leftarrow> ds_piece_buffer st;
          piece \<leftarrow> read_bytes (Ptr buffer 0) (unat (ds_piece_size st));
          expected \<leftarrow> read_bytes hash_pointer 20;
          if memcmp (dc_sha1 ctx piece) expected \<noteq> 0 then Some (Leave (s\<lparr>ss_piece := reset_piece st\<rparr>))
          else if ds_piece_index st \<noteq> 0 \<and> dc_normal_piece_size ctx > SIZE_MAX div ds_piece_index st then Some (Leave s)
          else
            let file_offset = ds_piece_index st * dc_normal_piece_size ctx in
            if file_offset > LONG_MAX then Some (Leave s)
            else
              let (seek_ok, d) = fseek (unat file_offset) (ss_disk s) in
              if \<not> seek_ok then Some (Leave (s\<lparr>ss_disk := d\<rparr>))
              else
                let (written_elements, d) = fwrite piece d in
                if written_elements \<noteq> unat (ds_piece_size st) then Some (Leave (s\<lparr>ss_disk := d\<rparr>))
                else Some (next_piece ctx (s\<lparr>ss_disk := d,
                  ss_piece := reset_piece (st\<lparr>ds_piece_index := ds_piece_index st + 1\<rparr>)\<rparr>))
        }
      else Some (Go s))"

text \<open>Sending the request for the next block.\<close>

definition send_next_request :: "int \<Rightarrow> session \<Rightarrow> flow option" where
  "send_next_request fd s =
     (let st = ss_piece s in
      if pc_we_are_interested (ss_conn s) = True \<and> pc_peer_choking_us (ss_conn s) = False \<and>
        ds_request_pending st = False then
        let remaining = ds_piece_size st - ds_bytes_received st;
            request_begin = ds_bytes_received st;
            request_length = (if remaining < DEFAULT_REQUEST_BLOCK_SIZE then remaining else DEFAULT_REQUEST_BLOCK_SIZE) in
        if ds_piece_index st > UINT32_MAX \<or> ds_bytes_received st > UINT32_MAX then Some (Leave s)
        else do {
          (requested, sock) \<leftarrow> peer_send_request fd (ucast (ds_piece_index st)) (ucast request_begin)
             (ucast request_length) (ss_socket s);
          if \<not> requested then Some (Leave (s\<lparr>ss_socket := sock\<rparr>))
          else Some (Go (s\<lparr>ss_socket := sock, ss_piece := st\<lparr>ds_request_pending := True,
            ds_requested_length := request_length, ds_requested_begin := request_begin\<rparr>\<rparr>))
        }
      else Some (Go s))"

text \<open>With the peer's bitfield known: does it have the piece, is interest declared, request.\<close>

definition request_block :: "download_context \<Rightarrow> int \<Rightarrow> session \<Rightarrow> flow option" where
  "request_block ctx fd s =
     (case pc_bitfield (ss_conn s) of
        None \<Rightarrow> Some (Go s)
      | Some bytes \<Rightarrow>
          let st = ss_piece s in
          if ds_piece_index st \<ge> dc_piece_count ctx then Some (Leave s)
          else
            let byte_index = ds_piece_index st div 8;
                bit_position = ds_piece_index st mod 8;
                mask = (drop_bit (unat bit_position) 0x80 :: byte) in
            if byte_index \<ge> pc_bitfield_length (ss_conn s) then Some (Leave s)
            else do {
              b \<leftarrow> deref (Ptr bytes 0) (unat byte_index);
              if b AND mask = 0 then Some (Leave s)
              else if ds_bytes_received st > ds_piece_size st then Some (Leave s)
              else if pc_we_are_interested (ss_conn s) = False then do {
                (interested_sent, sock) \<leftarrow> peer_send_interested fd (ss_socket s);
                if \<not> interested_sent then Some (Leave (s\<lparr>ss_socket := sock\<rparr>))
                else send_next_request fd (s\<lparr>ss_socket := sock, ss_conn := (ss_conn s)\<lparr>pc_we_are_interested := True\<rparr>\<rparr>)
              }
              else send_next_request fd s
            })"

text \<open>After the switch: complete the piece if all of it is there, then ask for the next block.\<close>

definition after_switch :: "download_context \<Rightarrow> int \<Rightarrow> session \<Rightarrow> flow option" where
  "after_switch ctx fd s = do {
     after \<leftarrow> complete_piece ctx s;
     case after of
       Leave s \<Rightarrow> Some (Leave s)
     | Go s \<Rightarrow> request_block ctx fd s
   }"

text \<open>What the loop does with a message that is not a keep-alive.\<close>

definition handle_message :: "download_context \<Rightarrow> int \<Rightarrow> session \<Rightarrow> flow option" where
  "handle_message ctx fd s = do {
     (ok, s) \<leftarrow> dispatch_message ctx s;
     if \<not> ok then Some (Leave s) else after_switch ctx fd s
   }"

text \<open>The body of \<open>while (connection_active)\<close>.\<close>

definition iteration :: "download_context \<Rightarrow> int \<Rightarrow> session \<Rightarrow> flow option" where
  "iteration ctx fd s = do {
     let (message, h) = free_peer_wire_message (ss_message s) (ss_heap s);
     (received_msg, message, sock, h) \<leftarrow> receive_peer_wire_message fd (Some message) (ss_socket s) h;
     message \<leftarrow> message;
     let s = s\<lparr>ss_message := message, ss_socket := sock, ss_heap := h\<rparr>;
     if \<not> received_msg then Some (Leave s)
     else if msg_is_keep_alive message then Some (Go s)
     else handle_message ctx fd s
   }"

section \<open>The loop terminates\<close>

text \<open>Every turn that goes on has taken a message off the socket, and sending takes nothing off it.\<close>

lemma socket_of_sends:
  "0 \<le> fd \<Longrightarrow> peer_send_request fd i b n sock = Some (ok, sock') \<Longrightarrow> sk_rx sock' = sk_rx sock"
  "0 \<le> fd \<Longrightarrow> peer_send_interested fd sock = Some (ok, sock') \<Longrightarrow> sk_rx sock' = sk_rx sock"
  using peer_send_request_sends [of fd i b n sock] peer_send_interested_sends [of fd sock]
  by (auto simp: sends_def)

lemma send_next_request_socket:
  assumes "0 \<le> fd"
  shows "send_next_request fd s = Some (Go s') \<Longrightarrow> sk_rx (ss_socket s') = sk_rx (ss_socket s)"
  using socket_of_sends(1) [OF assms]
  by (auto simp: send_next_request_def Let_def bind_eq_Some_conv split: if_splits)

lemma request_block_socket:
  assumes "0 \<le> fd"
  shows "request_block ctx fd s = Some (Go s') \<Longrightarrow> sk_rx (ss_socket s') = sk_rx (ss_socket s)"
  using socket_of_sends(2) [OF assms]
  by (auto simp: request_block_def Let_def bind_eq_Some_conv
      dest!: send_next_request_socket [OF assms] split: option.splits if_splits)

lemma complete_piece_socket:
  "complete_piece ctx s = Some (Go s') \<Longrightarrow> ss_socket s' = ss_socket s"
  by (auto simp: complete_piece_def next_piece_def Let_def bind_eq_Some_conv split: if_splits prod.splits)

lemma dispatch_message_socket:
  "dispatch_message ctx s = Some (ok, s') \<Longrightarrow> ss_socket s' = ss_socket s"
  by (auto simp: dispatch_message_def bind_eq_Some_conv split: message_id.splits)

lemma flow_Go: "(case r of Leave s \<Rightarrow> Some (Leave s) | Go s \<Rightarrow> f s) = Some (Go s') \<longleftrightarrow> (\<exists>s. r = Go s \<and> f s = Some (Go s'))"
  by (cases r) auto

lemma handle_message_socket:
  assumes "0 \<le> fd"
  shows "handle_message ctx fd s = Some (Go s') \<Longrightarrow> sk_rx (ss_socket s') = sk_rx (ss_socket s)"
  by (auto simp: handle_message_def after_switch_def bind_eq_Some_conv flow_Go
      dest!: request_block_socket [OF assms] complete_piece_socket dispatch_message_socket split: if_splits)

lemma iteration_shrinks:
  assumes "iteration ctx fd s = Some (Go s')"
  shows "script_size (sk_rx (ss_socket s')) < script_size (sk_rx (ss_socket s))"
proof -
  from assms have fd: "0 \<le> fd"
    by (rule_tac ccontr)
      (auto simp: iteration_def free_peer_wire_message_def receive_peer_wire_message_def split: prod.splits)
  obtain ok m sock h where r: "receive_peer_wire_message fd (Some blank_message) (ss_socket s)
      (free (msg_payload (ss_message s) = None) (ss_heap s)) = Some (ok, Some m, sock, h)"
    "ok \<Longrightarrow> script_size (sk_rx sock) < script_size (sk_rx (ss_socket s))"
    using receive_frame [OF fd, of "ss_socket s" "free (msg_payload (ss_message s) = None) (ss_heap s)"] by force
  show ?thesis
    using assms r
    by (auto simp: iteration_def free_peer_wire_message_def bind_eq_Some_conv Let_def
        dest!: handle_message_socket [OF fd] split: if_splits)
qed

function session_loop :: "download_context \<Rightarrow> int \<Rightarrow> session \<Rightarrow> session option" where
  "session_loop ctx fd s =
     (case iteration ctx fd s of
        None \<Rightarrow> None
      | Some (Leave s') \<Rightarrow> Some s'
      | Some (Go s') \<Rightarrow> session_loop ctx fd s')"
  by pat_completeness auto
termination
  by (relation "measure (\<lambda>(ctx, fd, s). script_size (sk_rx (ss_socket s)))") (auto simp: iteration_shrinks)

declare session_loop.simps [simp del]

section \<open>The loop over the peers\<close>

record download =
  dl_piece :: piece_download_state
  dl_disk :: disk
  dl_heap :: heap
  dl_fds :: "int set"
  dl_complete :: bool

text \<open>What the network does when the client turns to a peer.\<close>

record peer_network =
  pn_connect :: connect_answers
  pn_socket :: socket

text \<open>The clean-up after the message loop.\<close>

definition leave_peer :: "int \<Rightarrow> session \<Rightarrow> int set \<Rightarrow> download" where
  "leave_peer fd s fds =
     (let h = free (pc_bitfield (ss_conn s) = None) (ss_heap s);
          (message, h) = free_peer_wire_message (ss_message s) h in
      \<lparr>dl_piece = reset_piece (ss_piece s), dl_disk = ss_disk s, dl_heap = h, dl_fds = close_fd fd fds,
       dl_complete = ss_complete s\<rparr>)"

definition enter_peer :: "int \<Rightarrow> peer \<Rightarrow> socket \<Rightarrow> download \<Rightarrow> session" where
  "enter_peer fd p sock d =
     \<lparr>ss_conn = \<lparr>pc_bitfield = None, pc_bitfield_length = 0, pc_peer = p, pc_peer_choking_us = True,
        pc_we_are_interested = False, pc_socket = fd\<rparr>,
      ss_piece = dl_piece d, ss_message = blank_message, ss_socket = sock, ss_disk = dl_disk d,
      ss_heap = dl_heap d, ss_complete = dl_complete d\<rparr>"

definition fetch_from_peer :: "download_context \<Rightarrow> peer \<Rightarrow> peer_network \<Rightarrow> download \<Rightarrow> download option" where
  "fetch_from_peer ctx p net d =
     (let (fd, fds) = connect_to_peer (pn_connect net) (Some p) (dl_fds d) in
      if fd < 0 then Some (d\<lparr>dl_piece := reset_piece (dl_piece d), dl_fds := fds\<rparr>)
      else do {
        (handshake_success, sock) \<leftarrow>
          handshake_with_peer (Some (dc_info_hash ctx)) (Some (dc_peer_id ctx)) (pn_socket net);
        if \<not> handshake_success then
          Some (d\<lparr>dl_piece := reset_piece (dl_piece d), dl_fds := close_fd fd fds\<rparr>)
        else do {
          s \<leftarrow> session_loop ctx fd (enter_peer fd p sock d);
          Some (leave_peer fd s fds)
        }
      })"

text \<open>The state main enters the loop with: \<open>current_piece_state\<close> and an empty file.\<close>

definition first_piece_state :: "size_t \<Rightarrow> byte list \<Rightarrow> piece_download_state" where
  "first_piece_state first_piece_size piece_buffer =
     \<lparr>ds_piece_index = 0, ds_piece_size = first_piece_size, ds_piece_buffer = Some piece_buffer,
      ds_bytes_received = 0, ds_request_pending = False, ds_requested_begin = 0, ds_requested_length = 0\<rparr>"

definition first_piece_size :: "download_context \<Rightarrow> size_t" where
  "first_piece_size ctx = (if dc_piece_count ctx = 1 then dc_total_file_size ctx else dc_normal_piece_size ctx)"

fun peers_loop :: "download_context \<Rightarrow> (peer \<times> peer_network) list \<Rightarrow> download \<Rightarrow> download option" where
  "peers_loop ctx [] d = Some d"
| "peers_loop ctx ((p, net) # peers) d =
     (if dl_complete d then Some d
      else do {
        d \<leftarrow> fetch_from_peer ctx p net d;
        peers_loop ctx peers d
      })"

end
