(* ===== verification/Download_Spec.thy ===== *)
theory Download_Spec
  imports Download
begin

text \<open>
  What the download has to do, without buffers, words and control flow: a state machine that
  asks for the next block of the current piece, takes the answer, and moves on to the next
  piece when the hash is right. It may drop an unfinished piece at any time. The theory also
  says which torrents are consistent, and how a state of main stands for a state of the machine.
\<close>

section \<open>The layout of the file\<close>

record layout =
  ly_count :: nat
  ly_total :: nat
  ly_piece :: nat
  ly_hash :: "nat \<Rightarrow> byte list"
  ly_sha1 :: "byte list \<Rightarrow> byte list"

definition piece_start :: "layout \<Rightarrow> nat \<Rightarrow> nat" where
  "piece_start l i = i * ly_piece l"

text \<open>All pieces have the same size, but the last takes what is left.\<close>

definition size_at :: "layout \<Rightarrow> nat \<Rightarrow> nat" where
  "size_at l i = (if i = ly_count l - 1 then ly_total l - piece_start l i else ly_piece l)"

definition piece_room :: "layout \<Rightarrow> nat" where
  "piece_room l = (if ly_count l = 1 then ly_total l else ly_piece l)"

definition piece_of :: "layout \<Rightarrow> byte list \<Rightarrow> nat \<Rightarrow> byte list" where
  "piece_of l f i = slice f (piece_start l i) (size_at l i)"

text \<open>
  A layout in which the pieces cover the file: all but the last are full, and the last is not
  longer than a piece. One piece alone may have any size.
\<close>

definition consistent :: "layout \<Rightarrow> bool" where
  "consistent l \<longleftrightarrow>
     0 < ly_count l \<and> 0 < ly_piece l \<and> piece_start l (ly_count l - 1) \<le> ly_total l \<and>
     (1 < ly_count l \<longrightarrow> ly_total l \<le> ly_count l * ly_piece l)"

text \<open>
  What memory safety needs of a layout, and no more: that the last of several pieces is not longer
  than the others, so that it fits the buffer of one. The file may be too short.
\<close>

definition fits :: "layout \<Rightarrow> bool" where
  "fits l \<longleftrightarrow> (1 < ly_count l \<longrightarrow> ly_total l \<le> ly_count l * ly_piece l)"

lemma consistent_fits: "consistent l \<Longrightarrow> fits l"
  by (simp add: consistent_def fits_def)

lemma size_at_room: "consistent l \<Longrightarrow> i < ly_count l \<Longrightarrow> size_at l i \<le> piece_room l"
  by (cases "ly_count l = 1")
    (auto simp: size_at_def piece_room_def piece_start_def consistent_def diff_mult_distrib)

lemma piece_end: "consistent l \<Longrightarrow> i < ly_count l \<Longrightarrow> piece_start l i + size_at l i \<le> ly_total l"
proof -
  assume l: "consistent l" and i: "i < ly_count l"
  show ?thesis
  proof (cases "i = ly_count l - 1")
    case False
    then have "Suc i * ly_piece l \<le> (ly_count l - 1) * ly_piece l" using i by (intro mult_right_mono) auto
    then show ?thesis using l False by (auto simp: size_at_def piece_start_def consistent_def)
  qed (use l in \<open>simp add: size_at_def consistent_def\<close>)
qed

lemma next_start: "i < ly_count l - 1 \<Longrightarrow> piece_start l i + size_at l i = piece_start l (Suc i)"
  by (simp add: size_at_def piece_start_def)

lemma pieces_before:
  assumes "j < i" "i < ly_count l"
  shows "piece_start l j + size_at l j \<le> piece_start l i"
proof -
  have "piece_start l j + size_at l j = piece_start l (Suc j)" using assms by (intro next_start) simp
  also have "\<dots> \<le> piece_start l i"
    using assms mult_right_mono [of "Suc j" i "ly_piece l"] by (simp add: piece_start_def)
  finally show ?thesis .
qed

lemma last_end: "consistent l \<Longrightarrow> piece_start l (ly_count l - 1) + size_at l (ly_count l - 1) = ly_total l"
  by (simp add: size_at_def consistent_def)

text \<open>Where the verified part of the file ends.\<close>

definition verified_end :: "layout \<Rightarrow> nat \<Rightarrow> nat" where
  "verified_end l i = (if i < ly_count l then piece_start l i else ly_total l)"

lemma verified_end_Suc:
  "consistent l \<Longrightarrow> i < ly_count l \<Longrightarrow> verified_end l (Suc i) = piece_start l i + size_at l i"
  using last_end [of l] by (cases "i = ly_count l - 1") (auto simp: verified_end_def next_start)

section \<open>The machine\<close>

record fetch =
  ft_pieces :: "byte list list"
  ft_got :: "byte list"
  ft_pending :: "nat option"

definition start :: fetch where
  "start = \<lparr>ft_pieces = [], ft_got = [], ft_pending = None\<rparr>"

definition block_limit :: nat where
  "block_limit = 16384"

inductive fetch_step :: "layout \<Rightarrow> fetch \<Rightarrow> fetch \<Rightarrow> bool" for l :: layout where
  ask: "ft_pending s = None \<Longrightarrow> length (ft_pieces s) < ly_count l \<Longrightarrow>
    n = min block_limit (size_at l (length (ft_pieces s)) - length (ft_got s)) \<Longrightarrow>
    fetch_step l s (s\<lparr>ft_pending := Some n\<rparr>)"
| take_block: "ft_pending s = Some (length blk) \<Longrightarrow>
    fetch_step l s (s\<lparr>ft_got := ft_got s @ blk, ft_pending := None\<rparr>)"
| verify: "length (ft_pieces s) < ly_count l \<Longrightarrow> length (ft_got s) = size_at l (length (ft_pieces s)) \<Longrightarrow>
    ly_sha1 l (ft_got s) = ly_hash l (length (ft_pieces s)) \<Longrightarrow>
    fetch_step l s \<lparr>ft_pieces = ft_pieces s @ [ft_got s], ft_got = [], ft_pending = None\<rparr>"
| drop_piece: "fetch_step l s (s\<lparr>ft_got := [], ft_pending := None\<rparr>)"

inductive_cases fetch_stepE: "fetch_step l s t"
inductive_simps ask_iff: "fetch_step l s (s\<lparr>ft_pending := Some n\<rparr>)"

abbreviation fetches :: "layout \<Rightarrow> fetch \<Rightarrow> fetch \<Rightarrow> bool" where
  "fetches l \<equiv> rtranclp (fetch_step l)"

text \<open>Everything the machine has moved past has the size and the hash the torrent gives.\<close>

definition verified :: "layout \<Rightarrow> byte list list \<Rightarrow> bool" where
  "verified l ps \<longleftrightarrow>
     length ps \<le> ly_count l \<and>
     (\<forall>i < length ps. length (ps ! i) = size_at l i \<and> ly_sha1 l (ps ! i) = ly_hash l i)"

definition fetch_inv :: "layout \<Rightarrow> fetch \<Rightarrow> bool" where
  "fetch_inv l s \<longleftrightarrow>
     verified l (ft_pieces s) \<and>
     (length (ft_pieces s) < ly_count l \<longrightarrow>
        length (ft_got s) + (case ft_pending s of None \<Rightarrow> 0 | Some n \<Rightarrow> n) \<le> size_at l (length (ft_pieces s))) \<and>
     (case ft_pending s of None \<Rightarrow> True | Some n \<Rightarrow> n \<le> block_limit)"

lemma verified_snoc:
  "verified l ps \<Longrightarrow> length ps < ly_count l \<Longrightarrow> length p = size_at l (length ps) \<Longrightarrow>
   ly_sha1 l p = ly_hash l (length ps) \<Longrightarrow> verified l (ps @ [p])"
  by (auto simp: verified_def nth_append less_Suc_eq)

lemma fetch_inv_start: "fetch_inv l start"
  by (simp add: fetch_inv_def start_def verified_def)

lemma fetch_inv_step: "fetch_step l s t \<Longrightarrow> fetch_inv l s \<Longrightarrow> fetch_inv l t"
  by (induction rule: fetch_step.induct) (auto simp: fetch_inv_def verified_snoc split: option.splits)

lemma fetch_inv_reachable: "fetches l s t \<Longrightarrow> fetch_inv l s \<Longrightarrow> fetch_inv l t"
  by (induction rule: rtranclp_induct) (auto intro: fetch_inv_step)

text \<open>Verified pieces are never given up.\<close>

lemma pieces_extend_step: "fetch_step l s t \<Longrightarrow> \<exists>ps. ft_pieces t = ft_pieces s @ ps"
  by (erule fetch_stepE) auto

lemma pieces_extend: "fetches l s t \<Longrightarrow> \<exists>ps. ft_pieces t = ft_pieces s @ ps"
  by (induction rule: rtranclp_induct) (auto dest!: pieces_extend_step)

end
