(* ===== verification/Download_Steps.thy ===== *)
theory Download_Steps
  imports Download_Spec
begin

text \<open>
  The message loop of main refines the machine: each part of its body, in every case, is a
  sequence of steps of the machine, keeps the invariant of the session and accounts for every
  block of the heap.
\<close>

section \<open>From main's variables to the machine\<close>

definition layout_of :: "download_context \<Rightarrow> layout" where
  "layout_of ctx =
     \<lparr>ly_count = unat (dc_piece_count ctx), ly_total = unat (dc_total_file_size ctx),
      ly_piece = unat (dc_normal_piece_size ctx), ly_hash = (\<lambda>i. slice (seg_bytes (dc_pieces ctx)) (20 * i) 20),
      ly_sha1 = dc_sha1 ctx\<rparr>"

lemma layout_of_simps [simp]:
  "ly_count (layout_of ctx) = unat (dc_piece_count ctx)" "ly_total (layout_of ctx) = unat (dc_total_file_size ctx)"
  "ly_piece (layout_of ctx) = unat (dc_normal_piece_size ctx)" "ly_sha1 (layout_of ctx) = dc_sha1 ctx"
  "ly_hash (layout_of ctx) i = slice (seg_bytes (dc_pieces ctx)) (20 * i) 20"
  by (simp_all add: layout_of_def)

text \<open>
  What main has established before the loops (\<open>wf_context\<close>), and the one thing it has not: that
  the length, the piece length and the number of hashes of the torrent fit together.
\<close>

definition wf_context :: "download_context \<Rightarrow> bool" where
  "wf_context ctx \<longleftrightarrow>
     valid_segment (dc_pieces ctx) \<and> unat (seg_length (dc_pieces ctx)) = 20 * unat (dc_piece_count ctx) \<and>
     unat (dc_total_file_size ctx) < 2 ^ 63 \<and> (\<forall>x. length (dc_sha1 ctx x) = 20) \<and>
     length (dc_info_hash ctx) = 20 \<and> length (dc_peer_id ctx) = 20"

definition abs_fetch :: "download_context \<Rightarrow> piece_download_state \<Rightarrow> disk \<Rightarrow> fetch" where
  "abs_fetch ctx st d =
     \<lparr>ft_pieces = map (\<lambda>i. slice (dk_contents d) (piece_start (layout_of ctx) i) (size_at (layout_of ctx) i))
        [0..<unat (ds_piece_index st)],
      ft_got = take (unat (ds_bytes_received st)) (case ds_piece_buffer st of None \<Rightarrow> [] | Some buf \<Rightarrow> buf),
      ft_pending = (if ds_request_pending st then Some (unat (ds_requested_length st)) else None)\<rparr>"

abbreviation abs_session :: "download_context \<Rightarrow> session \<Rightarrow> fetch" where
  "abs_session ctx s \<equiv> abs_fetch ctx (ss_piece s) (ss_disk s)"

definition holding :: "download_context \<Rightarrow> piece_download_state \<Rightarrow> disk \<Rightarrow> bool" where
  "holding ctx st d \<longleftrightarrow>
     (\<exists>buf. ds_piece_buffer st = Some buf \<and> length buf = piece_room (layout_of ctx)) \<and>
     unat (ds_piece_index st) \<le> unat (dc_piece_count ctx) \<and>
     (unat (ds_piece_index st) < unat (dc_piece_count ctx) \<longrightarrow>
        unat (ds_piece_size st) = size_at (layout_of ctx) (unat (ds_piece_index st))) \<and>
     unat (ds_bytes_received st) \<le> unat (ds_piece_size st) \<and>
     (ds_request_pending st \<longrightarrow>
        unat (ds_piece_index st) < unat (dc_piece_count ctx) \<and> ds_requested_begin st = ds_bytes_received st \<and>
        unat (ds_bytes_received st) + unat (ds_requested_length st) \<le> unat (ds_piece_size st)) \<and>
     verified_end (layout_of ctx) (unat (ds_piece_index st)) \<le> length (dk_contents d) \<and>
     length (dk_contents d) \<le> unat (dc_total_file_size ctx)"

text \<open>The invariant of the session; \<open>base\<close> counts the blocks that are not the connection's.\<close>

definition sound :: "download_context \<Rightarrow> int \<Rightarrow> session \<Rightarrow> bool" where
  "sound ctx base s \<longleftrightarrow>
     holding ctx (ss_piece s) (ss_disk s) \<and> wf_connection (dc_piece_count ctx) (ss_conn s) \<and>
     live (ss_heap s) = base + bitfield_blocks (ss_conn s) + message_blocks (ss_message s) \<and>
     (ss_complete s \<longleftrightarrow> unat (ds_piece_index (ss_piece s)) = unat (dc_piece_count ctx))"

lemma reset_piece_eq:
  "reset_piece st = st\<lparr>ds_request_pending := False, ds_requested_length := 0, ds_requested_begin := 0,
     ds_bytes_received := 0\<rparr>"
  by (simp add: reset_piece_def reset_piece_state_def)

lemma reset_piece_index [simp]: "ds_piece_index (reset_piece st) = ds_piece_index st"
  by (simp add: reset_piece_eq)

text \<open>A reset drops the piece and keeps everything else.\<close>

lemma holding_reset: "holding ctx st d \<Longrightarrow> holding ctx (reset_piece st) d"
  by (simp add: holding_def reset_piece_eq)

lemma abs_reset: "abs_fetch ctx (reset_piece st) d = abs_fetch ctx st d\<lparr>ft_got := [], ft_pending := None\<rparr>"
  by (simp add: abs_fetch_def reset_piece_eq)

lemma reset_drops: "fetches l (abs_fetch ctx st d) (abs_fetch ctx (reset_piece st) d)"
  unfolding abs_reset by (rule r_into_rtranclp) (rule drop_piece)

lemma piece_count_bound: "wf_context ctx \<Longrightarrow> unat (dc_piece_count ctx) < 2 ^ 60"
  using unat_size_lt [of "seg_length (dc_pieces ctx)"] by (simp add: wf_context_def)

section \<open>The messages\<close>

text \<open>What a handler needs to know of the message it gets.\<close>

definition deliverable :: "peer_wire_message \<Rightarrow> bool" where
  "deliverable m \<longleftrightarrow> wf_message m \<and> valid_frame (frame_of m) \<and> \<not> msg_is_keep_alive m"

lemma deliverable_have:
  assumes "deliverable m" "msg_id m = PEER_MESSAGE_HAVE"
  obtains p where "msg_payload m = Some p" "length p = 4" "unat (msg_payload_length m) = 4"
  using assms by (cases "msg_payload m") (auto simp: deliverable_def frame_of_def wf_message_def)

lemma deliverable_bitfield:
  assumes "deliverable m"
  obtains "msg_payload m = None"
  | p where "msg_payload m = Some p" "p \<noteq> []" "unat (msg_payload_length m) = length p"
  using assms by (cases "msg_payload m") (auto simp: deliverable_def wf_message_def)

text \<open>What the step of a part of the loop's body guarantees.\<close>

definition advances :: "download_context \<Rightarrow> int \<Rightarrow> session \<Rightarrow> session \<Rightarrow> bool" where
  "advances ctx base s s' \<longleftrightarrow>
     sound ctx base s' \<and> fetches (layout_of ctx) (abs_session ctx s) (abs_session ctx s') \<and>
     (plentiful (ss_heap s) \<longrightarrow> plentiful (ss_heap s'))"

lemma advances_refl: "sound ctx base s \<Longrightarrow> advances ctx base s s"
  by (simp add: advances_def)

lemma advances_trans: "advances ctx base s s' \<Longrightarrow> advances ctx base s' s'' \<Longrightarrow> advances ctx base s s''"
  by (auto simp: advances_def)

text \<open>Changing the connection alone.\<close>

lemma advances_conn:
  assumes "sound ctx base s" and "wf_connection (dc_piece_count ctx) c"
    and "live h = live (ss_heap s) + bitfield_blocks c - bitfield_blocks (ss_conn s)"
    and "plentiful (ss_heap s) \<longrightarrow> plentiful h"
  shows "advances ctx base s (s\<lparr>ss_conn := c, ss_heap := h\<rparr>)"
  using assms by (simp add: advances_def sound_def)

lemma advances_flag:
  assumes "sound ctx base s"
  shows "advances ctx base s (s\<lparr>ss_conn := (ss_conn s)\<lparr>pc_peer_choking_us := b\<rparr>\<rparr>)"
    and "advances ctx base s (s\<lparr>ss_conn := (ss_conn s)\<lparr>pc_we_are_interested := b\<rparr>\<rparr>)"
  using assms
  by (cases "pc_bitfield (ss_conn s)"; simp add: advances_def sound_def wf_connection_def bitfield_blocks_def)+

text \<open>A block that answers the pending request.\<close>

lemma piece_message_step:
  assumes h: "holding ctx st d" and l: "consistent (layout_of ctx)"
    and m: "deliverable m" "msg_id m = PEER_MESSAGE_PIECE"
  shows "\<exists>ok st'. process_incoming_piece_message (Some st) (Some m) = Some (ok, Some st') \<and> holding ctx st' d \<and>
    ds_piece_index st' = ds_piece_index st \<and>
    fetches (layout_of ctx) (abs_fetch ctx st d) (abs_fetch ctx st' d)"
proof -
  obtain buf where buf: "ds_piece_buffer st = Some buf" "length buf = piece_room (layout_of ctx)"
    using h by (auto simp: holding_def)
  show ?thesis
  proof (cases "ds_request_pending st")
    case False
    then have "process_incoming_piece_message (Some st) (Some m) = Some (False, Some st)"
      using buf by (simp add: process_incoming_piece_message_def)
    then show ?thesis using h by blast
  next
    case True
    let ?r = "unat (ds_bytes_received st)" and ?n = "unat (ds_requested_length st)"
    have p: "unat (ds_piece_index st) < unat (dc_piece_count ctx)" "ds_requested_begin st = ds_bytes_received st"
      "?r + ?n \<le> unat (ds_piece_size st)"
      using h True unfolding holding_def by blast+
    then have size: "unat (ds_piece_size st) = size_at (layout_of ctx) (unat (ds_piece_index st))"
      using h by (simp add: holding_def)
    then have room: "unat (ds_piece_size st) \<le> length buf"
      using size_at_room [OF l] p(1) buf(2) by simp
    have msg: "wf_message m" "msg_is_keep_alive m = False" "valid_frame (frame_of m)"
      using m(1) by (simp_all add: deliverable_def)
    note run = process_piece_step [OF msg(1) m(2) msg(2,3) buf(1) room]
    show ?thesis
    proof (cases "\<exists>blk. answers_request st (frame_of m) blk")
      case False
      then show ?thesis using run h by auto
    next
      case True
      let ?st = "\<lambda>blk. st\<lparr>ds_piece_buffer := Some (take ?r buf @ blk @ drop (?r + length blk) buf),
        ds_bytes_received := ds_bytes_received st + ds_requested_length st, ds_request_pending := False\<rparr>"
      obtain blk where blk: "length blk = ?n"
        "process_incoming_piece_message (Some st) (Some m) = Some (True, Some (?st blk))"
        using run True p(2) by (auto simp: answers_request_def)
      have r: "unat (ds_bytes_received st + ds_requested_length st) = ?r + ?n"
        using p(3) unat_size_lt [of "ds_piece_size st"] by (intro unat_plus_bounded) simp
      have "holding ctx (?st blk) d"
        using h buf blk(1) r p(3) room by (simp add: holding_def)
      moreover have "abs_fetch ctx (?st blk) d =
          abs_fetch ctx st d\<lparr>ft_got := ft_got (abs_fetch ctx st d) @ blk, ft_pending := None\<rparr>"
        using buf(1) blk(1) r p(3) room by (simp add: abs_fetch_def)
      moreover have "fetch_step (layout_of ctx) (abs_fetch ctx st d)
          (abs_fetch ctx st d\<lparr>ft_got := ft_got (abs_fetch ctx st d) @ blk, ft_pending := None\<rparr>)"
        using \<open>ds_request_pending st\<close> blk(1) by (intro take_block) (simp add: abs_fetch_def)
      ultimately show ?thesis using blk(2) by (intro exI [of _ True] exI [of _ "?st blk"]) auto
    qed
  qed
qed

lemma dispatch_step:
  assumes ctx: "wf_context ctx" "consistent (layout_of ctx)" and s: "sound ctx base s"
    and m: "deliverable (ss_message s)"
  shows "\<exists>ok s'. dispatch_message ctx s = Some (ok, s') \<and> advances ctx base s s' \<and> ss_socket s' = ss_socket s \<and>
    ss_complete s' = ss_complete s"
proof (cases "msg_id (ss_message s)")
  case PEER_MESSAGE_HAVE
  obtain p where p: "msg_payload (ss_message s) = Some p" "length p = 4" "unat (msg_payload_length (ss_message s)) = 4"
    using deliverable_have [OF m PEER_MESSAGE_HAVE] .
  have wf: "wf_connection (dc_piece_count ctx) (ss_conn s)" using s by (simp add: sound_def)
  obtain ok c h where "update_bitfield (Some (ss_conn s)) (Some p) (msg_payload_length (ss_message s))
      (dc_piece_count ctx) (ss_heap s) = Some (ok, Some c, h)"
    "wf_connection (dc_piece_count ctx) c"
    "live h = live (ss_heap s) + bitfield_blocks c - bitfield_blocks (ss_conn s)"
    "plentiful (ss_heap s) \<longrightarrow> plentiful h"
    using update_bitfield_step [OF wf piece_count_bound [OF ctx(1)] p(2,3), of "ss_heap s"] by blast
  then show ?thesis
    using advances_conn [OF s] p(1) by (simp add: dispatch_message_def PEER_MESSAGE_HAVE)
next
  case PEER_MESSAGE_BITFIELD
  have wf: "wf_connection (dc_piece_count ctx) (ss_conn s)" using s by (simp add: sound_def)
  show ?thesis
  proof (cases rule: deliverable_bitfield [OF m])
    case 1
    then show ?thesis
      using s advances_refl [OF s] by (simp add: dispatch_message_def PEER_MESSAGE_BITFIELD bitfield_applied_def)
  next
    case (2 p)
    obtain ok c h where "bitfield_applied (Some (ss_conn s)) (Some p) (msg_payload_length (ss_message s))
        (dc_piece_count ctx) (ss_heap s) = Some (ok, Some c, h)"
      "wf_connection (dc_piece_count ctx) c"
      "live h = live (ss_heap s) + bitfield_blocks c - bitfield_blocks (ss_conn s)"
      "plentiful (ss_heap s) \<longrightarrow> plentiful h"
      using bitfield_applied_step [OF wf piece_count_bound [OF ctx(1)] 2(2,3), of "ss_heap s"] by blast
    then show ?thesis
      using advances_conn [OF s] 2(1) by (simp add: dispatch_message_def PEER_MESSAGE_BITFIELD)
  qed
next
  case PEER_MESSAGE_PIECE
  have h: "holding ctx (ss_piece s) (ss_disk s)" using s by (simp add: sound_def)
  obtain ok st where "process_incoming_piece_message (Some (ss_piece s)) (Some (ss_message s)) = Some (ok, Some st)"
    "holding ctx st (ss_disk s)" "ds_piece_index st = ds_piece_index (ss_piece s)"
    "fetches (layout_of ctx) (abs_session ctx s) (abs_fetch ctx st (ss_disk s))"
    using piece_message_step [OF h ctx(2) m PEER_MESSAGE_PIECE] by blast
  then show ?thesis
    using s by (simp add: dispatch_message_def PEER_MESSAGE_PIECE advances_def sound_def)
qed (use s advances_refl [OF s] advances_flag(1) [OF s] in \<open>simp_all add: dispatch_message_def\<close>)

section \<open>Completing a piece\<close>

fun flow_state :: "flow \<Rightarrow> session" where
  "flow_state (Go s) = s"
| "flow_state (Leave s) = s"

lemma fwrite_spec:
  "fwrite bs d = (w, d') \<Longrightarrow> w \<le> length bs \<and> dk_contents d' = overwrite (dk_contents d) (dk_position d) (take w bs)"
  by (auto simp: fwrite_def Let_def split: list.splits)

lemma fseek_spec:
  "fseek off d = (ok, d') \<Longrightarrow> dk_contents d' = dk_contents d \<and> (ok \<longrightarrow> dk_position d' = off) \<and> dk_writes d' = dk_writes d"
  by (auto simp: fseek_def split: list.splits)

text \<open>The overflow and range checks of main never fail on a consistent torrent.\<close>

lemma product_fits:
  assumes "wf_context ctx" "consistent (layout_of ctx)" "unat i < unat (dc_piece_count ctx)"
  shows "unat i * unat (dc_normal_piece_size ctx) \<le> unat (dc_total_file_size ctx)"
    and "\<not> (i \<noteq> 0 \<and> dc_normal_piece_size ctx > SIZE_MAX div i)"
    and "unat (i * dc_normal_piece_size ctx) = piece_start (layout_of ctx) (unat i)"
    and "\<not> i * dc_normal_piece_size ctx > LONG_MAX"
proof -
  have "unat i * unat (dc_normal_piece_size ctx) \<le> (unat (dc_piece_count ctx) - 1) * unat (dc_normal_piece_size ctx)"
    using assms(3) by (intro mult_right_mono) auto
  also have "\<dots> \<le> unat (dc_total_file_size ctx)" using assms(2) by (simp add: consistent_def piece_start_def)
  finally show le: "unat i * unat (dc_normal_piece_size ctx) \<le> unat (dc_total_file_size ctx)" .
  then have small: "unat i * unat (dc_normal_piece_size ctx) < 2 ^ 63" using assms(1) by (simp add: wf_context_def)
  show eq: "unat (i * dc_normal_piece_size ctx) = piece_start (layout_of ctx) (unat i)"
    using small by (simp add: unat_times_bounded piece_start_def)
  show "\<not> i * dc_normal_piece_size ctx > LONG_MAX"
    using small eq by (simp add: word_less_nat_alt piece_start_def)
  show "\<not> (i \<noteq> 0 \<and> dc_normal_piece_size ctx > SIZE_MAX div i)"
  proof
    assume "i \<noteq> 0 \<and> dc_normal_piece_size ctx > SIZE_MAX div i"
    then have i: "0 < unat i" and "18446744073709551615 div unat i < unat (dc_normal_piece_size ctx)"
      by (simp_all add: word_less_nat_alt unat_div unat_gt_0)
    then have "18446744073709551615 < unat (dc_normal_piece_size ctx) * unat i"
      by (simp add: div_less_iff_less_mult)
    then show False using small by (simp add: mult.commute)
  qed
qed

text \<open>On a consistent torrent: where control goes after a piece has been written.\<close>

lemma next_piece_eq:
  assumes ctx: "wf_context ctx" "consistent (layout_of ctx)"
    and i: "unat (ds_piece_index (ss_piece s)) \<le> unat (dc_piece_count ctx)"
  shows "next_piece ctx s =
    (if unat (ds_piece_index (ss_piece s)) = unat (dc_piece_count ctx) then Leave (s\<lparr>ss_complete := True\<rparr>)
     else if unat (ds_piece_index (ss_piece s)) = unat (dc_piece_count ctx) - 1 then
       Go (s\<lparr>ss_piece := (ss_piece s)\<lparr>ds_piece_size :=
         of_nat (size_at (layout_of ctx) (unat (dc_piece_count ctx) - 1))\<rparr>\<rparr>)
     else Go s)"
proof -
  let ?n = "dc_piece_count ctx" and ?i = "ds_piece_index (ss_piece s)"
  have pos: "0 < unat ?n" using ctx(2) by (simp add: consistent_def)
  then have last: "unat (?n - 1) = unat ?n - 1" by (subst unat_diff) (simp_all add: word_le_nat_alt)
  then have less: "unat (?n - 1) < unat ?n" using pos by simp
  note product = product_fits [OF ctx less]
  have eq: "?i = ?n - 1 \<longleftrightarrow> unat ?i = unat ?n - 1" by (simp add: word_unat_eq_iff last)
  have ge: "?i \<ge> ?n \<longleftrightarrow> unat ?i = unat ?n" using i by (auto simp: word_le_nat_alt)
  have comm: "dc_normal_piece_size ctx * (?n - 1) = (?n - 1) * dc_normal_piece_size ctx" by (rule mult.commute)
  have fits: "\<not> (?n - 1) * dc_normal_piece_size ctx > dc_total_file_size ctx"
    using product(1,3) by (simp add: word_less_nat_alt piece_start_def)
  have "unat (dc_total_file_size ctx - (?n - 1) * dc_normal_piece_size ctx) = size_at (layout_of ctx) (unat ?n - 1)"
    using fits product(3) last by (subst unat_diff) (simp_all add: size_at_def not_less)
  then have size: "dc_total_file_size ctx - (?n - 1) * dc_normal_piece_size ctx =
      of_nat (size_at (layout_of ctx) (unat ?n - 1))"
    by (metis of_nat_unat ucast_id)
  show ?thesis
    using product(2) fits by (simp only: next_piece_def Let_def eq ge comm size) simp
qed

text \<open>What is done with a piece all of whose bytes are there.\<close>

definition write_piece :: "download_context \<Rightarrow> byte list \<Rightarrow> session \<Rightarrow> flow" where
  "write_piece ctx piece s =
     (let st = ss_piece s; (seek_ok, d) = fseek (piece_start (layout_of ctx) (unat (ds_piece_index st))) (ss_disk s) in
      if \<not> seek_ok then Leave (s\<lparr>ss_disk := d\<rparr>)
      else
        let (written_elements, d) = fwrite piece d in
        if written_elements \<noteq> length piece then Leave (s\<lparr>ss_disk := d\<rparr>)
        else next_piece ctx (s\<lparr>ss_disk := d, ss_piece := reset_piece (st\<lparr>ds_piece_index := ds_piece_index st + 1\<rparr>)\<rparr>))"

text \<open>The hash of a piece of the torrent is where main looks for it.\<close>

lemma expected_hash:
  assumes ctx: "wf_context ctx" and i: "unat i < unat (dc_piece_count ctx)"
  shows "\<not> i * 20 > seg_length (dc_pieces ctx) - 20"
    and "\<exists>p. ptr_add (seg_data (dc_pieces ctx)) (unat (i * 20)) = Some p \<and>
      read_bytes p 20 = Some (ly_hash (layout_of ctx) (unat i))"
proof -
  let ?n = "dc_piece_count ctx" and ?seg = "dc_pieces ctx"
  have seg: "unat (seg_length ?seg) = 20 * unat ?n" "valid_segment ?seg"
    using ctx by (simp_all add: wf_context_def)
  have off: "unat (i * 20) = 20 * unat i"
    using i seg(1) unat_size_lt [of "seg_length ?seg"] by (subst unat_times_bounded) simp_all
  have "unat (seg_length ?seg - 20) = 20 * unat ?n - 20"
    using i seg(1) by (subst unat_diff) (simp_all add: word_le_nat_alt)
  then show "\<not> i * 20 > seg_length ?seg - 20"
    using i off by (simp add: word_less_nat_alt)
  show "\<exists>p. ptr_add (seg_data ?seg) (unat (i * 20)) = Some p \<and>
      read_bytes p 20 = Some (ly_hash (layout_of ctx) (unat i))"
  proof (cases "seg_data ?seg")
    case NULL
    then show ?thesis using seg(2) by (simp add: valid_segment_def)
  next
    case (Ptr b k)
    have l: "k + 20 * unat ?n \<le> length b" using seg(1,2) Ptr by (simp add: valid_segment_def)
    then have bytes: "seg_bytes ?seg = take (20 * unat ?n) (drop k b)" using Ptr seg(1) by (simp add: seg_bytes_def)
    have "20 \<le> 20 * unat ?n - 20 * unat i" using i by simp
    then have "take 20 (drop (20 * unat i) (seg_bytes ?seg)) = take 20 (drop (k + 20 * unat i) b)"
      by (simp add: bytes drop_take min_absorb1 add.commute)
    then show ?thesis
      using Ptr l i off by (intro exI [of _ "Ptr b (k + 20 * unat i)"]) (simp add: slice_def)
  qed
qed

lemma complete_piece_eq:
  assumes ctx: "wf_context ctx" "consistent (layout_of ctx)"
    and h: "holding ctx (ss_piece s) (ss_disk s)"
    and i: "unat (ds_piece_index (ss_piece s)) < unat (dc_piece_count ctx)"
    and buf: "ds_piece_buffer (ss_piece s) = Some buf"
  shows "complete_piece ctx s = Some
    (if ds_bytes_received (ss_piece s) \<noteq> ds_piece_size (ss_piece s) then Go s
     else
       let piece = take (unat (ds_piece_size (ss_piece s))) buf in
       if dc_sha1 ctx piece \<noteq> ly_hash (layout_of ctx) (unat (ds_piece_index (ss_piece s)))
       then Leave (s\<lparr>ss_piece := reset_piece (ss_piece s)\<rparr>)
       else write_piece ctx piece s)"
proof (cases "ds_bytes_received (ss_piece s) = ds_piece_size (ss_piece s)")
  case False
  then show ?thesis by (simp add: complete_piece_def Let_def)
next
  case True
  let ?i = "ds_piece_index (ss_piece s)"
  let ?piece = "take (unat (ds_piece_size (ss_piece s))) buf"
  note inside = expected_hash(1) [OF ctx(1) i]
  have room: "unat (ds_piece_size (ss_piece s)) \<le> length buf"
    using h i buf size_at_room [OF ctx(2), of "unat ?i"] by (auto simp: holding_def)
  then have len: "length ?piece = unat (ds_piece_size (ss_piece s))" by simp
  obtain p where p: "ptr_add (seg_data (dc_pieces ctx)) (unat (?i * 20)) = Some p"
    "read_bytes p 20 = Some (ly_hash (layout_of ctx) (unat ?i))"
    using expected_hash(2) [OF ctx(1) i] by blast
  have hash: "length (ly_hash (layout_of ctx) (unat ?i)) = 20" using p(2) by (rule length_read_bytes)
  have eq: "memcmp (dc_sha1 ctx x) (ly_hash (layout_of ctx) (unat ?i)) = 0 \<longleftrightarrow>
      dc_sha1 ctx x = ly_hash (layout_of ctx) (unat ?i)" for x
    using ctx(1) hash by (simp add: wf_context_def)
  note product = product_fits [OF ctx i]
  obtain ok d where seek: "fseek (piece_start (layout_of ctx) (unat ?i)) (ss_disk s) = (ok, d)" by fastforce
  obtain w d' where wrote: "fwrite ?piece d = (w, d')" by fastforce
  show ?thesis
    using True p room buf
    by (simp add: complete_piece_def Let_def seek wrote len eq write_piece_def product(3) product(2) [THEN eq_False [THEN iffD2]]
        product(4) [simplified] inside [simplified] del: layout_of_simps)
qed

lemma disk_contents_only:
  assumes "dk_contents d' = dk_contents d"
  shows "holding ctx st d' = holding ctx st d" and "abs_fetch ctx st d' = abs_fetch ctx st d"
  using assms by (simp_all add: holding_def abs_fetch_def)

text \<open>Writing at the current piece, in full or in part, leaves the pieces before it alone.\<close>

lemma write_keeps_pieces:
  assumes l: "consistent (layout_of ctx)" and h: "holding ctx st d"
    and i: "unat (ds_piece_index st) < unat (dc_piece_count ctx)"
    and w: "dk_contents d' = overwrite (dk_contents d) (piece_start (layout_of ctx) (unat (ds_piece_index st))) bs"
    and len: "length bs \<le> size_at (layout_of ctx) (unat (ds_piece_index st))"
  shows "holding ctx st d'" and "abs_fetch ctx st d' = abs_fetch ctx st d"
proof -
  let ?l = "layout_of ctx" and ?i = "unat (ds_piece_index st)"
  have at: "piece_start ?l ?i \<le> length (dk_contents d)"
    using h i by (simp add: holding_def verified_end_def)
  have before: "piece_start ?l j + size_at ?l j \<le> piece_start ?l ?i" if "j < ?i" for j
    using pieces_before [of j ?i ?l] that i by simp
  show "abs_fetch ctx st d' = abs_fetch ctx st d"
    using disk_file.slices_kept [OF at, of ?i "piece_start ?l" "size_at ?l" bs] before
    by (simp add: abs_fetch_def w)
  have "piece_start ?l ?i + length bs \<le> unat (dc_total_file_size ctx)"
    using piece_end [OF l, of ?i] i len by simp
  then show "holding ctx st d'"
    using h disk_file.extent_grows [OF at, of bs] disk_file.extent_bounded [OF at, of "unat (dc_total_file_size ctx)" bs]
    by (auto simp: holding_def w intro: le_trans)
qed

text \<open>Writing the whole piece is the machine's step to the next one.\<close>

lemma write_verified:
  assumes l: "consistent (layout_of ctx)" and h: "holding ctx st d"
    and i: "unat (ds_piece_index st) < unat (dc_piece_count ctx)"
    and full: "ds_bytes_received st = ds_piece_size st"
    and buf: "ds_piece_buffer st = Some buf"
    and hash: "dc_sha1 ctx (take (unat (ds_piece_size st)) buf) = ly_hash (layout_of ctx) (unat (ds_piece_index st))"
    and w: "dk_contents d' = overwrite (dk_contents d) (piece_start (layout_of ctx) (unat (ds_piece_index st)))
      (take (unat (ds_piece_size st)) buf)"
    and idx: "unat i' = Suc (unat (ds_piece_index st))"
    and size: "unat i' < unat (dc_piece_count ctx) \<longrightarrow> unat n = size_at (layout_of ctx) (unat i')"
  shows "holding ctx ((reset_piece (st\<lparr>ds_piece_index := i'\<rparr>))\<lparr>ds_piece_size := n\<rparr>) d'"
    and "fetch_step (layout_of ctx) (abs_fetch ctx st d)
      (abs_fetch ctx ((reset_piece (st\<lparr>ds_piece_index := i'\<rparr>))\<lparr>ds_piece_size := n\<rparr>) d')"
    and "abs_fetch ctx ((reset_piece (st\<lparr>ds_piece_index := i'\<rparr>))\<lparr>ds_piece_size := n\<rparr>) d' =
      \<lparr>ft_pieces = ft_pieces (abs_fetch ctx st d) @ [ft_got (abs_fetch ctx st d)], ft_got = [], ft_pending = None\<rparr>"
proof -
  let ?l = "layout_of ctx" and ?i = "unat (ds_piece_index st)" and ?bs = "take (unat (ds_piece_size st)) buf"
  let ?st = "(reset_piece (st\<lparr>ds_piece_index := i'\<rparr>))\<lparr>ds_piece_size := n\<rparr>"
  have room: "length buf = piece_room ?l" "unat (ds_piece_size st) = size_at ?l ?i"
    using h buf i by (auto simp: holding_def)
  then have bs: "length ?bs = size_at ?l ?i" using size_at_room [OF l, of ?i] i by simp
  have at: "piece_start ?l ?i \<le> length (dk_contents d)"
    using h i by (simp add: holding_def verified_end_def)
  have keep: "holding ctx st d'" using write_keeps_pieces [OF l h i w] bs by simp
  have "verified_end ?l (Suc ?i) \<le> length (dk_contents d')"
    using disk_file.extent_grows [OF at, of ?bs] verified_end_Suc [OF l, of ?i] i bs by (simp add: w)
  then show "holding ctx ?st d'"
    using keep i idx size by (simp add: holding_def reset_piece_eq)
  have before: "piece_start ?l j + size_at ?l j \<le> piece_start ?l ?i" if "j < ?i" for j
    using pieces_before [of j ?i ?l] that i by simp
  have pieces: "ft_pieces (abs_fetch ctx ?st d') = ft_pieces (abs_fetch ctx st d) @ [?bs]"
    using disk_file.slices_snoc [of "piece_start ?l" ?i "dk_contents d" "size_at ?l" ?bs] at before bs
    by (simp add: abs_fetch_def w idx reset_piece_eq)
  have got: "ft_got (abs_fetch ctx st d) = ?bs" using buf full by (simp add: abs_fetch_def)
  have count: "length (ft_pieces (abs_fetch ctx st d)) = ?i" by (simp add: abs_fetch_def)
  show eq: "abs_fetch ctx ?st d' =
      \<lparr>ft_pieces = ft_pieces (abs_fetch ctx st d) @ [ft_got (abs_fetch ctx st d)], ft_got = [], ft_pending = None\<rparr>"
    using pieces got by (simp add: abs_fetch_def reset_piece_eq)
  show "fetch_step ?l (abs_fetch ctx st d) (abs_fetch ctx ?st d')"
    unfolding eq using verify [of "abs_fetch ctx st d" ?l] got count i bs hash by simp
qed

text \<open>\<open>next_piece\<close> leaves the size of the piece that follows, in each of its three branches.\<close>

definition advanced :: "piece_download_state \<Rightarrow> piece_download_state" where
  "advanced st = reset_piece (st\<lparr>ds_piece_index := ds_piece_index st + 1\<rparr>)"

lemma advanced_index [simp]: "ds_piece_index (advanced st) = ds_piece_index st + 1"
  by (simp add: advanced_def reset_piece_eq)

lemma next_piece_sized:
  assumes ctx: "wf_context ctx" "consistent (layout_of ctx)" and h: "holding ctx st d"
    and i: "unat (ds_piece_index st) < unat (dc_piece_count ctx)"
  shows "\<exists>n. (Suc (unat (ds_piece_index st)) < unat (dc_piece_count ctx) \<longrightarrow>
        unat n = size_at (layout_of ctx) (Suc (unat (ds_piece_index st)))) \<and>
      next_piece ctx (s\<lparr>ss_piece := advanced st\<rparr>) =
        (if Suc (unat (ds_piece_index st)) = unat (dc_piece_count ctx)
         then Leave (s\<lparr>ss_piece := (advanced st)\<lparr>ds_piece_size := n\<rparr>, ss_complete := True\<rparr>)
         else Go (s\<lparr>ss_piece := (advanced st)\<lparr>ds_piece_size := n\<rparr>\<rparr>))"
proof -
  let ?l = "layout_of ctx" and ?i = "unat (ds_piece_index st)" and ?count = "unat (dc_piece_count ctx)"
  have idx: "unat (ds_piece_index st + 1) = Suc ?i"
    using i by (intro unat_inc [of _ "dc_piece_count ctx"]) (simp add: word_less_nat_alt)
  have following: "next_piece ctx (s\<lparr>ss_piece := advanced st\<rparr>) =
      (if Suc ?i = ?count then Leave (s\<lparr>ss_piece := advanced st, ss_complete := True\<rparr>)
       else if Suc ?i = ?count - 1 then
         Go (s\<lparr>ss_piece := (advanced st)\<lparr>ds_piece_size := of_nat (size_at ?l (?count - 1))\<rparr>\<rparr>)
       else Go (s\<lparr>ss_piece := advanced st\<rparr>))"
    using i idx by (subst next_piece_eq [OF ctx]) (simp_all add: advanced_def reset_piece_eq)
  show ?thesis
  proof (cases "Suc ?i = ?count - 1")
    case True
    have "size_at ?l (?count - 1) < 2 ^ 64"
      using piece_end [OF ctx(2), of "?count - 1"] i ctx(1) by (simp add: wf_context_def)
    then show ?thesis
      using True i unfolding following
      by (intro exI [of _ "of_nat (size_at ?l (?count - 1))"]) (simp add: unat_of_nat_size)
  next
    case False
    have "Suc ?i < ?count \<longrightarrow> unat (ds_piece_size st) = size_at ?l (Suc ?i)"
      using h i False by (auto simp: holding_def size_at_def)
    moreover have "(advanced st)\<lparr>ds_piece_size := ds_piece_size st\<rparr> = advanced st"
      by (simp add: advanced_def reset_piece_eq)
    ultimately show ?thesis
      using False unfolding following by (intro exI [of _ "ds_piece_size st"]) simp
  qed
qed

text \<open>A write that did not happen, or not in full, leaves the verified pieces as they were.\<close>

lemma failed_write_advances:
  assumes s: "sound ctx base s" and i: "unat (ds_piece_index (ss_piece s)) < unat (dc_piece_count ctx)"
    and ctx: "consistent (layout_of ctx)"
    and c: "dk_contents d = dk_contents (ss_disk s) \<or>
      (\<exists>bs. length bs \<le> size_at (layout_of ctx) (unat (ds_piece_index (ss_piece s))) \<and>
        dk_contents d = overwrite (dk_contents (ss_disk s))
          (piece_start (layout_of ctx) (unat (ds_piece_index (ss_piece s)))) bs)"
  shows "advances ctx base s (s\<lparr>ss_disk := d\<rparr>)"
proof -
  have h: "holding ctx (ss_piece s) (ss_disk s)" and more: "\<not> ss_complete s" using s i by (auto simp: sound_def)
  from c have "holding ctx (ss_piece s) d" "abs_fetch ctx (ss_piece s) d = abs_session ctx s"
    using write_keeps_pieces [OF ctx h i, of d] disk_contents_only [of d "ss_disk s"] h by auto
  then show ?thesis using s more by (simp add: advances_def sound_def)
qed

lemma write_piece_step:
  assumes ctx: "wf_context ctx" "consistent (layout_of ctx)" and s: "sound ctx base s"
    and i: "unat (ds_piece_index (ss_piece s)) < unat (dc_piece_count ctx)"
    and full: "ds_bytes_received (ss_piece s) = ds_piece_size (ss_piece s)"
    and buf: "ds_piece_buffer (ss_piece s) = Some buf"
    and piece: "piece = take (unat (ds_piece_size (ss_piece s))) buf"
    and hash: "dc_sha1 ctx piece = ly_hash (layout_of ctx) (unat (ds_piece_index (ss_piece s)))"
  shows "advances ctx base s (flow_state (write_piece ctx piece s)) \<and>
    ss_socket (flow_state (write_piece ctx piece s)) = ss_socket s \<and>
    (\<forall>s'. write_piece ctx piece s = Go s' \<longrightarrow> \<not> ss_complete s')"
proof -
  let ?st = "ss_piece s" and ?l = "layout_of ctx" and ?i = "unat (ds_piece_index (ss_piece s))"
  have h: "holding ctx ?st (ss_disk s)" and more: "\<not> ss_complete s" using s i by (auto simp: sound_def)
  have len: "length piece = size_at ?l ?i"
    using h buf i size_at_room [OF ctx(2), of ?i] by (auto simp: holding_def piece)
  obtain ok d where seek: "fseek (piece_start ?l ?i) (ss_disk s) = (ok, d)" by fastforce
  obtain w d' where wrote: "fwrite piece d = (w, d')" by fastforce
  note disk = fseek_spec [OF seek] fwrite_spec [OF wrote]
  note failed = failed_write_advances [OF s i ctx(2)]
  show ?thesis
  proof (cases "ok \<and> w = length piece")
    case False
    have "advances ctx base s (s\<lparr>ss_disk := d\<rparr>)"
      using failed [of d] disk by simp
    moreover have "ok \<Longrightarrow> advances ctx base s (s\<lparr>ss_disk := d'\<rparr>)"
      using failed [of d'] disk len by force
    ultimately show ?thesis
      using False more by (cases ok) (simp_all add: write_piece_def seek wrote Let_def)
  next
    case True
    then have c: "dk_contents d' =
        overwrite (dk_contents (ss_disk s)) (piece_start ?l ?i) (take (unat (ds_piece_size ?st)) buf)"
      using disk unfolding piece [symmetric] by simp
    obtain n where n: "Suc ?i < unat (dc_piece_count ctx) \<longrightarrow> unat n = size_at ?l (Suc ?i)"
      and run: "next_piece ctx (s\<lparr>ss_disk := d', ss_piece := advanced ?st\<rparr>) =
        (if Suc ?i = unat (dc_piece_count ctx)
         then Leave (s\<lparr>ss_disk := d', ss_piece := (advanced ?st)\<lparr>ds_piece_size := n\<rparr>, ss_complete := True\<rparr>)
         else Go (s\<lparr>ss_disk := d', ss_piece := (advanced ?st)\<lparr>ds_piece_size := n\<rparr>\<rparr>))"
      using next_piece_sized [OF ctx h i, of "s\<lparr>ss_disk := d'\<rparr>"] by auto
    have idx: "unat (ds_piece_index ?st + 1) = Suc ?i"
      using i by (intro unat_inc [of _ "dc_piece_count ctx"]) (simp add: word_less_nat_alt)
    have "holding ctx ((advanced ?st)\<lparr>ds_piece_size := n\<rparr>) d'"
      "fetch_step ?l (abs_session ctx s) (abs_fetch ctx ((advanced ?st)\<lparr>ds_piece_size := n\<rparr>) d')"
      using write_verified [OF ctx(2) h i full buf hash [unfolded piece] c idx, of n] n idx
      by (simp_all add: advanced_def)
    moreover have "write_piece ctx piece s = next_piece ctx (s\<lparr>ss_disk := d', ss_piece := advanced ?st\<rparr>)"
      using True by (simp add: write_piece_def seek wrote Let_def advanced_def)
    ultimately show ?thesis
      using s i idx more by (simp add: run advances_def sound_def r_into_rtranclp)
  qed
qed

lemma complete_piece_step:
  assumes ctx: "wf_context ctx" "consistent (layout_of ctx)" and s: "sound ctx base s" and more: "\<not> ss_complete s"
  shows "\<exists>r. complete_piece ctx s = Some r \<and> advances ctx base s (flow_state r) \<and>
    ss_socket (flow_state r) = ss_socket s \<and> (\<forall>s'. r = Go s' \<longrightarrow> \<not> ss_complete s')"
proof -
  have h: "holding ctx (ss_piece s) (ss_disk s)" using s by (simp add: sound_def)
  have i: "unat (ds_piece_index (ss_piece s)) < unat (dc_piece_count ctx)"
    using s more by (auto simp: sound_def holding_def le_less)
  obtain buf where buf: "ds_piece_buffer (ss_piece s) = Some buf" using h by (auto simp: holding_def)
  have reset: "advances ctx base s (s\<lparr>ss_piece := reset_piece (ss_piece s)\<rparr>)"
    using s holding_reset [OF h] reset_drops [of "layout_of ctx" ctx "ss_piece s" "ss_disk s"]
    by (simp add: advances_def sound_def reset_piece_eq)
  show ?thesis
    using complete_piece_eq [OF ctx h i buf] write_piece_step [OF ctx s i _ buf refl] reset advances_refl [OF s] more
    by (simp add: Let_def)
qed

section \<open>Requests\<close>

text \<open>What the client says to a peer: that it is interested, and requests inside a piece of the torrent.\<close>

definition proper_frame :: "layout \<Rightarrow> frame \<Rightarrow> bool" where
  "proper_frame l f \<longleftrightarrow>
     f = Frame PEER_MESSAGE_INTERESTED [] \<or>
     (\<exists>i b n. f = request_frame i b n \<and> unat i < ly_count l \<and> unat b + unat n \<le> size_at l (unat i) \<and>
        unat n \<le> block_limit)"

definition wire_of :: "frame list \<Rightarrow> byte list" where
  "wire_of fs = concat (map encode_frame fs)"

text \<open>Whole frames when the loop goes on, frames cut off somewhere when it is left.\<close>

definition talks :: "download_context \<Rightarrow> session \<Rightarrow> flow \<Rightarrow> bool" where
  "talks ctx s r \<longleftrightarrow>
     (\<exists>fs m. list_all (proper_frame (layout_of ctx)) fs \<and>
        sk_sent (ss_socket (flow_state r)) = sk_sent (ss_socket s) @ take m (wire_of fs) \<and>
        (\<forall>s'. r = Go s' \<longrightarrow> length (wire_of fs) \<le> m))"

lemma talks_silent: "ss_socket (flow_state r) = ss_socket s \<Longrightarrow> talks ctx s r"
  unfolding talks_def by (intro exI [of _ "[]"] exI [of _ 0]) (simp add: wire_of_def)

lemma talks_then:
  assumes "talks ctx s (Go s1)" "talks ctx s1 r"
  shows "talks ctx s r"
proof -
  obtain fs where fs: "list_all (proper_frame (layout_of ctx)) fs"
    "sk_sent (ss_socket s1) = sk_sent (ss_socket s) @ wire_of fs"
    using assms(1) by (auto simp: talks_def)
  obtain gs m where gs: "list_all (proper_frame (layout_of ctx)) gs"
    "sk_sent (ss_socket (flow_state r)) = sk_sent (ss_socket s1) @ take m (wire_of gs)"
    "\<forall>s'. r = Go s' \<longrightarrow> length (wire_of gs) \<le> m"
    using assms(2) by (auto simp: talks_def)
  show ?thesis
    unfolding talks_def using fs gs
    by (intro exI [of _ "fs @ gs"] exI [of _ "length (wire_of fs) + m"]) (auto simp: wire_of_def)
qed

lemma talks_same_start: "talks ctx s1 r \<Longrightarrow> sk_sent (ss_socket s1) = sk_sent (ss_socket s) \<Longrightarrow> talks ctx s r"
  by (simp add: talks_def)

lemma sends_talks:
  assumes "sends (encode_frame f) (ss_socket s) (Some (ok, sock))" "proper_frame (layout_of ctx) f"
    and "r = (if ok then Go s' else Leave s')" "ss_socket s' = sock"
  shows "talks ctx s r"
proof -
  obtain m where "sk_sent sock = sk_sent (ss_socket s) @ take m (encode_frame f)"
    "if ok then m = length (encode_frame f) else m < length (encode_frame f)"
    using assms(1) by (auto simp: sends_def)
  then show ?thesis
    unfolding talks_def using assms(2-4)
    by (intro exI [of _ "[f]"] exI [of _ m]) (auto simp: wire_of_def)
qed

text \<open>The request that is sent, when one is sent.\<close>

definition request_length :: "piece_download_state \<Rightarrow> nat" where
  "request_length st = min block_limit (unat (ds_piece_size st) - unat (ds_bytes_received st))"

definition requested :: "piece_download_state \<Rightarrow> piece_download_state" where
  "requested st = st\<lparr>ds_request_pending := True, ds_requested_length := of_nat (request_length st),
     ds_requested_begin := ds_bytes_received st\<rparr>"

lemma unat_request_length: "unat (of_nat (request_length st) :: size_t) = request_length st"
  by (rule unat_of_nat_size) (simp add: request_length_def block_limit_def)

lemma send_next_request_eq:
  assumes "unat (ds_bytes_received (ss_piece s)) \<le> unat (ds_piece_size (ss_piece s))"
  shows "send_next_request fd s =
    (if pc_we_are_interested (ss_conn s) \<and> \<not> pc_peer_choking_us (ss_conn s) \<and> \<not> ds_request_pending (ss_piece s) then
       if ds_piece_index (ss_piece s) > UINT32_MAX \<or> ds_bytes_received (ss_piece s) > UINT32_MAX
       then Some (Leave s)
       else do {
         (ok, sock) \<leftarrow> peer_send_request fd (ucast (ds_piece_index (ss_piece s)))
            (ucast (ds_bytes_received (ss_piece s))) (ucast (of_nat (request_length (ss_piece s)) :: size_t)) (ss_socket s);
         if \<not> ok then Some (Leave (s\<lparr>ss_socket := sock\<rparr>))
         else Some (Go (s\<lparr>ss_socket := sock, ss_piece := requested (ss_piece s)\<rparr>))
       }
     else Some (Go s))"
proof -
  let ?st = "ss_piece s"
  have diff: "unat (ds_piece_size ?st - ds_bytes_received ?st) = unat (ds_piece_size ?st) - unat (ds_bytes_received ?st)"
    using assms by (intro unat_diff) (simp add: word_le_nat_alt)
  define k where "k = (if ds_piece_size ?st - ds_bytes_received ?st < 0x4000
    then ds_piece_size ?st - ds_bytes_received ?st else 0x4000)"
  have "unat k = request_length ?st"
    by (simp add: k_def request_length_def block_limit_def word_less_nat_alt diff)
  then have "k = of_nat (request_length ?st)" by (simp add: word_unat_eq_iff unat_request_length)
  note len = this [unfolded k_def]
  show ?thesis
    by (simp add: send_next_request_def Let_def len requested_def cong: if_cong)
qed

text \<open>Sending the request is the machine's step to a pending block; the request is inside the piece.\<close>

lemma requested_step:
  assumes l: "consistent (layout_of ctx)" and h: "holding ctx st d" and i: "unat (ds_piece_index st) < unat (dc_piece_count ctx)"
    and none: "\<not> ds_request_pending st"
  shows "holding ctx (requested st) d"
    and "fetch_step (layout_of ctx) (abs_fetch ctx st d) (abs_fetch ctx (requested st) d)"
proof -
  have r: "unat (ds_bytes_received st) \<le> unat (ds_piece_size st)"
    and size: "unat (ds_piece_size st) = size_at (layout_of ctx) (unat (ds_piece_index st))"
    using h i by (simp_all add: holding_def)
  obtain buf where buf: "ds_piece_buffer st = Some buf" "length buf = piece_room (layout_of ctx)"
    using h by (auto simp: holding_def)
  have n: "unat (ds_bytes_received st) + request_length st \<le> unat (ds_piece_size st)"
    using r by (simp add: request_length_def)
  then show "holding ctx (requested st) d"
    using h i by (simp add: holding_def requested_def unat_request_length)
  have "abs_fetch ctx (requested st) d = abs_fetch ctx st d\<lparr>ft_pending := Some (request_length st)\<rparr>"
    by (simp add: abs_fetch_def requested_def unat_request_length)
  moreover
  have "ft_pending (abs_fetch ctx st d) = None" "length (ft_pieces (abs_fetch ctx st d)) = unat (ds_piece_index st)"
    using none by (simp_all add: abs_fetch_def)
  moreover have "length (ft_got (abs_fetch ctx st d)) = unat (ds_bytes_received st)"
    using size_at_room [OF l, of "unat (ds_piece_index st)"] buf r size i by (simp add: abs_fetch_def)
  ultimately show "fetch_step (layout_of ctx) (abs_fetch ctx st d) (abs_fetch ctx (requested st) d)"
    using ask [of "abs_fetch ctx st d" "layout_of ctx" "request_length st"] i
    by (simp add: request_length_def size)
qed

lemma unat_narrow: "unat (w :: size_t) \<le> 4294967295 \<Longrightarrow> unat (ucast w :: uint32) = unat w"
  by (simp add: unsigned_ucast_eq take_bit_eq_mod)

text \<open>The frame of the next request, and that it asks for bytes of a piece of the torrent.\<close>

definition next_request :: "piece_download_state \<Rightarrow> frame" where
  "next_request st = request_frame (ucast (ds_piece_index st)) (ucast (ds_bytes_received st))
     (ucast (of_nat (request_length st) :: size_t))"

lemma next_request_proper:
  assumes i: "unat (ds_piece_index st) < unat (dc_piece_count ctx)"
    and size: "unat (ds_piece_size st) = size_at (layout_of ctx) (unat (ds_piece_index st))"
    and r: "unat (ds_bytes_received st) \<le> unat (ds_piece_size st)"
    and small: "\<not> ds_piece_index st > UINT32_MAX" "\<not> ds_bytes_received st > UINT32_MAX"
  shows "proper_frame (layout_of ctx) (next_request st)"
  unfolding proper_frame_def next_request_def
proof (intro disjI2 exI conjI)
  let ?n = "ucast (of_nat (request_length st) :: size_t) :: uint32"
  have "request_length st \<le> 16384" by (simp add: request_length_def block_limit_def)
  then have n: "unat ?n = request_length st" by (simp add: unat_narrow unat_request_length)
  show "unat (ucast (ds_piece_index st) :: uint32) < ly_count (layout_of ctx)"
    using small i by (simp add: unat_narrow not_less word_le_nat_alt)
  show "unat ?n \<le> block_limit" unfolding n by (simp add: request_length_def)
  show "unat (ucast (ds_bytes_received st) :: uint32) + unat ?n
      \<le> size_at (layout_of ctx) (unat (ucast (ds_piece_index st) :: uint32))"
    unfolding n using small r size by (simp add: unat_narrow not_less word_le_nat_alt request_length_def)
qed (rule refl)

lemma send_next_request_step:
  assumes ctx: "consistent (layout_of ctx)" and s: "sound ctx base s" and more: "\<not> ss_complete s" and fd: "0 \<le> fd"
  shows "\<exists>r. send_next_request fd s = Some r \<and> advances ctx base s (flow_state r) \<and> talks ctx s r \<and>
    \<not> ss_complete (flow_state r)"
proof -
  let ?st = "ss_piece s"
  have h: "holding ctx ?st (ss_disk s)" using s by (simp add: sound_def)
  have i: "unat (ds_piece_index ?st) < unat (dc_piece_count ctx)"
    using s more by (auto simp: sound_def holding_def le_less)
  have r: "unat (ds_bytes_received ?st) \<le> unat (ds_piece_size ?st)"
    and size: "unat (ds_piece_size ?st) = size_at (layout_of ctx) (unat (ds_piece_index ?st))"
    using h i by (simp_all add: holding_def)
  note run = send_next_request_eq [OF r, of fd]
  show ?thesis
  proof (cases "pc_we_are_interested (ss_conn s) \<and> \<not> pc_peer_choking_us (ss_conn s) \<and> \<not> ds_request_pending ?st \<and>
      \<not> (ds_piece_index ?st > UINT32_MAX \<or> ds_bytes_received ?st > UINT32_MAX)")
    case False
    then have "send_next_request fd s = Some (Leave s) \<or> send_next_request fd s = Some (Go s)"
      unfolding run by auto
    then show ?thesis using advances_refl [OF s] talks_silent more by force
  next
    case True
    obtain ok sock where sent: "peer_send_request fd (ucast (ds_piece_index ?st)) (ucast (ds_bytes_received ?st))
        (ucast (of_nat (request_length ?st) :: size_t)) (ss_socket s) = Some (ok, sock)"
      "sends (encode_frame (next_request ?st)) (ss_socket s) (Some (ok, sock))"
      unfolding next_request_def using peer_send_request_sends [OF fd] by (metis sends_def)
    let ?s = "if ok then s\<lparr>ss_socket := sock, ss_piece := requested ?st\<rparr> else s\<lparr>ss_socket := sock\<rparr>"
    have code: "send_next_request fd s = Some (if ok then Go ?s else Leave ?s)"
      using True sent(1) unfolding run by simp
    have "proper_frame (layout_of ctx) (next_request ?st)"
      using next_request_proper [OF i size r] True by blast
    then have "talks ctx s (if ok then Go ?s else Leave ?s)" by (rule sends_talks [OF sent(2), where s' = ?s]) simp_all
    moreover have "advances ctx base s ?s"
      using s requested_step [OF ctx h i] True by (simp add: advances_def sound_def requested_def r_into_rtranclp)
    ultimately show ?thesis using code more by (cases ok) auto
  qed
qed

lemma request_block_eq:
  assumes i: "unat (ds_piece_index (ss_piece s)) < unat (dc_piece_count ctx)"
    and r: "unat (ds_bytes_received (ss_piece s)) \<le> unat (ds_piece_size (ss_piece s))"
    and wf: "wf_connection (dc_piece_count ctx) (ss_conn s)" and c: "pc_bitfield (ss_conn s) = Some bytes"
  shows "request_block ctx fd s =
    (if \<not> has_bit bytes (unat (ds_piece_index (ss_piece s))) then Some (Leave s)
     else if pc_we_are_interested (ss_conn s) then send_next_request fd s
     else do {
       (interested_sent, sock) \<leftarrow> peer_send_interested fd (ss_socket s);
       if \<not> interested_sent then Some (Leave (s\<lparr>ss_socket := sock\<rparr>))
       else send_next_request fd (s\<lparr>ss_socket := sock, ss_conn := (ss_conn s)\<lparr>pc_we_are_interested := True\<rparr>\<rparr>)
     })"
proof -
  let ?st = "ss_piece s" and ?c = "ss_conn s"
  have bytes: "length bytes = bitfield_size (dc_piece_count ctx)" "unat (pc_bitfield_length ?c) = length bytes"
    using wf c by (simp_all add: wf_connection_def)
  have at: "unat (ds_piece_index ?st) div 8 < length bytes"
    using bitfield_size_room [OF i] bytes by (simp add: less_mult_imp_div_less mult.commute)
  have inside: "\<not> ds_piece_index ?st div 8 \<ge> pc_bitfield_length ?c" "\<not> ds_piece_index ?st \<ge> dc_piece_count ctx"
    "\<not> ds_bytes_received ?st > ds_piece_size ?st"
    using at bytes(2) i r by (simp_all add: word_le_nat_alt unat_div not_less)
  have mask: "unat (ds_piece_index ?st div 8) = unat (ds_piece_index ?st) div 8"
    "drop_bit (unat (ds_piece_index ?st mod 8)) (0x80 :: byte) = bit_mask (unat (ds_piece_index ?st))"
    by (simp_all add: unat_div unat_mod bit_mask_def)
  show ?thesis using inside at by (simp add: request_block_def c Let_def mask has_bit_def)
qed

lemma sound_ready:
  assumes "sound ctx base s" "\<not> ss_complete s"
  shows "unat (ds_piece_index (ss_piece s)) < unat (dc_piece_count ctx)"
    and "unat (ds_bytes_received (ss_piece s)) \<le> unat (ds_piece_size (ss_piece s))"
    and "wf_connection (dc_piece_count ctx) (ss_conn s)"
  using assms by (auto simp: sound_def holding_def le_less)

lemma request_block_step:
  assumes ctx: "wf_context ctx" "consistent (layout_of ctx)" and s: "sound ctx base s" and more: "\<not> ss_complete s"
    and fd: "0 \<le> fd"
  shows "\<exists>r. request_block ctx fd s = Some r \<and> advances ctx base s (flow_state r) \<and> talks ctx s r \<and>
    \<not> ss_complete (flow_state r)"
proof (cases "pc_bitfield (ss_conn s)")
  case None
  then show ?thesis
    using advances_refl [OF s] talks_silent [of "Go s"] more by (simp add: request_block_def)
next
  case (Some bytes)
  let ?st = "ss_piece s" and ?c = "ss_conn s"
  note code = request_block_eq [OF sound_ready [OF s more] Some, of fd]
  show ?thesis
  proof (cases "has_bit bytes (unat (ds_piece_index ?st)) \<and> \<not> pc_we_are_interested ?c")
    case False
    then show ?thesis
      using code send_next_request_step [OF ctx(2) s more fd] advances_refl [OF s] talks_silent [of "Leave s"] more
      by (auto split: if_splits)
  next
    case True
    obtain ok sock where sent: "peer_send_interested fd (ss_socket s) = Some (ok, sock)"
      "sends (encode_frame (Frame PEER_MESSAGE_INTERESTED [])) (ss_socket s) (Some (ok, sock))"
      using peer_send_interested_sends [OF fd] by (metis sends_def)
    have proper: "proper_frame (layout_of ctx) (Frame PEER_MESSAGE_INTERESTED [])" by (simp add: proper_frame_def)
    show ?thesis
    proof (cases ok)
      case False
      have "advances ctx base s (s\<lparr>ss_socket := sock\<rparr>)" using s by (simp add: advances_def sound_def)
      moreover have "talks ctx s (Leave (s\<lparr>ss_socket := sock\<rparr>))"
        by (rule sends_talks [OF sent(2) proper, where s' = "s\<lparr>ss_socket := sock\<rparr>"]) (simp_all add: False)
      ultimately show ?thesis using code True False sent(1) more by simp
    next
      case ok: True
      let ?s = "s\<lparr>ss_socket := sock, ss_conn := ?c\<lparr>pc_we_are_interested := True\<rparr>\<rparr>"
      have go: "advances ctx base s ?s"
        using advances_flag(2) [OF s, of True] by (simp add: advances_def sound_def)
      have talk: "talks ctx s (Go ?s)" by (rule sends_talks [OF sent(2) proper, where s' = ?s]) (simp_all add: ok)
      have "sound ctx base ?s" using go by (simp add: advances_def)
      then obtain r where "send_next_request fd ?s = Some r" "advances ctx base ?s (flow_state r)"
        "talks ctx ?s r" "\<not> ss_complete (flow_state r)"
        using send_next_request_step [OF ctx(2) _ _ fd, of base ?s] more by auto
      then show ?thesis
        using code True ok sent(1) advances_trans [OF go] talks_then [OF talk] by auto
    qed
  qed
qed

section \<open>The whole loop\<close>

lemma after_switch_step:
  assumes ctx: "wf_context ctx" "consistent (layout_of ctx)" and s: "sound ctx base s" and more: "\<not> ss_complete s"
    and fd: "0 \<le> fd"
  shows "\<exists>r. after_switch ctx fd s = Some r \<and> advances ctx base s (flow_state r) \<and> talks ctx s r \<and>
    (\<forall>s'. r = Go s' \<longrightarrow> \<not> ss_complete s')"
proof -
  obtain r where r: "complete_piece ctx s = Some r" "advances ctx base s (flow_state r)"
    "ss_socket (flow_state r) = ss_socket s" "\<forall>s'. r = Go s' \<longrightarrow> \<not> ss_complete s'"
    using complete_piece_step [OF ctx s more] by blast
  show ?thesis
  proof (cases r)
    case (Leave s1)
    then show ?thesis using r talks_silent [of "Leave s1" s] by (simp add: after_switch_def)
  next
    case (Go s1)
    then have "sound ctx base s1" "\<not> ss_complete s1" using r by (simp_all add: advances_def)
    then obtain r1 where "request_block ctx fd s1 = Some r1" "advances ctx base s1 (flow_state r1)"
      "talks ctx s1 r1" "\<not> ss_complete (flow_state r1)"
      using request_block_step [OF ctx _ _ fd] by blast
    then show ?thesis
      using r Go advances_trans [of ctx base s s1] talks_same_start [of ctx s1 r1 s]
      by (auto simp: after_switch_def)
  qed
qed

lemma handle_message_step:
  assumes ctx: "wf_context ctx" "consistent (layout_of ctx)" and s: "sound ctx base s" and more: "\<not> ss_complete s"
    and fd: "0 \<le> fd" and m: "deliverable (ss_message s)"
  shows "\<exists>r. handle_message ctx fd s = Some r \<and> advances ctx base s (flow_state r) \<and> talks ctx s r \<and>
    (\<forall>s'. r = Go s' \<longrightarrow> \<not> ss_complete s')"
proof -
  obtain ok s1 where s1: "dispatch_message ctx s = Some (ok, s1)" "advances ctx base s s1"
    "ss_socket s1 = ss_socket s" "\<not> ss_complete s1"
    using dispatch_step [OF ctx s m] more by auto
  show ?thesis
  proof (cases ok)
    case False
    then show ?thesis using s1 talks_silent [of "Leave s1" s] by (simp add: handle_message_def)
  next
    case True
    have "sound ctx base s1" using s1(2) by (simp add: advances_def)
    then obtain r where "after_switch ctx fd s1 = Some r" "advances ctx base s1 (flow_state r)" "talks ctx s1 r"
      "\<forall>s'. r = Go s' \<longrightarrow> \<not> ss_complete s'"
      using after_switch_step [OF ctx _ s1(4) fd] by blast
    then show ?thesis
      using True s1 advances_trans [OF s1(2)] talks_same_start [of ctx s1 r s] by (auto simp: handle_message_def)
  qed
qed

lemma iteration_step:
  assumes ctx: "wf_context ctx" "consistent (layout_of ctx)" and s: "sound ctx base s" and more: "\<not> ss_complete s"
    and fd: "0 \<le> fd"
  shows "\<exists>r. iteration ctx fd s = Some r \<and> advances ctx base s (flow_state r) \<and> talks ctx s r \<and>
    (\<forall>s'. r = Go s' \<longrightarrow> \<not> ss_complete s')"
proof -
  let ?h = "free (msg_payload (ss_message s) = None) (ss_heap s)"
  obtain ok m sock h where recv: "receive_peer_wire_message fd (Some blank_message) (ss_socket s) ?h = Some (ok, Some m, sock, h)"
    "sk_sent sock = sk_sent (ss_socket s)" "live h = live ?h + message_blocks m" "wf_message m"
    "plentiful ?h \<longrightarrow> plentiful h" "ok \<longrightarrow> valid_frame (frame_of m)"
    using receive_frame [OF fd, of "ss_socket s" ?h] by (metis (full_types))
  let ?s = "s\<lparr>ss_message := m, ss_socket := sock, ss_heap := h\<rparr>"
  have "live h = live (ss_heap s) - message_blocks (ss_message s) + message_blocks m"
    using recv(3) by (simp add: live_free message_blocks_def)
  then have start: "advances ctx base s ?s"
    using s recv(5) by (simp add: advances_def sound_def plentiful_def)
  have s1: "sound ctx base ?s" using start by (simp add: advances_def)
  note begin_talk = talks_same_start [of ctx ?s _ s]
  have code: "iteration ctx fd s =
    (if \<not> ok then Some (Leave ?s) else if msg_is_keep_alive m then Some (Go ?s) else handle_message ctx fd ?s)"
    by (simp add: iteration_def free_peer_wire_message_def recv(1) Let_def)
  show ?thesis
  proof (cases "ok \<and> \<not> msg_is_keep_alive m")
    case False
    then have "iteration ctx fd s = Some (Leave ?s) \<or> iteration ctx fd s = Some (Go ?s)"
      by (auto simp: code)
    then show ?thesis
      using start more begin_talk [OF talks_silent] recv(2) by force
  next
    case True
    then have "deliverable (ss_message ?s)" using recv(4,6) by (simp add: deliverable_def)
    then obtain r where r: "handle_message ctx fd ?s = Some r" "advances ctx base ?s (flow_state r)"
      "talks ctx ?s r" "\<forall>s'. r = Go s' \<longrightarrow> \<not> ss_complete s'"
      using handle_message_step [OF ctx s1 _ fd] more by auto
    then show ?thesis
      using True advances_trans [OF start r(2)] begin_talk [OF r(3)] recv(2) by (simp add: code)
  qed
qed

lemma session_loop_step:
  assumes ctx: "wf_context ctx" "consistent (layout_of ctx)" and fd: "0 \<le> fd"
  shows "sound ctx base s \<Longrightarrow> \<not> ss_complete s \<Longrightarrow>
    \<exists>s'. session_loop ctx fd s = Some s' \<and> advances ctx base s s' \<and> talks ctx s (Leave s')"
  using ctx fd
proof (induction ctx fd s rule: session_loop.induct)
  case (1 ctx fd s)
  obtain r where r: "iteration ctx fd s = Some r" "advances ctx base s (flow_state r)" "talks ctx s r"
    "\<forall>s'. r = Go s' \<longrightarrow> \<not> ss_complete s'"
    using iteration_step [OF 1(4,5,2,3,6)] by blast
  show ?case
  proof (cases r)
    case (Leave s1)
    then show ?thesis using r by (subst session_loop.simps) simp
  next
    case (Go s1)
    then have "sound ctx base s1" "\<not> ss_complete s1" using r by (simp_all add: advances_def)
    then obtain s' where "session_loop ctx fd s1 = Some s'" "advances ctx base s1 s'" "talks ctx s1 (Leave s')"
      using 1(1) [OF r(1) Go] 1(4-6) by blast
    then show ?thesis
      using r Go advances_trans [of ctx base s s1] talks_then [of ctx s s1] by (subst session_loop.simps) auto
  qed
qed

end
