(* ===== verification/Download_Safety.thy ===== *)
theory Download_Safety
  imports Download_Steps
begin

text \<open>
  Memory safety of the download, and that it gives back what it takes, under the weakest condition
  on the torrent: that the last piece is not longer than the buffer (\<open>fits\<close>). The torrent may
  be inconsistent in every other way, so that the overflow and range checks of main do fire; disk and
  file play no part.
\<close>

section \<open>The invariant\<close>

definition guarded :: "download_context \<Rightarrow> piece_download_state \<Rightarrow> bool" where
  "guarded ctx st \<longleftrightarrow>
     (\<exists>buf. ds_piece_buffer st = Some buf \<and> length buf = piece_room (layout_of ctx) \<and>
        unat (ds_piece_size st) \<le> length buf) \<and>
     unat (ds_piece_index st) \<le> unat (dc_piece_count ctx) \<and>
     unat (ds_bytes_received st) \<le> unat (ds_piece_size st) \<and>
     (ds_request_pending st \<longrightarrow> ds_requested_begin st = ds_bytes_received st \<and>
        unat (ds_bytes_received st) + unat (ds_requested_length st) \<le> unat (ds_piece_size st))"

definition safe :: "download_context \<Rightarrow> int \<Rightarrow> session \<Rightarrow> bool" where
  "safe ctx base s \<longleftrightarrow>
     guarded ctx (ss_piece s) \<and> wf_connection (dc_piece_count ctx) (ss_conn s) \<and>
     live (ss_heap s) = base + bitfield_blocks (ss_conn s) + message_blocks (ss_message s) \<and>
     (ss_complete s \<longleftrightarrow> unat (ds_piece_index (ss_piece s)) = unat (dc_piece_count ctx))"

lemma guarded_reset: "guarded ctx st \<Longrightarrow> guarded ctx (reset_piece st)"
  by (auto simp: guarded_def reset_piece_eq)

lemma safe_ready:
  assumes "safe ctx base s" "\<not> ss_complete s"
  shows "unat (ds_piece_index (ss_piece s)) < unat (dc_piece_count ctx)"
    and "unat (ds_bytes_received (ss_piece s)) \<le> unat (ds_piece_size (ss_piece s))"
    and "wf_connection (dc_piece_count ctx) (ss_conn s)"
  using assms by (auto simp: safe_def guarded_def le_less)

text \<open>What each part of the body guarantees: a result, and the invariant in it.\<close>

definition safely :: "download_context \<Rightarrow> int \<Rightarrow> flow option \<Rightarrow> bool" where
  "safely ctx base res \<longleftrightarrow>
     (\<exists>r. res = Some r \<and> safe ctx base (flow_state r) \<and> (\<forall>s. r = Go s \<longrightarrow> \<not> ss_complete s))"

lemma safely_Leave [simp]: "safely ctx base (Some (Leave s)) \<longleftrightarrow> safe ctx base s"
  and safely_Go [simp]: "safely ctx base (Some (Go s)) \<longleftrightarrow> safe ctx base s \<and> \<not> ss_complete s"
  by (simp_all add: safely_def)

lemma safe_socket [simp]: "safe ctx base (s\<lparr>ss_socket := x\<rparr>) = safe ctx base s"
  and safe_disk [simp]: "safe ctx base (s\<lparr>ss_disk := d\<rparr>) = safe ctx base s"
  by (simp_all add: safe_def)

section \<open>The messages\<close>

lemma piece_message_safe:
  assumes st: "guarded ctx st" and m: "deliverable m" "msg_id m = PEER_MESSAGE_PIECE"
  obtains ok st' where "process_incoming_piece_message (Some st) (Some m) = Some (ok, Some st')" "guarded ctx st'"
    "ds_piece_index st' = ds_piece_index st"
proof -
  obtain buf where buf: "ds_piece_buffer st = Some buf" "length buf = piece_room (layout_of ctx)"
    "unat (ds_piece_size st) \<le> length buf"
    using st by (auto simp: guarded_def)
  have msg: "wf_message m" "msg_is_keep_alive m = False" "valid_frame (frame_of m)"
    using m(1) by (simp_all add: deliverable_def)
  note run = process_piece_step [OF msg(1) m(2) msg(2,3) buf(1,3)]
  show thesis
  proof (cases "\<exists>blk. answers_request st (frame_of m) blk")
    case False
    then show thesis using run st that by auto
  next
    case True
    let ?st = "\<lambda>blk. st\<lparr>ds_piece_buffer := Some (take (unat (ds_requested_begin st)) buf @ blk @
        drop (unat (ds_requested_begin st) + length blk) buf),
      ds_bytes_received := ds_bytes_received st + ds_requested_length st, ds_request_pending := False\<rparr>"
    obtain blk where blk: "answers_request st (frame_of m) blk"
      "process_incoming_piece_message (Some st) (Some m) = Some (True, Some (?st blk))"
      using run True by auto
    have room: "unat (ds_bytes_received st) + unat (ds_requested_length st) \<le> unat (ds_piece_size st)"
      and at: "ds_requested_begin st = ds_bytes_received st"
      using st blk(1) by (auto simp: guarded_def answers_request_def)
    have "unat (ds_bytes_received st + ds_requested_length st) = unat (ds_bytes_received st) + unat (ds_requested_length st)"
      using room unat_size_lt [of "ds_piece_size st"] by (intro unat_plus_bounded) simp
    then have "guarded ctx (?st blk)"
      using st buf room at blk(1) by (simp add: guarded_def answers_request_def)
    then show thesis using that blk(2) by simp
  qed
qed

lemma safe_conn:
  assumes "safe ctx base s" and "wf_connection (dc_piece_count ctx) c"
    and "live h = live (ss_heap s) + bitfield_blocks c - bitfield_blocks (ss_conn s)"
  shows "safe ctx base (s\<lparr>ss_conn := c, ss_heap := h\<rparr>)"
  using assms by (simp add: safe_def)

lemma safe_flag:
  "safe ctx base s \<Longrightarrow> safe ctx base (s\<lparr>ss_conn := (ss_conn s)\<lparr>pc_peer_choking_us := b\<rparr>\<rparr>)"
  "safe ctx base s \<Longrightarrow> safe ctx base (s\<lparr>ss_conn := (ss_conn s)\<lparr>pc_we_are_interested := b\<rparr>\<rparr>)"
  by (cases "pc_bitfield (ss_conn s)"; simp add: safe_def wf_connection_def bitfield_blocks_def)+

lemma dispatch_safe:
  assumes ctx: "wf_context ctx" and s: "safe ctx base s" and m: "deliverable (ss_message s)"
  shows "\<exists>ok s'. dispatch_message ctx s = Some (ok, s') \<and> safe ctx base s' \<and> ss_complete s' = ss_complete s"
proof (cases "msg_id (ss_message s)")
  case PEER_MESSAGE_HAVE
  obtain p where p: "msg_payload (ss_message s) = Some p" "length p = 4" "unat (msg_payload_length (ss_message s)) = 4"
    using deliverable_have [OF m PEER_MESSAGE_HAVE] .
  have wf: "wf_connection (dc_piece_count ctx) (ss_conn s)" using s by (simp add: safe_def)
  obtain ok c h where "update_bitfield (Some (ss_conn s)) (Some p) (msg_payload_length (ss_message s))
      (dc_piece_count ctx) (ss_heap s) = Some (ok, Some c, h)"
    "wf_connection (dc_piece_count ctx) c"
    "live h = live (ss_heap s) + bitfield_blocks c - bitfield_blocks (ss_conn s)"
    using update_bitfield_step [OF wf piece_count_bound [OF ctx] p(2,3), of "ss_heap s"] by blast
  then show ?thesis using safe_conn [OF s] p(1) by (simp add: dispatch_message_def PEER_MESSAGE_HAVE)
next
  case PEER_MESSAGE_BITFIELD
  have wf: "wf_connection (dc_piece_count ctx) (ss_conn s)" using s by (simp add: safe_def)
  show ?thesis
  proof (cases rule: deliverable_bitfield [OF m])
    case 1
    then show ?thesis using s by (simp add: dispatch_message_def PEER_MESSAGE_BITFIELD bitfield_applied_def)
  next
    case (2 p)
    obtain ok c h where "bitfield_applied (Some (ss_conn s)) (Some p) (msg_payload_length (ss_message s))
        (dc_piece_count ctx) (ss_heap s) = Some (ok, Some c, h)"
      "wf_connection (dc_piece_count ctx) c"
      "live h = live (ss_heap s) + bitfield_blocks c - bitfield_blocks (ss_conn s)"
      using bitfield_applied_step [OF wf piece_count_bound [OF ctx] 2(2,3), of "ss_heap s"] by blast
    then show ?thesis using safe_conn [OF s] 2(1) by (simp add: dispatch_message_def PEER_MESSAGE_BITFIELD)
  qed
next
  case PEER_MESSAGE_PIECE
  have "guarded ctx (ss_piece s)" using s by (simp add: safe_def)
  then obtain ok st where "process_incoming_piece_message (Some (ss_piece s)) (Some (ss_message s)) = Some (ok, Some st)"
    "guarded ctx st" "ds_piece_index st = ds_piece_index (ss_piece s)"
    using piece_message_safe [OF _ m PEER_MESSAGE_PIECE] by blast
  then show ?thesis using s by (simp add: dispatch_message_def PEER_MESSAGE_PIECE safe_def)
qed (use s safe_flag(1) [OF s] in \<open>simp_all add: dispatch_message_def\<close>)
section \<open>Completing a piece\<close>

text \<open>
  The product of a piece index and the piece length, where main has checked that it does not
  overflow.
\<close>

lemma checked_product:
  assumes "\<not> (i \<noteq> 0 \<and> n > SIZE_MAX div i)"
  shows "unat (n * i) = unat n * unat i"
proof (cases "i = 0")
  case False
  then have i: "0 < unat i" by (simp add: unat_gt_0)
  have "unat n \<le> 18446744073709551615 div unat i"
    using assms False by (simp add: word_less_nat_alt unat_div not_less)
  then have "unat n * unat i \<le> 18446744073709551615" using i by (simp add: less_eq_div_iff_mult_less_eq)
  then show ?thesis by (simp add: unat_times_bounded)
qed simp

text \<open>The size that is computed for the last piece is at most that of a normal one.\<close>

lemma last_piece_fits:
  assumes fits: "fits (layout_of ctx)" and many: "1 < unat (dc_piece_count ctx)"
    and product: "\<not> (dc_piece_count ctx - 1 \<noteq> 0 \<and> dc_normal_piece_size ctx > SIZE_MAX div (dc_piece_count ctx - 1))"
    and inside: "\<not> dc_normal_piece_size ctx * (dc_piece_count ctx - 1) > dc_total_file_size ctx"
  shows "unat (dc_total_file_size ctx - dc_normal_piece_size ctx * (dc_piece_count ctx - 1)) \<le>
    piece_room (layout_of ctx)"
proof -
  let ?n = "unat (dc_piece_count ctx)" and ?p = "unat (dc_normal_piece_size ctx)"
  have "unat (dc_piece_count ctx - 1) = ?n - 1" using many by (subst unat_diff) (simp_all add: word_le_nat_alt)
  then have "unat (dc_normal_piece_size ctx * (dc_piece_count ctx - 1)) = ?p * (?n - 1)"
    using checked_product [OF product] by simp
  then have "unat (dc_total_file_size ctx - dc_normal_piece_size ctx * (dc_piece_count ctx - 1)) =
      unat (dc_total_file_size ctx) - ?p * (?n - 1)"
    using inside by (subst unat_diff) (simp_all add: not_less)
  moreover have "?n * ?p = ?p * (?n - 1) + ?p" using many by (cases ?n) simp_all
  ultimately show ?thesis using fits many by (simp add: fits_def piece_room_def)
qed

lemma next_piece_safe:
  assumes fits: "fits (layout_of ctx)" and s: "safe ctx base s"
    and i: "unat (ds_piece_index (ss_piece s)) < unat (dc_piece_count ctx)"
  shows "safely ctx base (Some (next_piece ctx (s\<lparr>ss_disk := d, ss_piece := advanced (ss_piece s)\<rparr>)))"
proof -
  let ?st = "ss_piece s" and ?n = "dc_piece_count ctx"
  let ?s = "s\<lparr>ss_disk := d, ss_piece := advanced ?st\<rparr>"
  have idx: "unat (ds_piece_index ?st + 1) = Suc (unat (ds_piece_index ?st))"
    using i by (intro unat_inc [of _ ?n]) (simp add: word_less_nat_alt)
  have more: "\<not> ss_complete s" using s i by (simp add: safe_def)
  have fresh: "guarded ctx (advanced ?st)"
    using s i idx by (auto simp: safe_def guarded_def advanced_def reset_piece_eq)
  show ?thesis
  proof (cases "ds_piece_index ?st + 1 \<ge> ?n")
    case True
    then have "safe ctx base (?s\<lparr>ss_complete := True\<rparr>)"
      using s i idx fresh by (simp add: safe_def word_le_nat_alt)
    then show ?thesis using True by (simp add: next_piece_def Let_def)
  next
    case False
    then have later: "Suc (unat (ds_piece_index ?st)) < unat ?n" using idx by (simp add: word_le_nat_alt not_le)
    then have stays: "safe ctx base ?s" using s i idx fresh more by (simp add: safe_def)
    have last: "safe ctx base (?s\<lparr>ss_piece := (advanced ?st)\<lparr>ds_piece_size :=
        dc_total_file_size ctx - dc_normal_piece_size ctx * (?n - 1)\<rparr>\<rparr>)"
      if "\<not> (?n - 1 \<noteq> 0 \<and> dc_normal_piece_size ctx > SIZE_MAX div (?n - 1))"
        "\<not> dc_normal_piece_size ctx * (?n - 1) > dc_total_file_size ctx"
      using last_piece_fits [OF fits _ that] later stays by (auto simp: safe_def guarded_def advanced_def reset_piece_eq)
    show ?thesis
      using False stays last more by (auto simp: next_piece_def Let_def)
  qed
qed

lemma complete_piece_safe:
  assumes ctx: "wf_context ctx" "fits (layout_of ctx)" and s: "safe ctx base s" "\<not> ss_complete s"
  shows "safely ctx base (complete_piece ctx s)"
proof -
  let ?st = "ss_piece s"
  note i = safe_ready(1) [OF s]
  obtain buf where buf: "ds_piece_buffer ?st = Some buf" "unat (ds_piece_size ?st) \<le> length buf"
    using s(1) by (auto simp: safe_def guarded_def)
  obtain p where p: "ptr_add (seg_data (dc_pieces ctx)) (unat (ds_piece_index ?st * 20)) = Some p"
    "read_bytes p 20 = Some (ly_hash (layout_of ctx) (unat (ds_piece_index ?st)))"
    using expected_hash(2) [OF ctx(1) i] by blast
  have reset: "safe ctx base (s\<lparr>ss_piece := reset_piece ?st\<rparr>)"
    using s by (simp add: safe_def guarded_reset)
  have stored: "safely ctx base (case fseek off (ss_disk s) of (seek_ok, d) \<Rightarrow>
      if \<not> seek_ok then Some (Leave (s\<lparr>ss_disk := d\<rparr>))
      else let (written_elements, d) = fwrite piece d in
        if written_elements \<noteq> k then Some (Leave (s\<lparr>ss_disk := d\<rparr>))
        else Some (next_piece ctx (s\<lparr>ss_disk := d, ss_piece := reset_piece (?st\<lparr>ds_piece_index := ds_piece_index ?st + 1\<rparr>)\<rparr>)))"
    for off piece k
    using s(1) next_piece_safe [OF ctx(2) s(1) i, unfolded advanced_def] by (simp add: Let_def split: prod.split)
  show ?thesis
    using s buf p reset stored by (simp add: complete_piece_def Let_def del: layout_of_simps)
qed

section \<open>Requests\<close>

lemma send_next_request_safe:
  assumes s: "safe ctx base s" "\<not> ss_complete s" and fd: "0 \<le> fd"
  shows "safely ctx base (send_next_request fd s)"
proof -
  let ?st = "ss_piece s"
  note r = safe_ready(2) [OF s]
  have "unat (ds_bytes_received ?st) + request_length ?st \<le> unat (ds_piece_size ?st)"
    using r by (simp add: request_length_def)
  then have "guarded ctx (requested ?st)"
    using s(1) by (auto simp: safe_def guarded_def requested_def unat_request_length)
  then have "safe ctx base (s\<lparr>ss_socket := x, ss_piece := requested ?st\<rparr>)" for x
    using s by (simp add: safe_def requested_def)
  then show ?thesis
    using s unfolding send_next_request_eq [OF r, of fd] peer_send_request_eq [OF fd]
    by (simp split: prod.split)
qed

lemma request_block_safe:
  assumes s: "safe ctx base s" "\<not> ss_complete s" and fd: "0 \<le> fd"
  shows "safely ctx base (request_block ctx fd s)"
proof (cases "pc_bitfield (ss_conn s)")
  case None
  then show ?thesis using s by (simp add: request_block_def)
next
  case (Some bytes)
  have "safe ctx base (s\<lparr>ss_socket := x, ss_conn := (ss_conn s)\<lparr>pc_we_are_interested := True\<rparr>\<rparr>)" for x
    using safe_flag(2) [OF s(1), of True] by (simp add: safe_def)
  then show ?thesis
    using s send_next_request_safe [OF _ _ fd, of ctx base]
    unfolding request_block_eq [OF safe_ready [OF s] Some, of fd] peer_send_interested_eq [OF fd]
    by (simp split: prod.split)
qed

section \<open>The loops\<close>

lemma after_switch_safe:
  assumes ctx: "wf_context ctx" "fits (layout_of ctx)" and s: "safe ctx base s" "\<not> ss_complete s" and fd: "0 \<le> fd"
  shows "safely ctx base (after_switch ctx fd s)"
proof -
  obtain r where "complete_piece ctx s = Some r" "safe ctx base (flow_state r)" "\<forall>s'. r = Go s' \<longrightarrow> \<not> ss_complete s'"
    using complete_piece_safe [OF ctx s] by (auto simp: safely_def)
  then show ?thesis using request_block_safe [OF _ _ fd] by (cases r) (simp_all add: after_switch_def)
qed

lemma iteration_safe:
  assumes ctx: "wf_context ctx" "fits (layout_of ctx)" and s: "safe ctx base s" "\<not> ss_complete s" and fd: "0 \<le> fd"
  shows "safely ctx base (iteration ctx fd s)"
proof -
  let ?h = "free (msg_payload (ss_message s) = None) (ss_heap s)"
  obtain ok m sock h where recv: "receive_peer_wire_message fd (Some blank_message) (ss_socket s) ?h = Some (ok, Some m, sock, h)"
    "live h = live ?h + message_blocks m" "wf_message m" "ok \<longrightarrow> valid_frame (frame_of m)"
    using receive_frame [OF fd, of "ss_socket s" ?h] by (metis (full_types))
  let ?s = "s\<lparr>ss_message := m, ss_socket := sock, ss_heap := h\<rparr>"
  have s1: "safe ctx base ?s" "\<not> ss_complete ?s"
    using s recv(2) by (simp_all add: safe_def live_free message_blocks_def)
  have code: "iteration ctx fd s =
    (if \<not> ok then Some (Leave ?s) else if msg_is_keep_alive m then Some (Go ?s) else handle_message ctx fd ?s)"
    by (simp add: iteration_def free_peer_wire_message_def recv(1) Let_def)
  have "safely ctx base (handle_message ctx fd ?s)" if "ok" "\<not> msg_is_keep_alive m"
  proof -
    have "deliverable (ss_message ?s)" using recv(3,4) that by (simp add: deliverable_def)
    then obtain ok' s2 where "dispatch_message ctx ?s = Some (ok', s2)" "safe ctx base s2" "ss_complete s2 = ss_complete ?s"
      using dispatch_safe [OF ctx(1) s1(1)] by blast
    then show ?thesis using after_switch_safe [OF ctx _ _ fd] s1(2) by (simp add: handle_message_def)
  qed
  then show ?thesis using s1 by (simp add: code)
qed

lemma session_loop_safe:
  "wf_context ctx \<Longrightarrow> fits (layout_of ctx) \<Longrightarrow> 0 \<le> fd \<Longrightarrow> safe ctx base s \<Longrightarrow> \<not> ss_complete s \<Longrightarrow>
   \<exists>s'. session_loop ctx fd s = Some s' \<and> safe ctx base s'"
proof (induction ctx fd s rule: session_loop.induct)
  case (1 ctx fd s)
  obtain r where r: "iteration ctx fd s = Some r" "safe ctx base (flow_state r)" "\<forall>s'. r = Go s' \<longrightarrow> \<not> ss_complete s'"
    using iteration_safe [OF 1(2,3,5,6,4)] by (auto simp: safely_def)
  then show ?case using 1(1) [OF r(1)] 1(2-4) by (cases r) (simp_all add: session_loop.simps [of ctx fd s])
qed
section \<open>The peers\<close>

text \<open>\<open>socket\<close> returns a descriptor that is not in use.\<close>

definition fresh_socket :: "peer_network \<Rightarrow> int set \<Rightarrow> bool" where
  "fresh_socket net fds \<longleftrightarrow> ca_socket (pn_connect net) \<notin> fds"

definition guarded_download :: "download_context \<Rightarrow> download \<Rightarrow> bool" where
  "guarded_download ctx d \<longleftrightarrow>
     guarded ctx (dl_piece d) \<and> (dl_complete d \<longleftrightarrow> unat (ds_piece_index (dl_piece d)) = unat (dc_piece_count ctx))"

text \<open>Everything taken for a peer has been given back.\<close>

definition gave_back :: "download_context \<Rightarrow> download \<Rightarrow> download \<Rightarrow> bool" where
  "gave_back ctx d d' \<longleftrightarrow>
     guarded_download ctx d' \<and> dl_fds d' = dl_fds d \<and> live (dl_heap d') = live (dl_heap d)"

lemma gave_back_trans: "gave_back ctx d d' \<Longrightarrow> gave_back ctx d' d'' \<Longrightarrow> gave_back ctx d d''"
  by (simp add: gave_back_def)

lemma safe_enter:
  "guarded_download ctx d \<Longrightarrow> safe ctx (live (dl_heap d)) (enter_peer fd p sock d)"
  by (simp add: safe_def guarded_download_def enter_peer_def wf_connection_def bitfield_blocks_def
      message_blocks_def blank_message_def)

lemma gave_back_leave:
  "safe ctx (live (dl_heap d)) s \<Longrightarrow> fd \<notin> dl_fds d \<Longrightarrow> gave_back ctx d (leave_peer fd s (insert fd (dl_fds d)))"
  by (simp add: gave_back_def leave_peer_def guarded_download_def safe_def guarded_reset close_fd_def
      Let_def free_peer_wire_message_def live_free bitfield_blocks_def message_blocks_def)

lemma fetch_from_peer_safe:
  assumes ctx: "wf_context ctx" "fits (layout_of ctx)" and d: "guarded_download ctx d" "\<not> dl_complete d"
    and fresh: "fresh_socket net (dl_fds d)"
  shows "\<exists>d'. fetch_from_peer ctx p net d = Some d' \<and> gave_back ctx d d'"
proof -
  obtain fd fds where c: "connect_to_peer (pn_connect net) (Some p) (dl_fds d) = (fd, fds)" by fastforce
  have fds: "if fd < 0 then fds = dl_fds d else fd = ca_socket (pn_connect net) \<and> fds = insert fd (dl_fds d)"
    using connect_to_peer_fds [OF _ c] fresh by (simp add: fresh_socket_def)
  have reset: "gave_back ctx d (d\<lparr>dl_piece := reset_piece (dl_piece d), dl_fds := dl_fds d\<rparr>)"
    using d(1) by (simp add: gave_back_def guarded_download_def guarded_reset)
  obtain ok sock where hs: "handshake_with_peer (Some (dc_info_hash ctx)) (Some (dc_peer_id ctx)) (pn_socket net) =
      Some (ok, sock)"
    using handshake_run [of "dc_info_hash ctx" "dc_peer_id ctx" "pn_socket net"] ctx(1) by (auto simp: wf_context_def)
  show ?thesis
  proof (cases "fd < 0 \<or> \<not> ok")
    case True
    then show ?thesis
      using reset fds fresh c hs by (cases "fd < 0") (auto simp: fetch_from_peer_def close_fd_def fresh_socket_def)
  next
    case False
    then have fd: "0 \<le> fd" "fd \<notin> dl_fds d" "fds = insert fd (dl_fds d)"
      using fds fresh by (auto simp: fresh_socket_def)
    obtain s where "session_loop ctx fd (enter_peer fd p sock d) = Some s" "safe ctx (live (dl_heap d)) s"
      using session_loop_safe [OF ctx fd(1) safe_enter [OF d(1)], of fd p sock] d(2) by (auto simp: enter_peer_def)
    then show ?thesis using gave_back_leave [OF _ fd(2)] False c hs fd by (simp add: fetch_from_peer_def)
  qed
qed

lemma peers_loop_safe:
  "wf_context ctx \<Longrightarrow> fits (layout_of ctx) \<Longrightarrow> guarded_download ctx d \<Longrightarrow>
   \<forall>(p, net) \<in> set peers. fresh_socket net (dl_fds d) \<Longrightarrow>
   \<exists>d'. peers_loop ctx peers d = Some d' \<and> gave_back ctx d d'"
proof (induction ctx peers d rule: peers_loop.induct)
  case (1 ctx d)
  then show ?case by (simp add: gave_back_def)
next
  case (2 ctx p net peers d)
  show ?case
  proof (cases "dl_complete d")
    case True
    then show ?thesis using 2(4) by (simp add: gave_back_def)
  next
    case False
    obtain d1 where d1: "fetch_from_peer ctx p net d = Some d1" "gave_back ctx d d1"
      using fetch_from_peer_safe [OF 2(2-4) False, of net p] 2(5) by auto
    then obtain d' where "peers_loop ctx peers d1 = Some d'" "gave_back ctx d1 d'"
      using 2(1) [OF False d1(1) 2(2,3)] 2(5) by (auto simp: gave_back_def)
    then show ?thesis using False d1 gave_back_trans by auto
  qed
qed

lemma guarded_first:
  assumes "dl_piece d = first_piece_state (first_piece_size ctx) buf" "length buf = unat (first_piece_size ctx)"
    "dl_complete d = False" "dc_piece_count ctx \<noteq> 0"
  shows "guarded_download ctx d"
proof -
  have "unat (first_piece_size ctx) = piece_room (layout_of ctx)"
    by (auto simp: first_piece_size_def piece_room_def word_unat_eq_iff)
  then show ?thesis
    using assms by (simp add: guarded_download_def guarded_def first_piece_state_def unat_eq_zero)
qed


end
