(* ===== verification/Download_Correct.thy ===== *)
theory Download_Correct
  imports Download_Safety
begin

text \<open>
  The loop over the peers, with every network, allocator and disk: it refines the machine, keeps
  every byte it has verified, gives back all it has taken, and when it says that the download is
  complete the file is the torrent's. The last section is about the torrents main does not
  reject although they are inconsistent.
\<close>

section \<open>One peer\<close>

abbreviation abs_download :: "download_context \<Rightarrow> download \<Rightarrow> fetch" where
  "abs_download ctx d \<equiv> abs_fetch ctx (dl_piece d) (dl_disk d)"

definition sound_download :: "download_context \<Rightarrow> download \<Rightarrow> bool" where
  "sound_download ctx d \<longleftrightarrow>
     holding ctx (dl_piece d) (dl_disk d) \<and>
     (dl_complete d \<longleftrightarrow> unat (ds_piece_index (dl_piece d)) = unat (dc_piece_count ctx))"

text \<open>What turning to a peer guarantees: progress of the machine, and nothing left open or allocated.\<close>

definition tried :: "download_context \<Rightarrow> download \<Rightarrow> download \<Rightarrow> bool" where
  "tried ctx d d' \<longleftrightarrow>
     sound_download ctx d' \<and> dl_fds d' = dl_fds d \<and> live (dl_heap d') = live (dl_heap d) \<and>
     fetches (layout_of ctx) (abs_download ctx d) (abs_download ctx d')"

lemma tried_trans: "tried ctx d d' \<Longrightarrow> tried ctx d' d'' \<Longrightarrow> tried ctx d d''"
  by (auto simp: tried_def)

lemma tried_reset:
  assumes "sound_download ctx d"
  shows "tried ctx d (d\<lparr>dl_piece := reset_piece (dl_piece d), dl_fds := dl_fds d\<rparr>)"
  using assms reset_drops [of "layout_of ctx" ctx "dl_piece d" "dl_disk d"]
  by (simp add: tried_def sound_download_def holding_reset)

lemma sound_enter:
  assumes "sound_download ctx d"
  shows "sound ctx (live (dl_heap d)) (enter_peer fd p sock d)"
  using assms
  by (simp add: sound_def sound_download_def enter_peer_def wf_connection_def bitfield_blocks_def
      message_blocks_def blank_message_def)

lemma tried_leave:
  assumes "advances ctx (live (dl_heap d)) (enter_peer fd p sock d) s" and "fd \<notin> dl_fds d"
  shows "tried ctx d (leave_peer fd s (insert fd (dl_fds d)))"
proof -
  have s: "sound ctx (live (dl_heap d)) s" and f: "fetches (layout_of ctx) (abs_download ctx d) (abs_session ctx s)"
    using assms(1) by (simp_all add: advances_def enter_peer_def)
  then show ?thesis
    using s assms(2) rtranclp_trans [OF f reset_drops]
    by (simp add: tried_def leave_peer_def sound_download_def sound_def holding_reset close_fd_def
        Let_def free_peer_wire_message_def live_free bitfield_blocks_def message_blocks_def)
qed

lemma fetch_from_peer_step:
  assumes ctx: "wf_context ctx" "consistent (layout_of ctx)" and d: "sound_download ctx d" "\<not> dl_complete d"
    and fresh: "fresh_socket net (dl_fds d)"
  shows "\<exists>d'. fetch_from_peer ctx p net d = Some d' \<and> tried ctx d d'"
proof -
  obtain fd fds where c: "connect_to_peer (pn_connect net) (Some p) (dl_fds d) = (fd, fds)" by fastforce
  have fds: "if fd < 0 then fds = dl_fds d else fd = ca_socket (pn_connect net) \<and> fds = insert fd (dl_fds d)"
    using connect_to_peer_fds [OF _ c] fresh by (simp add: fresh_socket_def)
  show ?thesis
  proof (cases "fd < 0")
    case True
    then show ?thesis using tried_reset [OF d(1)] fds by (simp add: fetch_from_peer_def c)
  next
    case False
    then have fd: "0 \<le> fd" "fd \<notin> dl_fds d" "fds = insert fd (dl_fds d)"
      using fds fresh by (auto simp: fresh_socket_def)
    obtain ok sock where hs: "handshake_with_peer (Some (dc_info_hash ctx)) (Some (dc_peer_id ctx)) (pn_socket net) =
        Some (ok, sock)"
      using handshake_run [of "dc_info_hash ctx" "dc_peer_id ctx" "pn_socket net"] ctx(1) by (auto simp: wf_context_def)
    show ?thesis
    proof (cases ok)
      case False
      then show ?thesis
        using tried_reset [OF d(1)] fd c hs by (simp add: fetch_from_peer_def close_fd_def)
    next
      case True
      obtain s where s: "session_loop ctx fd (enter_peer fd p sock d) = Some s"
        "advances ctx (live (dl_heap d)) (enter_peer fd p sock d) s"
        using session_loop_step [OF ctx fd(1) sound_enter [OF d(1)], of fd p sock] d(2)
        by (auto simp: enter_peer_def)
      then show ?thesis
        using tried_leave [OF s(2) fd(2)] True c hs fd by (simp add: fetch_from_peer_def)
    qed
  qed
qed

section \<open>All peers\<close>

lemma peers_loop_step:
  assumes ctx: "wf_context ctx" "consistent (layout_of ctx)"
  shows "sound_download ctx d \<Longrightarrow> \<forall>(p, net) \<in> set peers. fresh_socket net (dl_fds d) \<Longrightarrow>
    \<exists>d'. peers_loop ctx peers d = Some d' \<and> tried ctx d d'"
  using ctx
proof (induction ctx peers d rule: peers_loop.induct)
  case (1 ctx d)
  then show ?case by (simp add: tried_def)
next
  case (2 ctx p net peers d)
  show ?case
  proof (cases "dl_complete d")
    case True
    then show ?thesis using 2(2) by (simp add: tried_def)
  next
    case False
    obtain d1 where d1: "fetch_from_peer ctx p net d = Some d1" "tried ctx d d1"
      using fetch_from_peer_step [OF 2(4,5,2) False, of net p] 2(3) by auto
    then obtain d' where "peers_loop ctx peers d1 = Some d'" "tried ctx d1 d'"
      using 2(1) [OF False d1(1) _ _ 2(4,5)] 2(3) by (auto simp: tried_def)
    then show ?thesis using False d1 tried_trans by auto
  qed
qed

lemma sound_first:
  assumes ctx: "wf_context ctx" "consistent (layout_of ctx)"
    and d: "dl_piece d = first_piece_state (first_piece_size ctx) buf" "length buf = unat (first_piece_size ctx)"
      "dk_contents (dl_disk d) = []" "dl_complete d = False"
  shows "sound_download ctx d" and "abs_download ctx d = start"
proof -
  have one: "dc_piece_count ctx = 1 \<longleftrightarrow> unat (dc_piece_count ctx) = 1" by (simp add: word_unat_eq_iff)
  have pos: "0 < unat (dc_piece_count ctx)" using ctx(2) by (simp add: consistent_def)
  have "unat (first_piece_size ctx) = size_at (layout_of ctx) 0"
    using pos by (auto simp: first_piece_size_def size_at_def piece_start_def one)
  moreover have "unat (first_piece_size ctx) = piece_room (layout_of ctx)"
    by (simp add: first_piece_size_def piece_room_def one)
  ultimately show "sound_download ctx d"
    using d pos by (simp add: sound_download_def holding_def first_piece_state_def verified_end_def piece_start_def)
  show "abs_download ctx d = start"
    using d by (simp add: abs_fetch_def first_piece_state_def start_def)
qed

section \<open>What is in the file\<close>

lemma slices_upto:
  assumes l: "consistent l" and "k \<le> ly_count l" and "verified_end l k \<le> length f"
  shows "concat (map (\<lambda>i. slice f (piece_start l i) (size_at l i)) [0..<k]) = take (verified_end l k) f"
  using assms(2,3)
proof (induction k)
  case 0
  then show ?case using l by (simp add: verified_end_def piece_start_def consistent_def)
next
  case (Suc k)
  have next_end: "verified_end l (Suc k) = piece_start l k + size_at l k" using verified_end_Suc [OF l] Suc(2) by simp
  have "verified_end l k = piece_start l k" using Suc(2) by (simp add: verified_end_def)
  then show ?case using Suc next_end by (simp add: slice_def take_add)
qed

lemma slices_make_file:
  assumes "consistent l" and "length f = ly_total l"
  shows "concat (map (piece_of l f) [0..<ly_count l]) = f"
  using slices_upto [OF assms(1), of "ly_count l" f] assms(2)
  by (simp add: verified_end_def piece_of_def [abs_def])

text \<open>A sound state that the machine reaches: the pieces in the file have the torrent's hashes.\<close>

lemma reached_verified:
  assumes "sound_download ctx d" and "fetches (layout_of ctx) start (abs_download ctx d)"
  shows "\<forall>i < unat (ds_piece_index (dl_piece d)).
    dc_sha1 ctx (piece_of (layout_of ctx) (dk_contents (dl_disk d)) i) = ly_hash (layout_of ctx) i"
proof -
  have "verified (layout_of ctx) (ft_pieces (abs_download ctx d))"
    using fetch_inv_reachable [OF assms(2) fetch_inv_start] by (simp add: fetch_inv_def)
  then show ?thesis by (auto simp: verified_def abs_fetch_def piece_of_def)
qed

lemma complete_length:
  assumes "sound_download ctx d" and "dl_complete d"
  shows "length (dk_contents (dl_disk d)) = unat (dc_total_file_size ctx)"
  using assms by (auto simp: sound_download_def holding_def verified_end_def)

section \<open>A sample download\<close>

text \<open>Two pieces of at most two bytes. The hash pads its input to 20 bytes.\<close>

definition pad_hash :: "byte list \<Rightarrow> byte list" where
  "pad_hash bs = take 20 (bs @ replicate 20 0)"

definition sample_context :: download_context where
  "sample_context =
     \<lparr>dc_piece_count = 2, dc_total_file_size = 3, dc_normal_piece_size = 2,
      dc_pieces = \<lparr>seg_data = Ptr (pad_hash [1, 2] @ pad_hash [3]) 0, seg_length = 40\<rparr>,
      dc_info_hash = replicate 20 7, dc_peer_id = replicate 20 8, dc_sha1 = pad_hash\<rparr>"

definition good_connect :: connect_answers where
  "good_connect = \<lparr>ca_socket = 3, ca_getfl = 0, ca_set_nonblock = 0, ca_connect = (\<lambda>address. 0), ca_in_progress = False,
     ca_poll = 1, ca_getsockopt = 0, ca_socket_error = 0, ca_restore_flags = 0\<rparr>"

definition sample_network :: peer_network where
  "sample_network = \<lparr>pn_connect = good_connect,
     pn_socket = socket_with [Data (handshake_bytes (replicate 20 7) (replicate 20 9)),
       Data (wire_of [Frame PEER_MESSAGE_BITFIELD [0xC0], Frame PEER_MESSAGE_UNCHOKE [], piece_frame 0 0 [1, 2],
         piece_frame 1 0 [3]]), Closed]\<rparr>"

definition sample_download :: download where
  "sample_download =
     \<lparr>dl_piece = first_piece_state 2 [0, 0],
      dl_disk = \<lparr>dk_contents = [], dk_position = 0, dk_seeks = [], dk_writes = []\<rparr>,
      dl_heap = fresh_heap, dl_fds = {}, dl_complete = False\<rparr>"

lemma sample_run:
  "map_option (\<lambda>d. (dl_complete d, dk_contents (dl_disk d), live (dl_heap d)))
     (peers_loop sample_context [(zero_peer, sample_network)] sample_download) = Some (True, [1, 2, 3], 0)"
  by code_simp

lemma length_pad_hash [simp]: "length (pad_hash bs) = 20"
  by (cases "length bs \<le> 20") (simp_all add: pad_hash_def)

lemma sample_context_ok: "wf_context sample_context" "consistent (layout_of sample_context)"
  by (simp_all add: wf_context_def sample_context_def valid_segment_def consistent_def layout_of_def
      piece_start_def)

lemma sample_download_ok:
  "dl_piece sample_download = first_piece_state (first_piece_size sample_context) [0, 0]"
  "length [0, 0 :: byte] = unat (first_piece_size sample_context)"
  "dk_contents (dl_disk sample_download) = []" "dl_complete sample_download = False"
  "\<forall>(p, net) \<in> set [(zero_peer, sample_network)]. fresh_socket net (dl_fds sample_download)"
  by (simp_all add: sample_download_def first_piece_size_def sample_context_def fresh_socket_def)

section \<open>Properties\<close>

text \<open>What the torrent says of the file: its length, and the hash of each piece.\<close>

definition file_matches :: "layout \<Rightarrow> byte list \<Rightarrow> bool" where
  "file_matches l f \<longleftrightarrow> length f = ly_total l \<and> (\<forall>i < ly_count l. ly_sha1 l (piece_of l f i) = ly_hash l i)"

lemma peers_loop_verified:
  assumes "wf_context ctx" "consistent (layout_of ctx)" and "sound_download ctx d" "abs_download ctx d = start"
    and "\<forall>(p, net) \<in> set peers. fresh_socket net (dl_fds d)" and "peers_loop ctx peers d = Some d'"
  shows "dl_complete d' \<Longrightarrow> file_matches (layout_of ctx) (dk_contents (dl_disk d'))"
    and "sound_download ctx d'" and "fetches (layout_of ctx) start (abs_download ctx d')"
proof -
  have "tried ctx d d'" using peers_loop_step [OF assms(1-3,5)] assms(6) by auto
  then show s: "sound_download ctx d'" "fetches (layout_of ctx) start (abs_download ctx d')"
    using assms(4) by (simp_all add: tried_def)
  show "file_matches (layout_of ctx) (dk_contents (dl_disk d'))" if "dl_complete d'"
    using that reached_verified [OF s] complete_length [OF s(1)] s(1) by (simp add: file_matches_def sound_download_def)
qed

text \<open>
  C2: whatever the peers send, however the network fragments it and whichever calls fail, the
  download has a defined result, and when it reports completion the file has the torrent's
  length and every piece of it the torrent's hash.
\<close>

theorem download_verified:
  assumes "wf_context ctx" and "consistent (layout_of ctx)"
    and "dl_piece d = first_piece_state (first_piece_size ctx) buf" and "length buf = unat (first_piece_size ctx)"
    and "dk_contents (dl_disk d) = []" and "dl_complete d = False"
    and "\<forall>(p, net) \<in> set peers. fresh_socket net (dl_fds d)"
  shows "\<exists>d'. peers_loop ctx peers d = Some d' \<and>
    (dl_complete d' \<longrightarrow> file_matches (layout_of ctx) (dk_contents (dl_disk d')))"
proof -
  note first = sound_first [OF assms(1-6)]
  obtain d' where "peers_loop ctx peers d = Some d'" using peers_loop_step [OF assms(1,2) first(1) assms(7)] by blast
  then show ?thesis using peers_loop_verified(1) [OF assms(1,2) first assms(7)] by blast
qed

theorem download_verified_witness:
  "\<exists>d'. peers_loop sample_context [(zero_peer, sample_network)] sample_download = Some d' \<and>
     file_matches (layout_of sample_context) (dk_contents (dl_disk d')) \<and> dk_contents (dl_disk d') = [1, 2, 3]"
  using download_verified [OF sample_context_ok sample_download_ok] sample_run by auto

text \<open>
  C13: also when the download fails, every piece up to the index it has reached is in the file
  with its right hash, and the file is never longer than the torrent says.
\<close>

theorem progress_verified:
  assumes "wf_context ctx" and "consistent (layout_of ctx)"
    and "dl_piece d = first_piece_state (first_piece_size ctx) buf" and "length buf = unat (first_piece_size ctx)"
    and "dk_contents (dl_disk d) = []" and "dl_complete d = False"
    and "\<forall>(p, net) \<in> set peers. fresh_socket net (dl_fds d)"
    and "peers_loop ctx peers d = Some d'"
  shows "length (dk_contents (dl_disk d')) \<le> unat (dc_total_file_size ctx) \<and>
    unat (ds_piece_index (dl_piece d')) \<le> unat (dc_piece_count ctx) \<and>
    (\<forall>i < unat (ds_piece_index (dl_piece d')).
       dc_sha1 ctx (piece_of (layout_of ctx) (dk_contents (dl_disk d')) i) = ly_hash (layout_of ctx) i)"
proof -
  note s = peers_loop_verified(2,3) [OF assms(1,2) sound_first [OF assms(1-6)] assms(7,8)]
  show ?thesis using reached_verified [OF s] s(1) by (simp add: sound_download_def holding_def)
qed

text \<open>A network that breaks off inside the second piece.\<close>

definition broken_network :: peer_network where
  "broken_network = \<lparr>pn_connect = good_connect,
     pn_socket = socket_with [Data (handshake_bytes (replicate 20 7) (replicate 20 9)), Recv_Interrupted,
       Data (wire_of [Frame PEER_MESSAGE_BITFIELD [0xC0], Frame PEER_MESSAGE_UNCHOKE [], piece_frame 0 0 [1, 2],
         piece_frame 1 0 [4]]), Recv_Failed]\<rparr>"

theorem progress_verified_witness:
  "\<exists>d'. peers_loop sample_context [(zero_peer, broken_network)] sample_download = Some d' \<and>
     ds_piece_index (dl_piece d') = 1 \<and>
     pad_hash (piece_of (layout_of sample_context) (dk_contents (dl_disk d')) 0) = ly_hash (layout_of sample_context) 0"
proof -
  have "map_option (\<lambda>d. ds_piece_index (dl_piece d)) (peers_loop sample_context [(zero_peer, broken_network)] sample_download) =
      Some 1" by code_simp
  then obtain d' where d': "peers_loop sample_context [(zero_peer, broken_network)] sample_download = Some d'"
    "ds_piece_index (dl_piece d') = 1" by auto
  have fresh: "\<forall>(p, net) \<in> set [(zero_peer, broken_network)]. fresh_socket net (dl_fds sample_download)"
    by (simp add: fresh_socket_def sample_download_def)
  show ?thesis
    using progress_verified [OF sample_context_ok sample_download_ok(1-4) fresh d'(1)] d'
    by (simp add: sample_context_def)
qed

text \<open>
  C5: the loop over the peers refines the state machine of the download: it runs from the
  machine's start along its steps, so that a piece counts as done only after its bytes have
  been asked for, received and checked, in order.
\<close>

theorem download_refines_machine:
  assumes "wf_context ctx" and "consistent (layout_of ctx)"
    and "dl_piece d = first_piece_state (first_piece_size ctx) buf" and "length buf = unat (first_piece_size ctx)"
    and "dk_contents (dl_disk d) = []" and "dl_complete d = False"
    and "\<forall>(p, net) \<in> set peers. fresh_socket net (dl_fds d)"
  shows "\<exists>d'. peers_loop ctx peers d = Some d' \<and> fetches (layout_of ctx) start (abs_download ctx d') \<and>
    (dl_complete d' \<longleftrightarrow> length (ft_pieces (abs_download ctx d')) = ly_count (layout_of ctx))"
proof -
  note first = sound_first [OF assms(1-6)]
  obtain d' where d': "peers_loop ctx peers d = Some d'" "tried ctx d d'"
    using peers_loop_step [OF assms(1,2) first(1) assms(7)] by blast
  then show ?thesis
    using first(2) by (intro exI [of _ d']) (auto simp: tried_def sound_download_def abs_fetch_def)
qed

theorem download_refines_machine_witness:
  "\<exists>d'. peers_loop sample_context [(zero_peer, sample_network)] sample_download = Some d' \<and>
     fetches (layout_of sample_context) start (abs_download sample_context d') \<and>
     length (ft_pieces (abs_download sample_context d')) = 2"
  using download_refines_machine [OF sample_context_ok sample_download_ok] sample_run
  by (auto simp: sample_context_def)

text \<open>
  C12: all that the client says on a connection after the handshake is a sequence of
  messages of the protocol, of which the end may be cut off: that it is interested, and
  requests that stay inside a piece of the torrent and ask for at most 16384 bytes. The torrent's
  lengths fit together.
\<close>

theorem client_keeps_protocol:
  assumes "wf_context ctx" and "consistent (layout_of ctx)" and "0 \<le> fd"
    and "sound_download ctx d" and "\<not> dl_complete d"
  shows "\<exists>s fs m. session_loop ctx fd (enter_peer fd p sock d) = Some s \<and> list_all (proper_frame (layout_of ctx)) fs \<and>
    sk_sent (ss_socket s) = sk_sent sock @ take m (wire_of fs)"
  using session_loop_step [OF assms(1-3) sound_enter [OF assms(4)], of fd p sock] assms(5)
  by (auto simp: talks_def enter_peer_def)

text \<open>A peer that has everything, unchokes, sends the first piece and leaves: 39 bytes are sent to it.\<close>

definition asked_socket :: socket where
  "asked_socket = socket_with [Data (wire_of [Frame PEER_MESSAGE_BITFIELD [0xC0], Frame PEER_MESSAGE_UNCHOKE [],
     piece_frame 0 0 [1, 2]]), Closed]"

lemma asked_run:
  "map_option (\<lambda>s. sk_sent (ss_socket s)) (session_loop sample_context 3 (enter_peer 3 zero_peer asked_socket sample_download)) =
   Some (wire_of [Frame PEER_MESSAGE_INTERESTED [], request_frame 0 0 2, request_frame 1 0 1])"
  by code_simp

theorem client_keeps_protocol_witness:
  "\<exists>s fs m. session_loop sample_context 3 (enter_peer 3 zero_peer asked_socket sample_download) = Some s \<and>
     list_all (proper_frame (layout_of sample_context)) fs \<and> sk_sent (ss_socket s) = take m (wire_of fs) \<and>
     length (sk_sent (ss_socket s)) = 39"
proof -
  have "\<not> dl_complete sample_download" "sk_sent asked_socket = []"
    by (simp_all add: sample_download_def asked_socket_def socket_with_def)
  moreover have len: "length (wire_of [Frame PEER_MESSAGE_INTERESTED [], request_frame 0 0 2, request_frame 1 0 1]) = 39"
    by code_simp
  ultimately obtain s fs m where run: "session_loop sample_context 3 (enter_peer 3 zero_peer asked_socket sample_download) = Some s"
    "list_all (proper_frame (layout_of sample_context)) fs" "sk_sent (ss_socket s) = take m (wire_of fs)"
    using client_keeps_protocol [OF sample_context_ok _ sound_first(1) [OF sample_context_ok sample_download_ok(1-4)],
        of 3 zero_peer asked_socket] by auto
  moreover have "length (sk_sent (ss_socket s)) = 39" using asked_run run(1) len by simp
  ultimately show ?thesis by blast
qed

section \<open>Inconsistent torrents\<close>

text \<open>
  main checks that the lengths are positive and that there is a hash, but not that they fit
  together. The size of the last piece is computed from the length of the file, the buffer was
  allocated for a normal piece, and \<open>process_incoming_piece_message\<close> knows only the size: with
  a torrent whose file is longer than its pieces, a peer can write beyond the buffer.
\<close>

definition oversized_context :: download_context where
  "oversized_context = sample_context\<lparr>dc_total_file_size := 3, dc_normal_piece_size := 1,
     dc_pieces := \<lparr>seg_data = Ptr (pad_hash [1] @ pad_hash [2, 3]) 0, seg_length = 40\<rparr>\<rparr>"

definition overflowing_network :: peer_network where
  "overflowing_network = \<lparr>pn_connect = good_connect,
     pn_socket = socket_with [Data (handshake_bytes (replicate 20 7) (replicate 20 9)),
       Data (wire_of [Frame PEER_MESSAGE_BITFIELD [0xC0], Frame PEER_MESSAGE_UNCHOKE [], piece_frame 0 0 [1],
         piece_frame 1 0 [2, 3]])]\<rparr>"

text \<open>
  An answer to the pending request that ends beyond the buffer is stored all the same: the
  only bound the handler checks is the size of the piece.
\<close>

theorem answer_store_beyond:
  assumes "wf_message m" and "msg_id m = PEER_MESSAGE_PIECE" and "msg_is_keep_alive m = False"
    and "valid_frame (frame_of m)"
    and "ds_piece_buffer st = Some buf" and "answers_request st (frame_of m) blk"
    and "length buf < unat (ds_requested_begin st) + length blk"
  shows "process_incoming_piece_message (Some st) (Some m) = None"
  using process_piece_run(1) [OF assms(1-6)] assms(7) by (simp add: store_bytes_def)

definition short_buffer_state :: piece_download_state where
  "short_buffer_state = sample_piece_state\<lparr>ds_piece_buffer := Some [9, 9]\<rparr>"

theorem answer_store_beyond_witness:
  "process_incoming_piece_message (Some short_buffer_state) (Some sample_piece_message) = None"
proof (rule answer_store_beyond [where buf = "[9, 9]" and blk = "[7, 8]"])
  show "wf_message sample_piece_message" "msg_id sample_piece_message = PEER_MESSAGE_PIECE"
    "msg_is_keep_alive sample_piece_message = False" "valid_frame (frame_of sample_piece_message)"
    by (simp_all add: wf_message_def sample_piece_message_def frame_of_def)
  have bytes: "uint32_bytes 1 = [0, 0, 0, 1]" "uint32_bytes 2 = [0, 0, 0, 2]" by code_simp+
  have "frame_of sample_piece_message = piece_frame 1 2 [7, 8]"
    by (simp add: piece_frame_def frame_of_def sample_piece_message_def bytes)
  then show "answers_request short_buffer_state (frame_of sample_piece_message) [7, 8]"
    by (simp add: answers_request_def short_buffer_state_def sample_piece_state_def)
      (rule exI [of _ 1], rule exI [of _ 2], simp)
qed (simp_all add: short_buffer_state_def sample_piece_state_def)

text \<open>The size that main computes for the last piece of such a torrent exceeds the buffer.\<close>

lemma overlong_last_piece:
  assumes ctx: "wf_context ctx" "1 < unat (dc_piece_count ctx)" "\<not> fits (layout_of ctx)"
    and i: "unat (ds_piece_index st) = unat (dc_piece_count ctx) - 1"
  obtains n where "next_piece ctx (s\<lparr>ss_piece := st\<rparr>) = Go (s\<lparr>ss_piece := st\<lparr>ds_piece_size := n\<rparr>\<rparr>)"
    "unat (dc_normal_piece_size ctx) < unat n"
proof -
  let ?n = "dc_piece_count ctx" and ?p = "dc_normal_piece_size ctx" and ?t = "dc_total_file_size ctx"
  have last: "unat (?n - 1) = unat ?n - 1" using ctx(2) by (subst unat_diff) (simp_all add: word_le_nat_alt)
  have split: "unat ?n * unat ?p = unat ?p * (unat ?n - 1) + unat ?p" using ctx(2) by (cases "unat ?n") simp_all
  have long: "unat ?n * unat ?p < unat ?t" using ctx(2,3) by (simp add: fits_def)
  then have small: "unat ?p * (unat ?n - 1) < 2 ^ 63" using split ctx(1) by (simp add: wf_context_def)
  then have product: "unat (?p * (?n - 1)) = unat ?p * (unat ?n - 1)" by (simp add: unat_times_bounded last)
  have inside: "\<not> ?p * (?n - 1) > ?t" using product long split by (simp add: word_less_nat_alt)
  have "\<not> SIZE_MAX div (?n - 1) < ?p"
  proof
    assume "SIZE_MAX div (?n - 1) < ?p"
    then have "18446744073709551615 < unat ?p * (unat ?n - 1)"
      using ctx(2) by (simp add: word_less_nat_alt unat_div last div_less_iff_less_mult)
    then show False using small by simp
  qed
  moreover have "ds_piece_index st = ?n - 1" "\<not> ?n - 1 \<ge> ?n"
    using i last ctx(2) by (simp_all add: word_unat_eq_iff word_le_nat_alt)
  ultimately have "next_piece ctx (s\<lparr>ss_piece := st\<rparr>) = Go (s\<lparr>ss_piece := st\<lparr>ds_piece_size := ?t - ?p * (?n - 1)\<rparr>\<rparr>)"
    using inside by (simp add: next_piece_def Let_def)
  moreover have "unat (?t - ?p * (?n - 1)) = unat ?t - unat ?p * (unat ?n - 1)"
    using inside product by (subst unat_diff) (simp_all add: not_less)
  then have "unat ?p < unat (?t - ?p * (?n - 1))" using long split by simp
  ultimately show thesis by (rule that)
qed

text \<open>Every answer to the pending request is written beyond the buffer.\<close>

definition overflows :: "byte list \<Rightarrow> piece_download_state \<Rightarrow> bool" where
  "overflows buf st \<longleftrightarrow>
     (\<forall>m blk. deliverable m \<and> msg_id m = PEER_MESSAGE_PIECE \<and> answers_request st (frame_of m) blk \<longrightarrow>
        store_bytes buf (unat (ds_requested_begin st)) blk = None \<and>
        process_incoming_piece_message (Some st) (Some m) = None)"

lemma overflowsI:
  assumes "ds_piece_buffer st = Some buf" and "length buf < unat (ds_requested_begin st) + unat (ds_requested_length st)"
  shows "overflows buf st"
  unfolding overflows_def
proof (intro allI impI)
  fix m blk
  assume m: "deliverable m \<and> msg_id m = PEER_MESSAGE_PIECE \<and> answers_request st (frame_of m) blk"
  then have "length buf < unat (ds_requested_begin st) + length blk" using assms(2) by (simp add: answers_request_def)
  then show "store_bytes buf (unat (ds_requested_begin st)) blk = None \<and>
      process_incoming_piece_message (Some st) (Some m) = None"
    using m answer_store_beyond [OF _ _ _ _ assms(1), of m blk] by (auto simp: deliverable_def store_bytes_def)
qed

text \<open>
  C21: a torrent of several pieces whose file is longer than all of them together makes the
  client write beyond its buffer. When the last piece is reached, main computes a size for it that
  exceeds the buffer, which was allocated for a normal piece; when as many whole blocks of it have been
  received as fit the buffer, the client requests a block that does not fit, and each message that
  answers the request, and so passes every check of the handler, is stored out of bounds.
\<close>

theorem overlong_torrent_overflows:
  assumes "wf_context ctx" and "1 < unat (dc_piece_count ctx)" and "\<not> fits (layout_of ctx)"
    and "ds_piece_buffer st = Some buf" and "length buf = unat (dc_normal_piece_size ctx)"
    and "unat (ds_piece_index st) = unat (dc_piece_count ctx) - 1" and "\<not> ds_request_pending st"
  shows "\<exists>n. next_piece ctx (s\<lparr>ss_piece := st\<rparr>) = Go (s\<lparr>ss_piece := st\<lparr>ds_piece_size := n\<rparr>\<rparr>) \<and> length buf < unat n \<and>
    (\<forall>fd t t'. 0 \<le> fd \<and>
       ss_piece t = st\<lparr>ds_piece_size := n, ds_bytes_received := of_nat (16384 * (length buf div 16384))\<rparr> \<and>
       send_next_request fd t = Some (Go t') \<and> ds_request_pending (ss_piece t') \<longrightarrow> overflows buf (ss_piece t'))"
proof -
  obtain n where n: "next_piece ctx (s\<lparr>ss_piece := st\<rparr>) = Go (s\<lparr>ss_piece := st\<lparr>ds_piece_size := n\<rparr>\<rparr>)" "length buf < unat n"
    using overlong_last_piece [OF assms(1-3,6)] assms(5) by metis
  have "overflows buf (ss_piece t')"
    if t: "0 \<le> fd" "ss_piece t = st\<lparr>ds_piece_size := n, ds_bytes_received := of_nat (16384 * (length buf div 16384))\<rparr>"
      "send_next_request fd t = Some (Go t')" "ds_request_pending (ss_piece t')" for fd t t'
  proof -
    let ?r = "16384 * (length buf div 16384)"
    have r: "?r \<le> length buf" by simp
    have "length buf < 2 ^ 64" using assms(5) unat_size_lt [of "dc_normal_piece_size ctx"] by simp
    then have "unat (of_nat ?r :: size_t) = ?r" using r by (intro unat_of_nat_size) linarith
    then have recv: "unat (ds_bytes_received (ss_piece t)) = ?r" using t(2) by (simp del: of_nat_mult)
    have size: "ds_piece_size (ss_piece t) = n" using t(2) by simp
    have "unat (ds_bytes_received (ss_piece t)) \<le> unat (ds_piece_size (ss_piece t))" using recv size n(2) r by simp
    from send_next_request_eq [OF this, of fd] have t': "ss_piece t' = requested (ss_piece t)"
      using t assms(7) by (auto simp: peer_send_request_eq split: if_splits prod.splits)
    have len: "request_length (ss_piece t) = min 16384 (unat n - ?r)"
      by (simp add: request_length_def block_limit_def recv size)
    have "length buf < ?r + min 16384 (unat n - ?r)"
      using n(2) mod_less_divisor [of 16384 "length buf"] mult_div_mod_eq [of 16384 "length buf"] by (auto simp: min_def)
    then have "length buf < unat (ds_requested_begin (ss_piece t')) + unat (ds_requested_length (ss_piece t'))"
      by (simp add: t' requested_def unat_request_length recv) (simp add: len)
    moreover have "ds_piece_buffer (ss_piece t') = Some buf" using t(2) assms(4) by (simp add: t' requested_def)
    ultimately show ?thesis by (intro overflowsI)
  qed
  then show ?thesis using n by blast
qed

text \<open>The first of two pieces is done; the second has two bytes, the buffer one.\<close>

definition last_piece_session :: session where
  "last_piece_session = (enter_peer 3 zero_peer (socket_with []) sample_download)
     \<lparr>ss_piece := (first_piece_state 1 [1])\<lparr>ds_piece_index := 1\<rparr>,
      ss_conn := \<lparr>pc_bitfield = None, pc_bitfield_length = 0, pc_peer = zero_peer, pc_peer_choking_us = False,
        pc_we_are_interested = True, pc_socket = 3\<rparr>\<rparr>"

definition last_piece_answer :: peer_wire_message where
  "last_piece_answer = \<lparr>msg_id = PEER_MESSAGE_PIECE, msg_payload = Some [0, 0, 0, 1, 0, 0, 0, 0, 2, 3],
     msg_payload_length = 10, msg_is_keep_alive = False\<rparr>"

lemma last_piece_run:
  assumes "n = 2"
  shows "send_next_request 3 (last_piece_session\<lparr>ss_piece := (ss_piece last_piece_session)\<lparr>ds_piece_size := n\<rparr>\<rparr>) =
    Some (Go (last_piece_session\<lparr>ss_socket := (socket_with [])\<lparr>sk_sent := encode_frame (request_frame 1 0 2)\<rparr>,
      ss_piece := (ss_piece last_piece_session)\<lparr>ds_piece_size := 2, ds_request_pending := True, ds_requested_length := 2\<rparr>\<rparr>))"
  unfolding assms by code_simp

theorem overlong_torrent_overflows_witness:
  "store_bytes [1] 0 [2, 3] = None \<and>
   process_incoming_piece_message (Some ((first_piece_state 2 [1])\<lparr>ds_piece_index := 1, ds_request_pending := True,
     ds_requested_length := 2\<rparr>)) (Some last_piece_answer) = None"
proof -
  let ?st = "ss_piece last_piece_session"
  let ?asked = "(first_piece_state 2 [1])\<lparr>ds_piece_index := 1, ds_request_pending := True, ds_requested_length := 2\<rparr>"
  have st: "ds_piece_buffer ?st = Some [1]" "unat (ds_piece_index ?st) = 1" "\<not> ds_request_pending ?st"
    by (simp_all add: last_piece_session_def first_piece_state_def)
  have ctx: "wf_context oversized_context" "1 < unat (dc_piece_count oversized_context)"
    "\<not> fits (layout_of oversized_context)" "length [1 :: byte] = unat (dc_normal_piece_size oversized_context)"
    "unat (dc_piece_count oversized_context) = 2"
    by (simp_all add: wf_context_def oversized_context_def sample_context_def valid_segment_def fits_def)
  obtain n where n: "next_piece oversized_context (last_piece_session\<lparr>ss_piece := ?st\<rparr>) =
      Go (last_piece_session\<lparr>ss_piece := ?st\<lparr>ds_piece_size := n\<rparr>\<rparr>)"
    and run: "\<And>fd t t'. 0 \<le> fd \<Longrightarrow> ss_piece t = ?st\<lparr>ds_piece_size := n, ds_bytes_received := 0\<rparr> \<Longrightarrow>
      send_next_request fd t = Some (Go t') \<Longrightarrow> ds_request_pending (ss_piece t') \<Longrightarrow> overflows [1] (ss_piece t')"
    using overlong_torrent_overflows [OF ctx(1-3) st(1) ctx(4) _ st(3), of last_piece_session] st(2) ctx(5) by auto
  have "(case next_piece oversized_context (last_piece_session\<lparr>ss_piece := ?st\<rparr>) of
      Go s \<Rightarrow> ds_piece_size (ss_piece s) | Leave s \<Rightarrow> 0) = 2" by code_simp
  then have "n = 2" unfolding n by simp
  then have "overflows [1] ((ss_piece last_piece_session)\<lparr>ds_piece_size := 2, ds_request_pending := True, ds_requested_length := 2\<rparr>)"
    using run [OF _ _ last_piece_run [of n]] by (simp add: last_piece_session_def first_piece_state_def)
  then have "overflows [1] ?asked" by (simp add: last_piece_session_def first_piece_state_def)
  moreover have "deliverable last_piece_answer" "msg_id last_piece_answer = PEER_MESSAGE_PIECE"
    by (simp_all add: deliverable_def wf_message_def last_piece_answer_def frame_of_def)
  moreover have "frame_of last_piece_answer = piece_frame 1 0 [2, 3]" by code_simp
  then have "answers_request ?asked (frame_of last_piece_answer) [2, 3]"
    unfolding answers_request_def by (intro conjI exI [of _ 1] exI [of _ 0]) (simp_all add: first_piece_state_def)
  ultimately show ?thesis unfolding overflows_def by (auto simp: first_piece_state_def)
qed

text \<open>
  The whole download of such a torrent: it passes every check of main, and a peer that serves it
  faithfully makes the client write beyond its buffer.
\<close>

theorem inconsistent_torrent_overflows:
  "wf_context oversized_context \<and> \<not> consistent (layout_of oversized_context) \<and>
   peers_loop oversized_context [(zero_peer, overflowing_network)]
     (sample_download\<lparr>dl_piece := first_piece_state (first_piece_size oversized_context) [0]\<rparr>) = None"
proof (intro conjI)
  show "wf_context oversized_context" "\<not> consistent (layout_of oversized_context)"
    by (simp_all add: wf_context_def oversized_context_def sample_context_def valid_segment_def
        consistent_def layout_of_def piece_start_def)
  show "peers_loop oversized_context [(zero_peer, overflowing_network)]
     (sample_download\<lparr>dl_piece := first_piece_state (first_piece_size oversized_context) [0]\<rparr>) = None"
    by code_simp
qed

text \<open>
  A file shorter than the offset of its last piece is not noticed before the download either. The
  peer that delivers the last piece but one is dropped, and the next one is asked for a whole piece
  behind the end of the file.
\<close>

definition short_context :: download_context where
  "short_context = sample_context\<lparr>dc_total_file_size := 1\<rparr>"

definition idle_socket :: socket where
  "idle_socket = socket_with [Data (wire_of [Frame PEER_MESSAGE_BITFIELD [0xC0], Frame PEER_MESSAGE_UNCHOKE []]), Closed]"

theorem short_torrent_asks_beyond:
  "wf_context short_context \<and> \<not> consistent (layout_of short_context) \<and>
   map_option (\<lambda>s. sk_sent (ss_socket s))
     (do {
        d \<leftarrow> fetch_from_peer short_context zero_peer sample_network sample_download;
        session_loop short_context 3 (enter_peer 3 zero_peer idle_socket d)
      }) =
   Some (encode_frame (Frame PEER_MESSAGE_INTERESTED []) @ encode_frame (request_frame 1 0 2))"
proof (intro conjI)
  show "wf_context short_context" "\<not> consistent (layout_of short_context)"
    by (simp_all add: wf_context_def short_context_def sample_context_def valid_segment_def
        consistent_def layout_of_def piece_start_def)
  show "map_option (\<lambda>s. sk_sent (ss_socket s))
     (do {
        d \<leftarrow> fetch_from_peer short_context zero_peer sample_network sample_download;
        session_loop short_context 3 (enter_peer 3 zero_peer idle_socket d)
      }) =
   Some (encode_frame (Frame PEER_MESSAGE_INTERESTED []) @ encode_frame (request_frame 1 0 2))"
    by code_simp
qed

end
