(* ===== verification/Local_Inputs.thy ===== *)
theory Local_Inputs
  imports Tracker_Response
begin

text \<open>
  What main reads before it talks to anyone: the command line (src/cli.c), the torrent file
  (src/file_reader.c), the info hash (src/info_hash.c) and the peer id (src/peer_id.c). The C
  library and OpenSSL are parameters: records of the answers their functions give. A count goes
  with the resources they hand out, open streams and digest contexts.
\<close>

section \<open>The command line\<close>

definition cli_arguments_valid ::
  "int \<Rightarrow> byte list list \<Rightarrow> byte list option option \<Rightarrow> (bool \<times> byte list option option) option" where
  "cli_arguments_valid argc argv out_torrent_path =
     (case out_torrent_path of
        None \<Rightarrow> Some (False, None)
      | Some _ \<Rightarrow>
          if argc \<noteq> 2 then Some (False, out_torrent_path)
          else if 1 < length argv then Some (True, Some (Some (argv ! 1)))
          else None)"

section \<open>The torrent file\<close>

text \<open>
  The answers of the calls on the stream, in the order they are made: the contents, whether the
  file opens, whether the two \<open>fseek\<close> and the \<open>ftell\<close> succeed, and how many bytes \<open>fread\<close> gets
  when it stops early.
\<close>

record input_file =
  if_opens :: bool
  if_contents :: "byte list"
  if_seek_end :: bool
  if_tell :: bool
  if_seek_set :: bool
  if_read_limit :: "nat option"

record byte_buffer =
  bb_data :: "byte list option"
  bb_length :: size_t

definition empty_buffer :: byte_buffer where
  "empty_buffer = \<lparr>bb_data = None, bb_length = 0\<rparr>"

text \<open>\<open>ftell\<close> at the end of the file: the number of its bytes, or -1.\<close>

definition ftell_at_end :: "input_file \<Rightarrow> int" where
  "ftell_at_end f = (if if_tell f then int (length (if_contents f)) else - 1)"

definition get_file_size :: "input_file \<Rightarrow> size_t option \<Rightarrow> bool \<times> size_t option" where
  "get_file_size file out_file_size =
     (case out_file_size of
        None \<Rightarrow> (False, None)
      | Some _ \<Rightarrow>
          if \<not> if_seek_end file then (False, Some 0)
          else
            let position = ftell_at_end file in
            if position < 0 then (False, Some 0)
            else
              let file_size = of_int position in
              if \<not> if_seek_set file then (False, Some 0)
              else (True, Some file_size))"

text \<open>What \<open>fread\<close> stores: the first bytes of the file, at most as many as there is room for.\<close>

definition fread :: "nat \<Rightarrow> input_file \<Rightarrow> byte list" where
  "fread n file =
     (case if_read_limit file of
        None \<Rightarrow> take n (if_contents file)
      | Some k \<Rightarrow> take (min k n) (if_contents file))"

definition read_byte_buffer_from_file ::
  "(byte list \<Rightarrow> input_file) \<Rightarrow> byte list option \<Rightarrow> byte_buffer option \<Rightarrow> heap \<Rightarrow> int \<Rightarrow>
   (bool \<times> byte_buffer option \<times> heap \<times> int) option" where
  "read_byte_buffer_from_file fopen torrent_filepath out_buffer h files =
     (case (torrent_filepath, out_buffer) of
        (Some path, Some _) \<Rightarrow>
          let out_buffer = Some empty_buffer; file = fopen path in
          if \<not> if_opens file then Some (False, out_buffer, h, files)
          else
            let files = files + 1 in do {
            (file_size_obtained, file_size) \<leftarrow> Some (get_file_size file (Some 0));
            file_size \<leftarrow> file_size;
            if \<not> file_size_obtained then Some (False, out_buffer, h, files - 1)
            else if file_size = 0 then Some (False, out_buffer, h, files - 1)
            else (case malloc h of
                (False, h) \<Rightarrow> Some (False, out_buffer, h, files - 1)
              | (True, h) \<Rightarrow>
                  let data = fread (unat file_size) file; fread_size = of_nat (length data) in
                  if fread_size \<noteq> file_size then Some (False, out_buffer, free False h, files - 1)
                  else Some (True, Some \<lparr>bb_data = Some data, bb_length = file_size\<rparr>, h, files - 1))
          }
      | _ \<Rightarrow> Some (False, out_buffer, h, files))"

definition free_buffer :: "byte_buffer option \<Rightarrow> heap \<Rightarrow> byte_buffer option \<times> heap" where
  "free_buffer buffer h =
     (case buffer of
        None \<Rightarrow> (None, h)
      | Some b \<Rightarrow> (Some empty_buffer, free (bb_data b = None) h))"

text \<open>A regular file of a size that \<open>long\<close> can count.\<close>

definition regular_file :: "input_file \<Rightarrow> bool" where
  "regular_file f \<longleftrightarrow> length (if_contents f) < 2 ^ 63"

definition file_readable :: "input_file \<Rightarrow> bool" where
  "file_readable f \<longleftrightarrow> if_opens f \<and> if_seek_end f \<and> if_tell f \<and> if_seek_set f \<and> if_contents f \<noteq> [] \<and>
     (case if_read_limit f of None \<Rightarrow> True | Some k \<Rightarrow> length (if_contents f) \<le> k)"

lemma read_file_run:
  assumes "regular_file (fopen path)"
  shows "\<exists>ok b h'. read_byte_buffer_from_file fopen (Some path) (Some old) h files = Some (ok, Some b, h', files) \<and>
    (if ok then b = \<lparr>bb_data = Some (if_contents (fopen path)), bb_length = of_nat (length (if_contents (fopen path)))\<rparr> \<and>
        live h' = live h + 1 \<and> file_readable (fopen path)
     else b = empty_buffer \<and> live h' = live h \<and> (plentiful h \<longrightarrow> \<not> file_readable (fopen path)))"
proof -
  let ?f = "fopen path" and ?n = "length (if_contents (fopen path))"
  have size: "unat (of_nat ?n :: size_t) = ?n" using assms by (simp add: regular_file_def unat_of_nat_size)
  have zero: "(of_nat ?n :: size_t) = 0 \<longleftrightarrow> if_contents ?f = []"
    using size by (metis length_0_conv unat_0 unat_eq_zero)
  note code = read_byte_buffer_from_file_def get_file_size_def ftell_at_end_def Let_def
  show ?thesis
  proof (cases "if_opens ?f \<and> if_seek_end ?f \<and> if_tell ?f \<and> if_seek_set ?f \<and> if_contents ?f \<noteq> []")
    case False
    then have "read_byte_buffer_from_file fopen (Some path) (Some old) h files = Some (False, Some empty_buffer, h, files)"
      using zero by (auto simp: code)
    then show ?thesis using False by (auto simp: file_readable_def)
  next
    case True
    obtain g h1 where m: "malloc h = (g, h1)" by fastforce
    show ?thesis
    proof (cases g)
      case False
      then have "read_byte_buffer_from_file fopen (Some path) (Some old) h files = Some (False, Some empty_buffer, h1, files)"
        using True m zero by (simp add: code)
      then show ?thesis using m False plentiful_malloc [of h] by (auto simp: heap_simps)
    next
      case g: True
      let ?d = "fread ?n ?f"
      have d: "length ?d \<le> ?n" by (auto simp: fread_def split: option.splits)
      then have len: "(of_nat (length ?d) :: size_t) = of_nat ?n \<longleftrightarrow> length ?d = ?n"
        using assms by (auto simp: regular_file_def word_unat_eq_iff unat_of_nat_size)
      have full: "length ?d = ?n \<longleftrightarrow> (case if_read_limit ?f of None \<Rightarrow> True | Some k \<Rightarrow> ?n \<le> k)"
        by (auto simp: fread_def split: option.splits)
      have whole: "?d = if_contents ?f" if "length ?d = ?n"
        using that by (auto simp: fread_def split: option.splits)
      have run: "read_byte_buffer_from_file fopen (Some path) (Some old) h files =
          (if length ?d \<noteq> ?n then Some (False, Some empty_buffer, free False h1, files)
           else Some (True, Some \<lparr>bb_data = Some ?d, bb_length = of_nat ?n\<rparr>, h1, files))"
        using True m g zero len size by (simp add: code)
      show ?thesis
        using run m g full whole True by (cases "length ?d = ?n") (auto simp: heap_simps file_readable_def)
    qed
  qed
qed

lemma read_file_succeeds:
  assumes "regular_file (fopen path)" "file_readable (fopen path)" "plentiful h"
  shows "\<exists>h'. read_byte_buffer_from_file fopen (Some path) (Some old) h files =
    Some (True, Some \<lparr>bb_data = Some (if_contents (fopen path)), bb_length = of_nat (length (if_contents (fopen path)))\<rparr>,
      h', files) \<and> plentiful h'"
proof -
  obtain h' where "malloc h = (True, h')" "plentiful h'" using plentiful_malloc [OF assms(3)] by blast
  then have "plentiful h2" if "read_byte_buffer_from_file fopen (Some path) (Some old) h files = Some (True, b, h2, f)" for b h2 f
    using that by (auto simp: read_byte_buffer_from_file_def Let_def bind_eq_Some_conv split: if_splits prod.splits)
  then show ?thesis using read_file_run [of fopen path old h files, OF assms(1)] assms(2,3) by (auto split: if_splits)
qed

section \<open>The info hash\<close>

text \<open>
  OpenSSL's digest functions: the result codes, the length that \<open>EVP_DigestFinal_ex\<close> reports, and
  SHA-1 itself.
\<close>

record evp =
  evp_ctx_new :: bool
  evp_digest_init :: int
  evp_digest_update :: int
  evp_digest_final :: int
  evp_digest_length :: uint32
  evp_sha1 :: "byte list \<Rightarrow> byte list"

definition compute_info_hash ::
  "evp \<Rightarrow> ptr \<Rightarrow> size_t \<Rightarrow> byte list option \<Rightarrow> int \<Rightarrow> (bool \<times> byte list option \<times> int) option" where
  "compute_info_hash evp bytes len out_info_hash contexts =
     (if bytes = NULL \<or> out_info_hash = None then Some (False, out_info_hash, contexts)
      else if \<not> evp_ctx_new evp then Some (False, out_info_hash, contexts)
      else
        let contexts = contexts + 1 in
        if evp_digest_init evp \<noteq> 1 then Some (False, out_info_hash, contexts - 1)
        else do {
          data \<leftarrow> read_bytes bytes (unat len);
          if evp_digest_update evp \<noteq> 1 then Some (False, out_info_hash, contexts - 1)
          else do {
            let temp_hash = replicate 20 (0 :: byte);
            temp_hash \<leftarrow> store_bytes temp_hash 0 (evp_sha1 evp data);
            if evp_digest_final evp \<noteq> 1 \<or> evp_digest_length evp \<noteq> 20 then Some (False, out_info_hash, contexts - 1)
            else Some (True, Some temp_hash, contexts - 1)
          }
        })"

text \<open>SHA-1 makes 20 bytes.\<close>

definition sha1_documented :: "(byte list \<Rightarrow> byte list) \<Rightarrow> bool" where
  "sha1_documented sha1 \<longleftrightarrow> (\<forall>bs. length (sha1 bs) = 20)"

lemma info_hash_run:
  assumes "sha1_documented (evp_sha1 evp)" and "read_bytes p (unat n) = Some bs"
  shows "\<exists>ok out. compute_info_hash evp p n (Some old) contexts = Some (ok, Some out, contexts) \<and>
    (if ok then out = evp_sha1 evp bs else out = old)"
proof -
  have "p \<noteq> NULL" using assms(2) by auto
  moreover have "store_bytes (replicate 20 0) 0 (evp_sha1 evp bs) = Some (evp_sha1 evp bs)"
    using assms(1) by (simp add: sha1_documented_def store_bytes_def)
  ultimately show ?thesis
    using assms(2) by (cases "evp_digest_final evp \<noteq> 1 \<or> evp_digest_length evp \<noteq> 20")
      (simp_all add: compute_info_hash_def Let_def)
qed

section \<open>The peer id\<close>

definition PEER_ID_PREFIX :: "byte list" where
  "PEER_ID_PREFIX = bytes_of ''-LO0001-''"

text \<open>\<open>RAND_bytes\<close>: its result code and the bytes it stores.\<close>

record random_source =
  rand_code :: int
  rand_bytes :: "byte list"

definition generate_peer_id :: "random_source \<Rightarrow> byte list option \<Rightarrow> (bool \<times> byte list option) option" where
  "generate_peer_id rand out_peer_id =
     (case out_peer_id of
        None \<Rightarrow> Some (False, None)
      | Some _ \<Rightarrow> do {
          let temp_peer_id = PEER_ID_PREFIX @ replicate 12 0;
          temp_peer_id \<leftarrow> store_bytes temp_peer_id 8 (rand_bytes rand);
          if rand_code rand \<noteq> 1 then Some (False, out_peer_id)
          else Some (True, Some temp_peer_id)
        })"

definition rand_documented :: "random_source \<Rightarrow> bool" where
  "rand_documented rand \<longleftrightarrow> length (rand_bytes rand) = 12"

lemma peer_id_run:
  assumes "rand_documented rand"
  shows "generate_peer_id rand (Some old) =
    Some (if rand_code rand = 1 then (True, Some (PEER_ID_PREFIX @ rand_bytes rand)) else (False, Some old))"
  using assms
  by (simp add: generate_peer_id_def rand_documented_def store_bytes_def PEER_ID_PREFIX_def Let_def)

lemma length_peer_id_prefix: "length PEER_ID_PREFIX = 8"
  by (simp add: PEER_ID_PREFIX_def)

section \<open>Properties\<close>

text \<open>
  C39: \<open>read_byte_buffer_from_file\<close> hands over exactly the bytes of the file with their number, or
  reports failure with an empty buffer; it never leaves the stream open, and a failure leaves
  no block allocated. With enough memory it succeeds exactly on a readable file that is not empty.
\<close>

theorem torrent_file_read:
  assumes "regular_file (fopen path)"
  shows "\<exists>ok b h'. read_byte_buffer_from_file fopen (Some path) (Some old) h files = Some (ok, Some b, h', files) \<and>
    (if ok then bb_data b = Some (if_contents (fopen path)) \<and> unat (bb_length b) = length (if_contents (fopen path)) \<and>
        live h' = live h + 1
     else b = empty_buffer \<and> live h' = live h) \<and>
    (plentiful h \<longrightarrow> (ok \<longleftrightarrow> file_readable (fopen path)))"
  using read_file_run [of fopen path old h files, OF assms] assms
  by (auto simp: regular_file_def unat_of_nat_size split: if_splits)

definition sample_file :: input_file where
  "sample_file = \<lparr>if_opens = True, if_contents = [1, 2, 3], if_seek_end = True, if_tell = True, if_seek_set = True,
     if_read_limit = Some 2\<rparr>"

theorem torrent_file_read_witness:
  "\<exists>b h'. read_byte_buffer_from_file (\<lambda>_. sample_file\<lparr>if_read_limit := None\<rparr>) (Some []) (Some empty_buffer) fresh_heap 0 =
      Some (True, Some b, h', 0) \<and> bb_data b = Some [1, 2, 3] \<and>
   (\<exists>b h'. read_byte_buffer_from_file (\<lambda>_. sample_file) (Some []) (Some empty_buffer) fresh_heap 0 =
      Some (False, Some b, h', 0) \<and> live h' = 0)"
proof -
  have "regular_file (sample_file\<lparr>if_read_limit := None\<rparr>)" "file_readable (sample_file\<lparr>if_read_limit := None\<rparr>)"
    "regular_file sample_file" "\<not> file_readable sample_file" "live fresh_heap = 0"
    by (simp_all add: regular_file_def file_readable_def sample_file_def fresh_heap_def)
  then show ?thesis
    using torrent_file_read [of "\<lambda>_. sample_file\<lparr>if_read_limit := None\<rparr>" "[]" empty_buffer fresh_heap 0]
      torrent_file_read [of "\<lambda>_. sample_file" "[]" empty_buffer fresh_heap 0]
    by (fastforce simp: sample_file_def split: if_splits)
qed

text \<open>
  C40: \<open>compute_info_hash\<close> returns the SHA-1 of exactly the bytes it was given, or fails without
  touching its output, and gives the digest context back on every path; \<open>generate_peer_id\<close>
  returns 20 bytes that begin with the client's prefix.
\<close>

theorem identities_exact:
  assumes "sha1_documented (evp_sha1 evp)" and "readable p (unat n)" and "rand_documented rand"
  shows "(\<exists>ok out. compute_info_hash evp p n (Some old) contexts = Some (ok, Some out, contexts) \<and>
      (if ok then read_bytes p (unat n) \<bind> (\<lambda>bs. Some (evp_sha1 evp bs)) = Some out else out = old)) \<and>
    (\<exists>ok out. generate_peer_id rand (Some old) = Some (ok, Some out) \<and>
      (if ok then length out = 20 \<and> take 8 out = bytes_of ''-LO0001-'' \<and> drop 8 out = rand_bytes rand else out = old))"
proof -
  obtain bs where bs: "read_bytes p (unat n) = Some bs" using assms(2) by (cases p) auto
  obtain ok out where "compute_info_hash evp p n (Some old) contexts = Some (ok, Some out, contexts)"
    "if ok then out = evp_sha1 evp bs else out = old"
    using info_hash_run [OF assms(1) bs, of old contexts] by blast
  then show ?thesis
    using bs peer_id_run [OF assms(3), of old] assms(3) length_peer_id_prefix
    by (auto simp: rand_documented_def PEER_ID_PREFIX_def)
qed

definition sample_evp :: evp where
  "sample_evp = \<lparr>evp_ctx_new = True, evp_digest_init = 1, evp_digest_update = 1, evp_digest_final = 1,
     evp_digest_length = 20, evp_sha1 = (\<lambda>bs. take 20 (bs @ replicate 20 0))\<rparr>"

definition sample_random :: random_source where
  "sample_random = \<lparr>rand_code = 1, rand_bytes = replicate 12 65\<rparr>"

lemma sample_sha1: "sha1_documented (evp_sha1 sample_evp)"
  unfolding sha1_documented_def
proof
  fix bs :: "byte list"
  show "length (evp_sha1 sample_evp bs) = 20" by (cases "length bs \<le> 20") (simp_all add: sample_evp_def)
qed

lemma sample_rand: "rand_documented sample_random"
  by (simp add: rand_documented_def sample_random_def)

theorem identities_exact_witness:
  "\<exists>out. generate_peer_id sample_random (Some []) = Some (True, Some out) \<and> take 8 out = bytes_of ''-LO0001-'' \<and>
     length out = 20"
proof -
  have "map_option fst (generate_peer_id sample_random (Some [])) = Some True" by code_simp
  moreover have "readable (Ptr [1, 2, 3] 1) (unat (2 :: size_t))" by simp
  ultimately show ?thesis
    using identities_exact [OF sample_sha1 _ sample_rand, of "Ptr [1, 2, 3] 1" 2 "[]" 0] by auto
qed

end
