(* ===== verification/Main_Program.thy ===== *)
theory Main_Program
  imports Tracker_Request Download_Correct Local_Inputs
begin

text \<open>
  src/main.c as a whole: every stage with every error path, what is freed on it and the exit
  code. Everything outside the program is an argument: the command line, the file system,
  OpenSSL, libcurl, the network and the allocator.
\<close>

section \<open>The environment and the resources\<close>

record environment =
  env_argc :: int
  env_argv :: "byte list list"
  env_open :: "byte list \<Rightarrow> input_file"
  env_evp :: evp
  env_random :: random_source
  env_curl :: curl
  env_inet_pton :: "byte list \<Rightarrow> ipv4 option"
  env_create :: "byte list \<Rightarrow> bool"
  env_seeks :: "bool list"
  env_writes :: "nat list"
  env_close :: "byte list \<Rightarrow> int \<times> byte list"
  env_uninitialised :: "nat \<Rightarrow> byte"
  env_network :: "nat \<Rightarrow> peer_network"
  env_sha1 :: "byte list \<Rightarrow> byte list"

text \<open>What the process holds: blocks, open streams, digest contexts and descriptors.\<close>

record resources =
  rs_heap :: heap
  rs_files :: int
  rs_contexts :: int
  rs_fds :: "int set"

text \<open>The exit code, the output file if it was created, and what is still held.\<close>

record outcome =
  oc_exit :: int
  oc_file :: "byte list option"
  oc_resources :: resources

definition exits :: "int \<Rightarrow> byte list option \<Rightarrow> heap \<Rightarrow> resources \<Rightarrow> outcome option" where
  "exits code out h r = Some \<lparr>oc_exit = code, oc_file = out, oc_resources = r\<lparr>rs_heap := h\<rparr>\<rparr>"

section \<open>The clean-up sequences\<close>

definition release_torrent :: "bencode_object \<Rightarrow> byte_buffer \<Rightarrow> heap \<Rightarrow> heap" where
  "release_torrent obj buffer h = snd (free_buffer (Some buffer) (snd (free_bencode_object obj h)))"

definition release_response ::
  "bencode_object \<Rightarrow> tracker_response_buffer \<Rightarrow> bencode_object \<Rightarrow> byte_buffer \<Rightarrow> heap \<Rightarrow> heap" where
  "release_response response_obj tracker_response obj buffer h =
     release_torrent obj buffer (free (rb_data tracker_response = None) (snd (free_bencode_object response_obj h)))"

definition release_peers ::
  "peer_array \<Rightarrow> bencode_object \<Rightarrow> tracker_response_buffer \<Rightarrow> bencode_object \<Rightarrow> byte_buffer \<Rightarrow> heap \<Rightarrow> heap" where
  "release_peers peers response_obj tracker_response obj buffer h =
     release_response response_obj tracker_response obj buffer (free (pa_peers peers = None) h)"

section \<open>The stages of main\<close>

text \<open>\<open>peers_extracted\<close>: one of the two forms, by the type of the object.\<close>

definition extract_peers ::
  "(byte list \<Rightarrow> ipv4 option) \<Rightarrow> bencode_object \<Rightarrow> heap \<Rightarrow> (bool \<times> peer_array option \<times> heap) option" where
  "extract_peers inet_pton peers_object h =
     (case obj_value peers_object of
        Byte_String s \<Rightarrow> peers_extract_compact (Some s) (Some no_peers) h
      | List_Value items capacity \<Rightarrow> peers_extract_list inet_pton (Some items) (Some no_peers) h
      | _ \<Rightarrow> Some (False, Some no_peers, h))"

text \<open>The peers of the array, each with what the network does when it is tried.\<close>

definition peers_to_try :: "environment \<Rightarrow> peer_array \<Rightarrow> (peer \<times> peer_network) list option" where
  "peers_to_try env peers =
     (let known = (case pa_peers peers of None \<Rightarrow> [] | Some ps \<Rightarrow> ps) in
      if unat (pa_count peers) \<le> length known
      then Some (map (\<lambda>i. (known ! i, env_network env i)) [0..<unat (pa_count peers)])
      else None)"

definition context_of :: "environment \<Rightarrow> torrent_info \<Rightarrow> byte list \<Rightarrow> byte list \<Rightarrow> download_context" where
  "context_of env info info_hash peer_id =
     \<lparr>dc_piece_count = seg_length (ti_pieces info) div 20, dc_total_file_size = ti_length info,
      dc_normal_piece_size = ti_piece_length info, dc_pieces = ti_pieces info,
      dc_info_hash = info_hash, dc_peer_id = peer_id, dc_sha1 = env_sha1 env\<rparr>"

text \<open>
  \<open>fclose\<close> on the output file, from what has been written to the stream: its result, and what is then
  on disk. The stream is buffered, so that data may be lost here or, without a report, in an earlier
  flush; what is on disk is up to the environment.
\<close>

definition fclose :: "environment \<Rightarrow> byte list \<Rightarrow> resources \<Rightarrow> int \<times> byte list \<times> resources" where
  "fclose env written r =
     (let (result, on_disk) = env_close env written in (result, on_disk, r\<lparr>rs_files := rs_files r - 1\<rparr>))"

lemma fclose_eq: "fclose env written r = (fst (env_close env written), snd (env_close env written), r\<lparr>rs_files := rs_files r - 1\<rparr>)"
  by (simp add: fclose_def Let_def split: prod.split)

text \<open>
  After the loop over the peers; the exit code says whether the download is complete. The result
  of \<open>fclose\<close> is not looked at.
\<close>

definition finish_download :: "environment \<Rightarrow> download \<Rightarrow> (heap \<Rightarrow> heap) \<Rightarrow> resources \<Rightarrow> outcome option" where
  "finish_download env d release r =
     (let (ignored, on_disk, r) = fclose env (dk_contents (dl_disk d)) r in
      exits (if dl_complete d then 0 else - 1) (Some on_disk)
        (release (free (ds_piece_buffer (dl_piece d) = None) (dl_heap d))) r)"

text \<open>The state the loop over the peers starts in.\<close>

definition first_download :: "environment \<Rightarrow> download_context \<Rightarrow> heap \<Rightarrow> int set \<Rightarrow> download" where
  "first_download env ctx h fds =
     (let size = first_piece_size ctx; piece_buffer = map (env_uninitialised env) [0..<unat size] in
      \<lparr>dl_piece = first_piece_state size piece_buffer,
       dl_disk = \<lparr>dk_contents = [], dk_position = 0, dk_seeks = env_seeks env, dk_writes = env_writes env\<rparr>,
       dl_heap = h, dl_fds = fds, dl_complete = False\<rparr>)"

text \<open>From the checks of the lengths to the loop; \<open>release\<close> is the clean-up of everything before.\<close>

definition main_download ::
  "environment \<Rightarrow> torrent_info \<Rightarrow> byte list \<Rightarrow> byte list \<Rightarrow> peer_array \<Rightarrow> (heap \<Rightarrow> heap) \<Rightarrow> heap \<Rightarrow> resources \<Rightarrow>
   outcome option" where
  "main_download env info info_hash peer_id peers release h r =
     (if ti_piece_length info \<le>s 0 \<or> ti_length info <s 0 then exits 1 None (release h) r
      else if ti_piece_length info > SIZE_MAX \<or> ti_length info > SIZE_MAX then exits 1 None (release h) r
      else
        let ctx = context_of env info info_hash peer_id in
        if dc_piece_count ctx = 0 then exits 1 None (release h) r
        else do {
          name \<leftarrow> read_bytes (seg_data (ti_name info)) (unat (seg_length (ti_name info)));
          let filepath = c_string (name @ [0]);
          if \<not> env_create env filepath then exits 1 None (release h) r
          else
            let r = r\<lparr>rs_files := rs_files r + 1\<rparr> in
            (case malloc h of
               (False, h) \<Rightarrow> let (ignored, on_disk, r) = fclose env [] r in exits 1 (Some on_disk) (release h) r
             | (True, h) \<Rightarrow> do {
                 tries \<leftarrow> peers_to_try env peers;
                 d \<leftarrow> peers_loop ctx tries (first_download env ctx h (rs_fds r));
                 finish_download env d release (r\<lparr>rs_fds := dl_fds d\<rparr>)
               })
        })"

definition main_peers ::
  "environment \<Rightarrow> torrent_info \<Rightarrow> byte list \<Rightarrow> byte list \<Rightarrow> bencode_object \<Rightarrow> byte_buffer \<Rightarrow>
   tracker_response_buffer \<Rightarrow> bencode_object \<Rightarrow> bencode_object \<Rightarrow> heap \<Rightarrow> resources \<Rightarrow> outcome option" where
  "main_peers env info info_hash peer_id obj buffer tracker_response response_obj peers_object h r = do {
     (peers_extracted, peers, h) \<leftarrow> extract_peers (env_inet_pton env) peers_object h;
     if \<not> peers_extracted then exits 1 None (release_response response_obj tracker_response obj buffer h) r
     else do {
       peers \<leftarrow> peers;
       let release = release_peers peers response_obj tracker_response obj buffer;
       if pa_count peers = 0 then exits 1 None (release h) r
       else main_download env info info_hash peer_id peers release h r
     }
   }"

definition main_tracker ::
  "environment \<Rightarrow> torrent_info \<Rightarrow> byte list \<Rightarrow> byte list \<Rightarrow> bencode_object \<Rightarrow> byte_buffer \<Rightarrow>
   tracker_response_buffer \<Rightarrow> heap \<Rightarrow> resources \<Rightarrow> outcome option" where
  "main_tracker env info info_hash peer_id obj buffer tracker_response h r = do {
     (response_parsed, response_obj, h) \<leftarrow> tracker_response_parse (Some tracker_response) (Some blank_object) h;
     if \<not> response_parsed then
       exits 1 None (release_torrent obj buffer (free (rb_data tracker_response = None) h)) r
     else do {
       response_obj \<leftarrow> response_obj;
       let release = release_response response_obj tracker_response obj buffer;
       (interval_found, interval) \<leftarrow> find_interval (Some response_obj) (Some 0);
       if \<not> interval_found then exits 1 None (release h) r
       else do {
         (peers_found, peers_object) \<leftarrow> find_peers (Some response_obj) (Some None);
         if \<not> peers_found then exits 1 None (release h) r
         else do {
           peers_object \<leftarrow> peers_object;
           peers_object \<leftarrow> peers_object;
           main_peers env info info_hash peer_id obj buffer tracker_response response_obj peers_object h r
         }
       }
     }
   }"

definition announce_request :: "torrent_info \<Rightarrow> byte list \<Rightarrow> byte list \<Rightarrow> tracker_request" where
  "announce_request info info_hash peer_id =
     \<lparr>tr_info_hash = info_hash, tr_peer_id = peer_id, tr_port = 0, tr_uploaded = 0, tr_downloaded = 0,
      tr_left = ti_length info, tr_compact = True, tr_event = TRACKER_EVENT_STARTED\<rparr>"

definition main_announce ::
  "environment \<Rightarrow> torrent_metadata \<Rightarrow> byte list \<Rightarrow> byte list \<Rightarrow> bencode_object \<Rightarrow> byte_buffer \<Rightarrow>
   heap \<Rightarrow> resources \<Rightarrow> outcome option" where
  "main_announce env torrent_metadata info_hash peer_id obj buffer h r = do {
     (announced, tracker_response, h) \<leftarrow> tracker_announce (env_curl env) (Some (tm_announce torrent_metadata))
       (Some (announce_request (tm_info torrent_metadata) info_hash peer_id))
       (Some \<lparr>rb_data = None, rb_length = 0\<rparr>) h;
     if \<not> announced then exits 1 None (release_torrent obj buffer h) r
     else do {
       tracker_response \<leftarrow> tracker_response;
       main_tracker env (tm_info torrent_metadata) info_hash peer_id obj buffer tracker_response h r
     }
   }"

definition main_torrent :: "environment \<Rightarrow> byte_buffer \<Rightarrow> bencode_object \<Rightarrow> heap \<Rightarrow> resources \<Rightarrow> outcome option" where
  "main_torrent env buffer obj h r = do {
     (metadata_extracted, torrent_metadata) \<leftarrow> torrent_metadata_extract (Some obj) (Some blank_metadata);
     if \<not> metadata_extracted then exits 1 None (release_torrent obj buffer h) r
     else do {
       torrent_metadata \<leftarrow> torrent_metadata;
       let span = ti_info_span (tm_info torrent_metadata);
       if span_start span > bb_length buffer then exits 1 None (release_torrent obj buffer h) r
       else if span_length span > bb_length buffer - span_start span then exits 1 None (release_torrent obj buffer h) r
       else do {
         data \<leftarrow> bb_data buffer;
         bytes \<leftarrow> ptr_add (Ptr data 0) (unat (span_start span));
         (computed, info_hash, contexts) \<leftarrow>
           compute_info_hash (env_evp env) bytes (span_length span) (Some (replicate 20 0)) (rs_contexts r);
         let r = r\<lparr>rs_contexts := contexts\<rparr>;
         if \<not> computed then exits 1 None (release_torrent obj buffer h) r
         else do {
           info_hash \<leftarrow> info_hash;
           (peer_id_generated, peer_id) \<leftarrow> generate_peer_id (env_random env) (Some (replicate 20 0));
           if \<not> peer_id_generated then exits 1 None (release_torrent obj buffer h) r
           else do {
             peer_id \<leftarrow> peer_id;
             main_announce env torrent_metadata info_hash peer_id obj buffer h r
           }
         }
       }
     }
   }"

definition main_parse :: "environment \<Rightarrow> byte_buffer \<Rightarrow> heap \<Rightarrow> resources \<Rightarrow> outcome option" where
  "main_parse env buffer h r =
     (case bencode_parser_init (response_ptr (bb_data buffer)) (bb_length buffer) of
        None \<Rightarrow> exits 1 None (snd (free_buffer (Some buffer) h)) r
      | Some parser \<Rightarrow> do {
          (obj, parser, h) \<leftarrow> parse_bencode_buffer parser h;
          case obj of
            None \<Rightarrow> exits 1 None (snd (free_buffer (Some buffer) h)) r
          | Some obj \<Rightarrow> main_torrent env buffer obj h r
        })"

definition main_program :: "environment \<Rightarrow> resources \<Rightarrow> outcome option" where
  "main_program env r = do {
     (valid, torrent_filepath) \<leftarrow> cli_arguments_valid (env_argc env) (env_argv env) (Some None);
     if \<not> valid then exits 1 None (rs_heap r) r
     else do {
       torrent_filepath \<leftarrow> torrent_filepath;
       (result, buffer, h, files) \<leftarrow>
         read_byte_buffer_from_file (env_open env) torrent_filepath (Some empty_buffer) (rs_heap r) (rs_files r);
       let r = r\<lparr>rs_files := files\<rparr>;
       buffer \<leftarrow> buffer;
       if \<not> result then exits 1 None (snd (free_buffer (Some buffer) h)) r
       else main_parse env buffer h r
     }
   }"

section \<open>What main relies on\<close>

text \<open>The documented behaviour of the libraries and the system.\<close>

definition documented :: "environment \<Rightarrow> resources \<Rightarrow> bool" where
  "documented env r \<longleftrightarrow>
     (env_argc env = 2 \<longrightarrow> 1 < length (env_argv env)) \<and>
     (\<forall>path. regular_file (env_open env path)) \<and>
     sha1_documented (evp_sha1 (env_evp env)) \<and> sha1_documented (env_sha1 env) \<and>
     rand_documented (env_random env) \<and>
     escape_documented (env_curl env) \<and> perform_documented (env_curl env) \<and>
     (\<forall>i. fresh_socket (env_network env i) (rs_fds r))"

text \<open>The layout a torrent gives, and the torrents whose fields fit together.\<close>

definition torrent_layout :: "(byte list \<Rightarrow> byte list) \<Rightarrow> torrent \<Rightarrow> layout" where
  "torrent_layout sha1 t =
     \<lparr>ly_count = length (piece_hashes t) div 20, ly_total = nat (file_length t), ly_piece = nat (piece_size t),
      ly_hash = (\<lambda>i. slice (piece_hashes t) (20 * i) 20), ly_sha1 = sha1\<rparr>"

definition torrent_consistent :: "torrent \<Rightarrow> bool" where
  "torrent_consistent t \<longleftrightarrow>
     (20 \<le> length (piece_hashes t) \<longrightarrow> consistent (torrent_layout (\<lambda>bs. bs) t))"

text \<open>The weaker condition that memory safety needs: the last piece is not longer than the others.\<close>

definition torrent_fits :: "torrent \<Rightarrow> bool" where
  "torrent_fits t \<longleftrightarrow> fits (torrent_layout (\<lambda>bs. bs) t)"

lemma fits_sha1: "fits (torrent_layout f t) = fits (torrent_layout g t)"
  by (simp add: fits_def torrent_layout_def)

lemma consistent_sha1: "consistent (torrent_layout f t) = consistent (torrent_layout g t)"
  by (simp add: consistent_def torrent_layout_def piece_start_def)

text \<open>What the torrent file says, when it says anything.\<close>

definition torrent_in :: "byte list \<Rightarrow> torrent \<Rightarrow> bool" where
  "torrent_in contents t \<longleftrightarrow> (\<exists>v n. bencodes v (take n contents) \<and> torrent_of v = Some t)"

definition torrent_file :: "environment \<Rightarrow> byte list" where
  "torrent_file env = if_contents (env_open env (env_argv env ! 1))"

text \<open>All that was held before is held, and nothing else.\<close>

definition gives_back :: "resources \<Rightarrow> outcome \<Rightarrow> bool" where
  "gives_back r oc \<longleftrightarrow>
     live (rs_heap (oc_resources oc)) = live (rs_heap r) \<and> rs_files (oc_resources oc) = rs_files r \<and>
     rs_contexts (oc_resources oc) = rs_contexts r \<and> rs_fds (oc_resources oc) = rs_fds r"

definition ends_well :: "environment \<Rightarrow> torrent \<Rightarrow> outcome \<Rightarrow> bool" where
  "ends_well env t oc \<longleftrightarrow>
     oc_exit oc \<in> {0, 1, - 1} \<and>
     (oc_exit oc = 0 \<longrightarrow> (\<exists>f. oc_file oc = Some (snd (env_close env f)) \<and>
        (torrent_consistent t \<longrightarrow> file_matches (torrent_layout (env_sha1 env) t) f)))"

text \<open>A stage that has \<open>k\<close> blocks to give back.\<close>

definition stage :: "environment \<Rightarrow> torrent \<Rightarrow> int \<Rightarrow> heap \<Rightarrow> resources \<Rightarrow> outcome option \<Rightarrow> bool" where
  "stage env t k h r res \<longleftrightarrow>
     (\<exists>oc. res = Some oc \<and> ends_well env t oc \<and> live (rs_heap (oc_resources oc)) = live h - k \<and>
        rs_files (oc_resources oc) = rs_files r \<and> rs_contexts (oc_resources oc) = rs_contexts r \<and>
        rs_fds (oc_resources oc) = rs_fds r)"

lemma stage_fails: "live h' = live h - k \<Longrightarrow> stage env t k h r (exits 1 None h' r)"
  by (simp add: stage_def exits_def ends_well_def)

lemma stage_moves: "stage env t k h r res \<Longrightarrow> live h - k = live h' - k' \<Longrightarrow> stage env t k' h' r res"
  by (auto simp: stage_def)

section \<open>The download stage\<close>

lemma sint_nonneg: "0 \<le> sint w \<Longrightarrow> sint w = uint w" for w :: int64
proof -
  assume w: "0 \<le> sint w"
  have "uint w = take_bit 64 (sint w)" by (simp add: uint_sint)
  also have "\<dots> = sint w" using w sint_lt [of w] by (intro take_bit_int_eq_self) simp_all
  finally show ?thesis by simp
qed

lemma nat_sint: "0 \<le> sint w \<Longrightarrow> nat (sint w) = unat w" for w :: int64
  using sint_nonneg [of w] by simp

lemma layout_of_context:
  assumes "readable_metadata m" "0 \<le> sint (ti_length (tm_info m))" "0 < sint (ti_piece_length (tm_info m))"
  shows "layout_of (context_of env (tm_info m) ih pid) = torrent_layout (env_sha1 env) (abs_torrent m)"
proof -
  have "valid_segment (ti_pieces (tm_info m))" using assms(1) by (simp add: readable_metadata_def)
  then show ?thesis
    using assms(2,3)
    by (simp add: layout_of_def context_of_def torrent_layout_def abs_torrent_def nat_sint length_seg_bytes unat_div)
qed

text \<open>What the extraction has established of the metadata.\<close>

definition usable :: "torrent_metadata \<Rightarrow> bool" where
  "usable m \<longleftrightarrow> readable_metadata m \<and> 0 \<le> sint (ti_length (tm_info m)) \<and> 0 < sint (ti_piece_length (tm_info m)) \<and>
     20 dvd unat (seg_length (ti_pieces (tm_info m)))"

lemma context_ok:
  assumes m: "usable m" and ids: "length ih = 20" "length pid = 20" and sha1: "sha1_documented (env_sha1 env)"
  shows "wf_context (context_of env (tm_info m) ih pid)"
proof -
  have "0 \<le> sint (ti_length (tm_info m))" using m by (simp add: usable_def)
  moreover have "nat (sint (ti_length (tm_info m))) < 2 ^ 63" using sint_lt [of "ti_length (tm_info m)"] by simp
  ultimately have "unat (ti_length (tm_info m)) < 2 ^ 63" using nat_sint by metis
  moreover have "unat (seg_length (ti_pieces (tm_info m))) = 20 * (unat (seg_length (ti_pieces (tm_info m))) div 20)"
    using m by (simp add: usable_def)
  ultimately show ?thesis
    using m ids sha1 by (simp add: wf_context_def context_of_def usable_def readable_metadata_def unat_div sha1_documented_def)
qed

definition known_peers :: "peer_array \<Rightarrow> peer list" where
  "known_peers peers = (case pa_peers peers of None \<Rightarrow> [] | Some ps \<Rightarrow> ps)"

lemma context_count:
  assumes "usable m"
  shows "unat (dc_piece_count (context_of env (tm_info m) ih pid)) = length (piece_hashes (abs_torrent m)) div 20"
  using assms by (simp add: context_of_def abs_torrent_def usable_def readable_metadata_def length_seg_bytes unat_div)

lemma context_consistent:
  assumes "usable m" "torrent_consistent (abs_torrent m)" "20 \<le> length (piece_hashes (abs_torrent m))"
  shows "layout_of (context_of env (tm_info m) ih pid) = torrent_layout (env_sha1 env) (abs_torrent m)"
    and "consistent (layout_of (context_of env (tm_info m) ih pid))"
proof -
  show layout: "layout_of (context_of env (tm_info m) ih pid) = torrent_layout (env_sha1 env) (abs_torrent m)"
    using assms(1) by (intro layout_of_context) (simp_all add: usable_def)
  show "consistent (layout_of (context_of env (tm_info m) ih pid))"
    unfolding layout using assms(2,3) by (simp add: torrent_consistent_def consistent_sha1 [of "env_sha1 env" _ "\<lambda>bs. bs"])
qed

lemma context_fits:
  assumes "usable m" "torrent_fits (abs_torrent m)"
  shows "fits (layout_of (context_of env (tm_info m) ih pid))"
proof -
  have "layout_of (context_of env (tm_info m) ih pid) = torrent_layout (env_sha1 env) (abs_torrent m)"
    using assms(1) by (intro layout_of_context) (simp_all add: usable_def)
  then show ?thesis using assms(2) by (simp add: torrent_fits_def fits_sha1 [of "env_sha1 env" _ "\<lambda>bs. bs"])
qed

lemma first_download_simps [simp]:
  "dl_heap (first_download env ctx h fds) = h" "dl_fds (first_download env ctx h fds) = fds"
  "dl_complete (first_download env ctx h fds) = False" "dk_contents (dl_disk (first_download env ctx h fds)) = []"
  by (simp_all add: first_download_def Let_def)

lemma first_download_sound:
  assumes "wf_context ctx" "consistent (layout_of ctx)"
  shows "sound_download ctx (first_download env ctx h fds)" "abs_download ctx (first_download env ctx h fds) = start"
  using sound_first [OF assms, of "first_download env ctx h fds" "map (env_uninitialised env) [0..<unat (first_piece_size ctx)]"]
  by (simp_all add: first_download_def Let_def)

lemma first_download_guarded: "dc_piece_count ctx \<noteq> 0 \<Longrightarrow> guarded_download ctx (first_download env ctx h fds)"
  using guarded_first [of "first_download env ctx h fds" ctx "map (env_uninitialised env) [0..<unat (first_piece_size ctx)]"]
  by (simp add: first_download_def Let_def)

text \<open>With usable metadata only the number of pieces, the file and the memory can stop the stage.\<close>

lemma main_download_run:
  assumes m: "usable m" and tries: "peers_to_try env peers = Some tries" and mem: "malloc h = (g, h1)"
    and ctx: "ctx = context_of env (tm_info m) ih pid"
  shows "main_download env (tm_info m) ih pid peers release h r =
    (if dc_piece_count ctx = 0 \<or> \<not> env_create env (c_string (file_name (abs_torrent m))) then exits 1 None (release h) r
     else if \<not> g then exits 1 (Some (snd (env_close env []))) (release h1) r
     else do {
       d \<leftarrow> peers_loop ctx tries (first_download env ctx h1 (rs_fds r));
       finish_download env d release (r\<lparr>rs_files := rs_files r + 1, rs_fds := dl_fds d\<rparr>)
     })"
proof -
  have "\<not> ti_piece_length (tm_info m) \<le>s 0" "\<not> ti_length (tm_info m) <s 0"
    using m by (simp_all add: usable_def word_sle_eq word_sless_alt)
  moreover have "read_bytes (seg_data (ti_name (tm_info m))) (unat (seg_length (ti_name (tm_info m)))) =
      Some (file_name (abs_torrent m))"
    using m read_segment by (simp add: usable_def readable_metadata_def abs_torrent_def)
  ultimately show ?thesis
    by (simp add: main_download_def Let_def tries mem ctx fclose_eq)
qed

lemma main_download_stage:
  assumes doc: "sha1_documented (env_sha1 env)" "\<forall>i. fresh_socket (env_network env i) (rs_fds r)"
    and m: "usable m" "torrent_fits (abs_torrent m)" and ids: "length ih = 20" "length pid = 20"
    and peers: "unat (pa_count peers) \<le> length (known_peers peers)"
    and release: "\<And>h. live (release h) = live h - k"
  shows "stage env (abs_torrent m) k h r (main_download env (tm_info m) ih pid peers release h r)"
proof -
  let ?ctx = "context_of env (tm_info m) ih pid"
  define tries where "tries = map (\<lambda>i. (known_peers peers ! i, env_network env i)) [0..<unat (pa_count peers)]"
  have tries: "peers_to_try env peers = Some tries"
    using peers by (simp add: peers_to_try_def known_peers_def Let_def tries_def)
  obtain g h1 where mem: "malloc h = (g, h1)" by fastforce
  note run = main_download_run [OF m(1) tries mem refl, of ih pid release r]
  show ?thesis
  proof (cases "dc_piece_count ?ctx = 0 \<or> \<not> env_create env (c_string (file_name (abs_torrent m))) \<or> \<not> g")
    case True
    then show ?thesis
      using release live_malloc [OF mem] by (auto simp: run stage_def exits_def ends_well_def)
  next
    case False
    have "unat (dc_piece_count ?ctx) \<noteq> 0" using False by (simp add: unat_eq_zero)
    then have many: "20 \<le> length (piece_hashes (abs_torrent m))"
      using context_count [OF m(1)] by (simp add: div_eq_0_iff)
    have wf: "wf_context ?ctx" by (rule context_ok [OF m(1) ids doc(1)])
    let ?d = "first_download env ?ctx h1 (rs_fds r)"
    have fresh: "\<forall>(p, net) \<in> set tries. fresh_socket net (dl_fds ?d)" using doc(2) by (auto simp: tries_def)
    have "guarded_download ?ctx ?d" using False by (intro first_download_guarded) simp
    then obtain d where d: "peers_loop ?ctx tries ?d = Some d" "gave_back ?ctx ?d d"
      using peers_loop_safe [OF wf context_fits [OF m] _ fresh] by blast
    have left: "dl_fds d = rs_fds r" "live (dl_heap d) = live h1" "ds_piece_buffer (dl_piece d) \<noteq> None"
      using d(2) by (auto simp: gave_back_def guarded_download_def guarded_def)
    have "file_matches (torrent_layout (env_sha1 env) (abs_torrent m)) (dk_contents (dl_disk d))"
      if "torrent_consistent (abs_torrent m)" "dl_complete d"
    proof -
      note layout = context_consistent [OF m(1) that(1) many]
      show ?thesis
        using peers_loop_verified [OF wf layout(2) first_download_sound [OF wf layout(2)] fresh d(1)] that(2)
        by (simp add: layout(1))
    qed
    then show ?thesis
      using left live_malloc [OF mem] False release d(1)
      by (auto simp: run stage_def finish_download_def exits_def fclose_eq ends_well_def live_free
          intro!: exI [of _ "dk_contents (dl_disk d)"])
  qed
qed

section \<open>The tracker stage\<close>

lemma unat_of_nat_le: "unat (of_nat n :: size_t) \<le> n"
  by (simp add: unat_of_nat)

lemma extract_peers_run:
  assumes y: "faithful inp y" "obj_type y \<in> {BYTE_STRING, LIST}" and inp: "length inp < 2 ^ 64"
  shows "\<exists>ok out h'. extract_peers inet_pton y h = Some (ok, Some out, h') \<and>
    (if ok then live h' = live h + (if pa_peers out = None then 0 else 1) \<and>
       unat (pa_count out) \<le> length (known_peers out)
     else live h' = live h)"
proof -
  obtain g h1 where mem: "malloc h = (g, h1)" by fastforce
  show ?thesis
  proof (cases "obj_value y")
    case (Byte_String s)
    then have s: "valid_segment s" using y by (cases y) (auto simp: valid_segment_def)
    show ?thesis
    proof (cases "6 dvd unat (seg_length s)")
      case True
      then show ?thesis
        using Byte_String peers_extract_compact_run [OF s, of no_peers h] mem
        by (auto simp: extract_peers_def known_peers_def Let_def live_malloc unat_of_nat_le length_chunks)
    next
      case False
      then show ?thesis
        using Byte_String peers_extract_compact_refused by (auto simp: extract_peers_def)
    qed
  next
    case (List_Value items capacity)
    note items = faithful_list [OF y(1) List_Value]
    then have "length items < 2 ^ 64" using inp by simp
    then show ?thesis
      using List_Value peers_extract_list_run [OF items(1), of inet_pton no_peers h] mem
      by (auto simp: extract_peers_def known_peers_def Let_def live_malloc unat_of_nat_le)
  qed (use y in \<open>auto simp: obj_type_def\<close>)
qed

definition held :: "byte_buffer \<Rightarrow> int" where
  "held buffer = (if bb_data buffer = None then 0 else 1)"

lemma live_release_torrent: "live (release_torrent obj buffer h) = live h - owned obj - held buffer"
  by (simp add: release_torrent_def free_buffer_def held_def heap_simps)

lemma live_release_response:
  "live (release_response response_obj response obj buffer h) =
     live h - owned response_obj - blocks response - owned obj - held buffer"
  by (simp add: release_response_def live_release_torrent blocks_def heap_simps)

lemma live_release_peers:
  "live (release_peers peers response_obj response obj buffer h) =
     live h - (if pa_peers peers = None then 0 else 1) - owned response_obj - blocks response - owned obj - held buffer"
  by (simp add: release_peers_def live_release_response heap_simps)

lemma main_peers_stage:
  assumes doc: "sha1_documented (env_sha1 env)" "\<forall>i. fresh_socket (env_network env i) (rs_fds r)"
    and m: "usable m" "torrent_fits (abs_torrent m)" and ids: "length ih = 20" "length pid = 20"
    and y: "faithful inp y" "obj_type y \<in> {BYTE_STRING, LIST}" "length inp < 2 ^ 64"
  shows "stage env (abs_torrent m) (owned x + owned obj + held buffer + blocks response) h r
    (main_peers env (tm_info m) ih pid obj buffer response x y h r)"
proof -
  obtain ok out h1 where ran: "extract_peers (env_inet_pton env) y h = Some (ok, Some out, h1)"
    and out: "if ok then live h1 = live h + (if pa_peers out = None then 0 else 1) \<and>
        unat (pa_count out) \<le> length (known_peers out)
      else live h1 = live h"
    using extract_peers_run [OF y, of "env_inet_pton env" h] by blast
  note code = main_peers_def ran Let_def
  show ?thesis
  proof (cases "ok \<and> pa_count out \<noteq> 0")
    case False
    then show ?thesis
      using out by (auto simp: code stage_fails live_release_response live_release_peers)
  next
    case True
    let ?k = "(if pa_peers out = None then 0 else 1) + owned x + blocks response + owned obj + held buffer"
    have "stage env (abs_torrent m) ?k h1 r
        (main_download env (tm_info m) ih pid out (release_peers out x response obj buffer) h1 r)"
      using out True by (intro main_download_stage [OF doc m ids]) (simp_all add: live_release_peers)
    then have "stage env (abs_torrent m) (owned x + owned obj + held buffer + blocks response) h r
        (main_download env (tm_info m) ih pid out (release_peers out x response obj buffer) h1 r)"
      by (rule stage_moves) (use out True in simp)
    then show ?thesis using True by (simp add: code)
  qed
qed

lemma main_tracker_stage:
  assumes doc: "sha1_documented (env_sha1 env)" "\<forall>i. fresh_socket (env_network env i) (rs_fds r)"
    and m: "usable m" "torrent_fits (abs_torrent m)" and ids: "length ih = 20" "length pid = 20"
    and response: "consistent_response response"
  shows "stage env (abs_torrent m) (owned obj + held buffer + blocks response) h r
    (main_tracker env (tm_info m) ih pid obj buffer response h r)"
proof -
  obtain ok x h1 where parse: "tracker_response_parse (Some response) (Some blank_object) h = Some (ok, Some x, h1)"
    and x: "if ok then \<exists>es. abs_object x = BDict es \<and> bencodes (BDict es) (response_bytes response) \<and>
        faithful (response_bytes response) x \<and> live h1 = live h + owned x
      else x = blank_object \<and> live h1 = live h"
    using response_parse_run [OF response, of blank_object h] by blast
  have len: "length (response_bytes response) < 2 ^ 64"
    using response unat_size_lt [of "rb_length response"] by (simp add: consistent_response_def)
  note code = main_tracker_def parse Let_def
  show ?thesis
  proof (cases ok)
    case False
    then show ?thesis
      using x by (simp add: code stage_fails live_release_torrent blocks_def heap_simps)
  next
    case True
    then have f: "faithful (response_bytes response) x" and h1: "live h1 = live h + owned x" using x by auto
    obtain found i where interval: "find_interval (Some x) (Some 0) = Some (found, i)"
      using find_interval_eq [OF f, of 0] by (auto split: option.splits)
    show ?thesis
    proof (cases "\<not> found \<or> find_peers (Some x) (Some None) = Some (False, Some None)")
      case True
      then show ?thesis using \<open>ok\<close> interval h1 by (auto simp: code stage_fails live_release_response)
    next
      case False
      then obtain y where peers: "find_peers (Some x) (Some None) = Some (True, Some (Some y))"
        and y: "faithful (response_bytes response) y" "obj_type y \<in> {BYTE_STRING, LIST}"
        using find_peers_spec [OF f, of None] by blast
      have "stage env (abs_torrent m) (owned obj + held buffer + blocks response) h r
          (main_peers env (tm_info m) ih pid obj buffer response x y h1 r)"
        by (rule stage_moves [OF main_peers_stage [OF doc m ids y len]]) (use h1 in simp)
      then show ?thesis using \<open>ok\<close> interval False peers by (simp add: code)
    qed
  qed
qed

section \<open>The torrent stage\<close>

lemma info_span_in_range:
  assumes bounds: "info_in_bounds bs m" and len: "length bs < 2 ^ 63"
  shows "\<not> span_start (ti_info_span (tm_info m)) > of_nat (length bs)"
    "\<not> span_length (ti_info_span (tm_info m)) > of_nat (length bs) - span_start (ti_info_span (tm_info m))"
    "unat (span_start (ti_info_span (tm_info m))) \<le> length bs"
    "read_bytes (Ptr bs (unat (span_start (ti_info_span (tm_info m))))) (unat (span_length (ti_info_span (tm_info m)))) =
       Some (info_bytes bs m)"
proof -
  let ?s = "span_start (ti_info_span (tm_info m))" and ?n = "span_length (ti_info_span (tm_info m))"
  have size: "unat (of_nat (length bs) :: size_t) = length bs" using len by (simp add: unat_of_nat_size)
  have sum: "unat ?s + unat ?n \<le> length bs" using bounds by (simp add: info_in_bounds_def)
  then have start: "?s \<le> of_nat (length bs)" using size by (simp add: word_le_nat_alt)
  then show "\<not> ?s > of_nat (length bs)" by simp
  have "unat (of_nat (length bs) - ?s) = length bs - unat ?s" using start size by (simp add: unat_sub)
  then show "\<not> ?n > of_nat (length bs) - ?s" using sum by (simp add: word_less_nat_alt)
  show "unat ?s \<le> length bs" using sum by simp
  show "read_bytes (Ptr bs (unat ?s)) (unat ?n) = Some (info_bytes bs m)"
    using sum by (simp add: info_bytes_def)
qed

definition torrent_buffer :: "byte list \<Rightarrow> byte_buffer" where
  "torrent_buffer bs = \<lparr>bb_data = Some bs, bb_length = of_nat (length bs)\<rparr>"

lemma main_announce_stage:
  assumes doc: "sha1_documented (env_sha1 env)" "\<forall>i. fresh_socket (env_network env i) (rs_fds r)"
      "escape_documented (env_curl env)" "perform_documented (env_curl env)"
    and m: "usable m" "torrent_fits (abs_torrent m)" and ids: "length ih = 20" "length pid = 20"
  shows "stage env (abs_torrent m) (owned obj + held buffer) h r (main_announce env m ih pid obj buffer h r)"
proof -
  let ?q = "announce_request (tm_info m) ih pid"
  have "valid_segment (tm_announce m)" "wf_request ?q"
    using m(1) ids by (simp_all add: usable_def readable_metadata_def wf_request_def announce_request_def)
  then obtain ok out h1 where announce: "tracker_announce (env_curl env) (Some (tm_announce m)) (Some ?q)
      (Some \<lparr>rb_data = None, rb_length = 0\<rparr>) h = Some (ok, Some out, h1)"
    and out: "ok \<Longrightarrow> consistent_response out" "ok \<Longrightarrow> live h1 = live h + blocks out" "\<not> ok \<Longrightarrow> live h1 = live h"
    using announce_run [of "tm_announce m" "env_curl env" ?q "\<lparr>rb_data = None, rb_length = 0\<rparr>" h] doc(3,4)
    by (metis (no_types, lifting))
  show ?thesis
  proof (cases ok)
    case False
    then show ?thesis using out(3) by (simp add: main_announce_def announce stage_fails live_release_torrent)
  next
    case True
    have "stage env (abs_torrent m) (owned obj + held buffer) h r (main_tracker env (tm_info m) ih pid obj buffer out h1 r)"
      by (rule stage_moves [OF main_tracker_stage [OF doc(1,2) m ids out(1) [OF True]]]) (use out(2) True in simp)
    then show ?thesis using True by (simp add: main_announce_def announce)
  qed
qed

lemma main_torrent_stage:
  assumes doc: "sha1_documented (env_sha1 env)" "\<forall>i. fresh_socket (env_network env i) (rs_fds r)"
      "sha1_documented (evp_sha1 (env_evp env))" "rand_documented (env_random env)"
      "escape_documented (env_curl env)" "perform_documented (env_curl env)"
    and obj: "faithful bs obj" "length bs < 2 ^ 63"
    and cons: "\<And>t. torrent_of (abs_object obj) = Some t \<Longrightarrow> torrent_fits t"
  shows "main_torrent env (torrent_buffer bs) obj h r = exits 1 None (release_torrent obj (torrent_buffer bs) h) r \<or>
    (\<exists>t. torrent_of (abs_object obj) = Some t \<and>
      stage env t (owned obj + 1) h r (main_torrent env (torrent_buffer bs) obj h r))"
  using extract_spec [OF obj(1), of blank_metadata]
proof (elim disjE exE conjE)
  assume "torrent_metadata_extract (Some obj) (Some blank_metadata) = Some (False, Some blank_metadata)"
  then show ?thesis by (simp add: main_torrent_def)
next
  fix m info
  assume m: "torrent_metadata_extract (Some obj) (Some blank_metadata) = Some (True, Some m)"
    "torrent_of (abs_object obj) = Some (abs_torrent m)" "info_in_bounds bs m" "readable_metadata m"
  have usable: "usable m" using extracted_bounds [OF obj(1) m(1)] by (simp add: usable_def)
  note span = info_span_in_range [OF m(3) obj(2)]
  obtain computed ih where hash: "compute_info_hash (env_evp env)
      (Ptr bs (unat (span_start (ti_info_span (tm_info m))))) (span_length (ti_info_span (tm_info m)))
      (Some (replicate 20 0)) (rs_contexts r) = Some (computed, Some ih, rs_contexts r)"
    and ih: "if computed then ih = evp_sha1 (env_evp env) (info_bytes bs m) else ih = replicate 20 0"
    using info_hash_run [OF doc(3) span(4)] by blast
  obtain generated pid where pid: "generate_peer_id (env_random env) (Some (replicate 20 0)) = Some (generated, Some pid)"
    and lengths: "length ih = 20" "length pid = 20"
    using peer_id_run [OF doc(4), of "replicate 20 0"] doc(3,4) ih length_peer_id_prefix
    by (auto simp: sha1_documented_def rand_documented_def split: if_splits)
  let ?b = "torrent_buffer bs"
  have held: "held ?b = 1" by (simp add: held_def torrent_buffer_def)
  note code = main_torrent_def m(1) Let_def torrent_buffer_def span hash pid
  have "stage env (abs_torrent m) (owned obj + 1) h r (main_torrent env ?b obj h r)"
  proof (cases "computed \<and> generated")
    case False
    have "stage env (abs_torrent m) (owned obj + 1) h r (exits 1 None (release_torrent obj ?b h) r)"
      using held by (simp add: stage_fails live_release_torrent)
    then show ?thesis using False by (auto simp: code)
  next
    case True
    then show ?thesis
      using main_announce_stage [OF doc(1,2,5,6) usable cons [OF m(2)] lengths, of obj ?b h] held by (simp add: code)
  qed
  then show ?thesis using m(2) by blast
qed

section \<open>The whole program\<close>

text \<open>A run that stops before there is a torrent.\<close>

definition refused :: "resources \<Rightarrow> outcome option \<Rightarrow> bool" where
  "refused r res \<longleftrightarrow> (\<exists>h. res = exits 1 None h r \<and> live h = live (rs_heap r))"

lemma refusedI: "live h = live (rs_heap r) \<Longrightarrow> refused r (exits 1 None h r)"
  by (auto simp: refused_def)

lemma live_free_empty: "live (snd (free_buffer (Some empty_buffer) h)) = live h"
  by (simp add: free_buffer_def empty_buffer_def heap_simps)

text \<open>From the bytes of the file on, with their block to give back.\<close>

lemma parse_file:
  assumes "length bs < 2 ^ 63"
  obtains p where "bencode_parser_init (response_ptr (Some bs)) (of_nat (length bs)) = Some p"
    "wf_parser p" "remaining p = bs" "input p = bs"
proof -
  let ?rb = "\<lparr>rb_data = Some bs, rb_length = of_nat (length bs)\<rparr>"
  have "consistent_response ?rb" using assms by (simp add: consistent_response_def response_bytes_def unat_of_nat_size)
  then show thesis using response_parser [of ?rb] that by (auto simp: response_bytes_def)
qed

lemma main_parse_stage:
  assumes doc: "documented env r" and len: "length bs < 2 ^ 63"
    and cons: "\<And>t. torrent_in bs t \<Longrightarrow> torrent_fits t" and h: "live h = live (rs_heap r) + 1"
  shows "refused r (main_parse env (torrent_buffer bs) h r) \<or>
    (\<exists>t. torrent_in bs t \<and> stage env t 0 (rs_heap r) r (main_parse env (torrent_buffer bs) h r))"
proof -
  let ?b = "torrent_buffer bs"
  obtain p where p: "bencode_parser_init (response_ptr (Some bs)) (of_nat (length bs)) = Some p"
    "wf_parser p" "remaining p = bs" "input p = bs"
    using parse_file [OF len] .
  obtain res q h1 where parse: "parse_bencode_buffer p h = Some (res, q, h1)" using parse_defined [OF p(2)] by blast
  note code = main_parse_def torrent_buffer_def p(1) parse
  show ?thesis
  proof (cases res)
    case None
    then show ?thesis
      using h buffer.restore [OF p(2), of h q h1] parse
      by (simp add: code free_buffer_def heap_simps refusedI)
  next
    case (Some obj)
    obtain n where n: "bencodes (abs_object obj) (take n bs)" and h1: "live h1 = live h + owned obj"
      and f: "faithful bs obj"
      using buffer.result [OF p(2), of h obj q h1] parse Some p by auto
    have found: "torrent_in bs t" if "torrent_of (abs_object obj) = Some t" for t
      using that n by (auto simp: torrent_in_def)
    have run: "main_parse env ?b h r = main_torrent env ?b obj h1 r" using Some by (simp add: code)
    have freed: "live h1 - (owned obj + 1) = live (rs_heap r) - 0" using h1 h by simp
    then have "refused r (exits 1 None (release_torrent obj ?b h1) r)"
      by (intro refusedI) (simp add: live_release_torrent held_def torrent_buffer_def)
    moreover from doc have "main_torrent env ?b obj h1 r = exits 1 None (release_torrent obj ?b h1) r \<or>
        (\<exists>t. torrent_of (abs_object obj) = Some t \<and> stage env t (owned obj + 1) h1 r (main_torrent env ?b obj h1 r))"
      unfolding documented_def by (intro main_torrent_stage [OF _ _ _ _ _ _ f len cons [OF found]]) simp_all
    ultimately show ?thesis unfolding run using found stage_moves [OF _ freed] by metis
  qed
qed

lemma main_program_stage:
  assumes doc: "documented env r"
    and cons: "\<And>t. torrent_in (torrent_file env) t \<Longrightarrow> torrent_fits t"
  shows "refused r (main_program env r) \<or>
    (\<exists>t. torrent_in (torrent_file env) t \<and> stage env t 0 (rs_heap r) r (main_program env r))"
proof (cases "env_argc env = 2")
  case False
  then show ?thesis by (simp add: main_program_def cli_arguments_valid_def refusedI)
next
  case two: True
  let ?bs = "torrent_file env"
  define path where "path = env_argv env ! 1"
  have argv: "cli_arguments_valid (env_argc env) (env_argv env) (Some None) = Some (True, Some (Some path))"
    using doc two by (simp add: cli_arguments_valid_def documented_def path_def)
  have bs: "?bs = if_contents (env_open env path)" by (simp add: torrent_file_def path_def)
  have regular: "regular_file (env_open env path)" using doc by (simp add: documented_def)
  then have len: "length ?bs < 2 ^ 63" by (simp add: regular_file_def bs)
  obtain ok b h1 where read: "read_byte_buffer_from_file (env_open env) (Some path) (Some empty_buffer)
      (rs_heap r) (rs_files r) = Some (ok, Some b, h1, rs_files r)"
    and b: "if ok then b = torrent_buffer ?bs \<and> live h1 = live (rs_heap r) + 1
      else b = empty_buffer \<and> live h1 = live (rs_heap r)"
    using read_file_run [where fopen = "env_open env", OF regular, of empty_buffer "rs_heap r" "rs_files r"]
    unfolding bs torrent_buffer_def by (auto split: if_splits)
  show ?thesis
    using b main_parse_stage [OF doc len cons, of h1]
    by (cases ok) (simp_all add: main_program_def argv read Let_def live_free_empty refusedI)
qed

text \<open>A file says one thing at most: a torrent is found in it at most once.\<close>

lemma torrent_in_unique:
  assumes "length bs < 2 ^ 57" "torrent_in bs t" "torrent_in bs u"
  shows "t = u"
proof -
  have p: "wf_parser (parser_on bs)" "remaining (parser_on bs) = bs" "input (parser_on bs) = bs"
    using parser_on_wf [of bs] assms(1) by auto
  have parse: "\<exists>q h. parse_bencode_buffer (parser_on bs) fresh_heap = Some (Some x, q, h) \<and> abs_object x = v"
    if "bencodes v (take n bs)" "parse_bencode_buffer (parser_on bs) fresh_heap = Some (Some x, q', h')" for v n x q' h'
    using parse_bencode_buffer_complete [OF p(1) _ plentiful_fresh that(1), of "drop n bs"] p assms(1) that(2) by auto
  obtain v m w n where v: "bencodes v (take m bs)" "torrent_of v = Some t"
    and w: "bencodes w (take n bs)" "torrent_of w = Some u"
    using assms(2,3) by (auto simp: torrent_in_def)
  obtain x q h where x: "parse_bencode_buffer (parser_on bs) fresh_heap = Some (Some x, q, h)"
    using parse_bencode_buffer_complete [OF p(1) _ plentiful_fresh v(1), of "drop m bs"] p assms(1) by auto
  have "v = w" using parse [OF v(1) x] parse [OF w(1) x] by auto
  then show ?thesis using v w by simp
qed

section \<open>A sample run\<close>

text \<open>
  The torrent of a file of three bytes in two pieces, a tracker that knows one peer, and a peer
  that has the file.
\<close>

definition sample_value :: bvalue where
  "sample_value = BDict
     [(bytes_of ''announce'', BString (bytes_of ''url'')),
      (bytes_of ''info'', BDict
         [(bytes_of ''length'', BInt 3), (bytes_of ''name'', BString (bytes_of ''f'')),
          (bytes_of ''piece length'', BInt 2), (bytes_of ''pieces'', BString (pad_hash [1, 2] @ pad_hash [3]))])]"

definition sample_torrent_of :: torrent where
  "sample_torrent_of =
     \<lparr>announce_url = bytes_of ''url'', file_name = bytes_of ''f'', file_length = 3, piece_size = 2,
      piece_hashes = pad_hash [1, 2] @ pad_hash [3]\<rparr>"

definition sample_answer :: "byte list" where
  "sample_answer = bytes_of ''d8:intervali900e5:peers6:'' @ [127, 0, 0, 1, 26, 225] @ bytes_of ''e''"

definition sample_env :: environment where
  "sample_env =
     \<lparr>env_argc = 2, env_argv = [bytes_of ''loco'', bytes_of ''f.torrent''],
      env_open = (\<lambda>path. \<lparr>if_opens = True, if_contents = encode sample_value, if_seek_end = True, if_tell = True,
        if_seek_set = True, if_read_limit = None\<rparr>),
      env_evp = sample_evp\<lparr>evp_sha1 := (\<lambda>bs. replicate 20 7)\<rparr>, env_random = sample_random,
      env_curl = sample_curl\<lparr>easy_perform := (\<lambda>url. ([sample_answer], True))\<rparr>,
      env_inet_pton = (\<lambda>s. None), env_create = (\<lambda>path. True), env_seeks = [], env_writes = [],
      env_close = (\<lambda>f. (0, f)), env_uninitialised = (\<lambda>i. 170), env_network = (\<lambda>i. sample_network), env_sha1 = pad_hash\<rparr>"

definition sample_resources :: resources where
  "sample_resources = \<lparr>rs_heap = fresh_heap, rs_files = 0, rs_contexts = 0, rs_fds = {}\<rparr>"

lemma sample_torrent_bytes: "encode sample_value \<noteq> []" "length (encode sample_value) = 114"
  by code_simp+

lemma sample_documented: "documented sample_env sample_resources"
  unfolding documented_def
proof (intro conjI allI impI)
  show "regular_file (env_open sample_env path)" for path
    by (simp add: regular_file_def sample_env_def sample_torrent_bytes)
  show "escape_documented (env_curl sample_env)"
    using sample_escape by (simp add: escape_documented_def sample_env_def)
  show "perform_documented (env_curl sample_env)"
    by (simp add: perform_documented_def sample_env_def sample_answer_def bytes_of_def)
qed (simp_all add: sample_env_def sha1_documented_def sample_rand fresh_socket_def sample_resources_def)

lemma sample_in: "torrent_in (torrent_file sample_env) sample_torrent_of"
proof -
  have "wf_value sample_value" by (simp add: sample_value_def bytes_of_def chr_def)
  then have "bencodes sample_value (take 114 (encode sample_value))"
    using encode_bencodes(1) sample_torrent_bytes(2) by simp
  moreover have "torrent_of sample_value = Some sample_torrent_of" by code_simp
  moreover have "torrent_file sample_env = encode sample_value" by (simp add: torrent_file_def sample_env_def)
  ultimately show ?thesis by (auto simp: torrent_in_def)
qed

lemma sample_consistent: "\<forall>t. torrent_in (torrent_file sample_env) t \<longrightarrow> torrent_consistent t"
proof (intro allI impI)
  fix t
  assume "torrent_in (torrent_file sample_env) t"
  then have "t = sample_torrent_of"
    using sample_in by (intro torrent_in_unique [of "torrent_file sample_env"])
      (simp_all add: torrent_file_def sample_env_def sample_torrent_bytes)
  then show "torrent_consistent t"
    by (simp add: torrent_consistent_def sample_torrent_of_def torrent_layout_def consistent_def piece_start_def)
qed

section \<open>Properties\<close>

text \<open>
  C20: a file that holds no torrent, because it cannot be parsed or a field is missing or out of
  range, is refused with exit code 1, and no output file is created.
\<close>

theorem program_refuses:
  assumes "documented env r" and "\<nexists>t. torrent_in (torrent_file env) t"
  shows "\<exists>oc. main_program env r = Some oc \<and> oc_exit oc = 1 \<and> oc_file oc = None \<and> gives_back r oc"
  using main_program_stage [OF assms(1)] assms(2) by (auto simp: refused_def exits_def gives_back_def)

theorem program_refuses_witness:
  "\<exists>oc. main_program (sample_env\<lparr>env_open := (\<lambda>path. sample_file)\<rparr>) sample_resources = Some oc \<and>
     oc_exit oc = 1 \<and> oc_file oc = None"
proof -
  let ?env = "sample_env\<lparr>env_open := (\<lambda>path. sample_file)\<rparr>"
  have "documented ?env sample_resources"
    using sample_documented by (simp add: documented_def sample_env_def regular_file_def sample_file_def)
  moreover have "\<not> torrent_in (torrent_file ?env) t" for t
  proof
    assume "torrent_in (torrent_file ?env) t"
    then obtain v n where "bencodes v (take n [1, 2, 3])"
      by (auto simp: torrent_in_def torrent_file_def sample_file_def)
    then obtain x q h where
      "parse_bencode_buffer (parser_on [1, 2, 3]) fresh_heap = Some (Some x, q, h)"
      using parse_bencode_buffer_complete [of "parser_on [1, 2, 3]" fresh_heap v "take n [1, 2, 3]" "drop n [1, 2, 3]"]
        parser_on_wf [of "[1, 2, 3]"] by auto
    moreover have "map_option fst (parse_bencode_buffer (parser_on [1, 2, 3]) fresh_heap) = Some None" by code_simp
    ultimately show False by simp
  qed
  ultimately show ?thesis using program_refuses by blast
qed

end
