(* ===== verification/Download_Live.thy ===== *)
theory Download_Live
  imports Download_Correct
begin

text \<open>
  The download succeeds with a peer that has the file: one that answers the handshake, says it
  has all pieces, unchokes, and sends the blocks in order, however its bytes are fragmented.
  The last section is about a peer that does not answer: the request is not repeated.
\<close>

section \<open>What such a peer sends\<close>

text \<open>The blocks of the rest of a piece from an offset on; an empty rest takes one empty block.\<close>

function block_frames :: "nat \<Rightarrow> nat \<Rightarrow> byte list \<Rightarrow> frame list" where
  "block_frames i r bs =
     piece_frame (of_nat i) (of_nat r) (take block_limit bs) #
     (if length bs \<le> block_limit then [] else block_frames i (r + block_limit) (drop block_limit bs))"
  by pat_completeness auto
termination by (relation "measure (\<lambda>(i, r, bs). length bs)") (auto simp: block_limit_def)

declare block_frames.simps [simp del]

fun seed_frames :: "nat \<Rightarrow> byte list list \<Rightarrow> frame list" where
  "seed_frames i [] = []"
| "seed_frames i (p # ps) = block_frames i 0 p @ seed_frames (Suc i) ps"

text \<open>The pieces of the file, and a torrent whose indices and offsets fit the protocol's 32 bits.\<close>

definition seeded :: "layout \<Rightarrow> byte list list \<Rightarrow> bool" where
  "seeded l ps \<longleftrightarrow>
     length ps = ly_count l \<and>
     (\<forall>i < ly_count l. length (ps ! i) = size_at l i \<and> ly_sha1 l (ps ! i) = ly_hash l i)"

definition addressable :: "layout \<Rightarrow> bool" where
  "addressable l \<longleftrightarrow> ly_count l \<le> 2 ^ 32 \<and> (\<forall>i < ly_count l. size_at l i \<le> 2 ^ 32)"

section \<open>A session that is being served\<close>

definition serving :: "download_context \<Rightarrow> int \<Rightarrow> byte list list \<Rightarrow> session \<Rightarrow> bool" where
  "serving ctx base ps s \<longleftrightarrow>
     sound ctx base s \<and> \<not> ss_complete s \<and> (\<forall>j < unat (dc_piece_count ctx). peer_has (ss_conn s) j) \<and>
     \<not> pc_peer_choking_us (ss_conn s) \<and> healthy (ss_disk s) \<and> plentiful (ss_heap s) \<and>
     sends_ready (sk_tx (ss_socket s)) \<and>
     ft_pieces (abs_session ctx s) = take (unat (ds_piece_index (ss_piece s))) ps \<and>
     ft_got (abs_session ctx s) =
       take (unat (ds_bytes_received (ss_piece s))) (ps ! unat (ds_piece_index (ss_piece s)))"

text \<open>The next block of the current piece has been asked for.\<close>

definition waiting :: "download_context \<Rightarrow> int \<Rightarrow> byte list list \<Rightarrow> session \<Rightarrow> bool" where
  "waiting ctx base ps s \<longleftrightarrow>
     serving ctx base ps s \<and> ds_request_pending (ss_piece s) \<and>
     (unat (ds_bytes_received (ss_piece s)) < unat (ds_piece_size (ss_piece s)) \<or> ds_bytes_received (ss_piece s) = 0) \<and>
     ds_requested_length (ss_piece s) = of_nat (request_length (ss_piece s))"

lemma peer_has_flags [simp]:
  "peer_has (c\<lparr>pc_we_are_interested := b\<rparr>) j = peer_has c j"
  "peer_has (c\<lparr>pc_peer_choking_us := b\<rparr>) j = peer_has c j"
  by (simp_all add: peer_has_def)

lemma abs_fetch_size [simp]: "abs_fetch ctx (st\<lparr>ds_piece_size := n\<rparr>) d = abs_fetch ctx st d"
  by (simp add: abs_fetch_def)

lemma sends_ready_run:
  "sends bs sock r \<Longrightarrow> sends_ready (sk_tx sock) \<Longrightarrow>
   \<exists>sock'. r = Some (True, sock') \<and> sk_rx sock' = sk_rx sock \<and> sends_ready (sk_tx sock')"
  by (auto simp: sends_def)

lemma serving_index: "serving ctx base ps s \<Longrightarrow> unat (ds_piece_index (ss_piece s)) < unat (dc_piece_count ctx)"
  by (auto simp: serving_def sound_def holding_def le_less)

lemma sound_bounds:
  assumes "sound ctx base s" "\<not> ss_complete s"
  shows "unat (ds_piece_index (ss_piece s)) < unat (dc_piece_count ctx)"
    and "unat (ds_bytes_received (ss_piece s)) \<le> unat (ds_piece_size (ss_piece s))"
    and "unat (ds_piece_size (ss_piece s)) = size_at (layout_of ctx) (unat (ds_piece_index (ss_piece s)))"
  using assms by (auto simp: sound_def holding_def le_less)

lemma request_sent:
  assumes ctx: "addressable (layout_of ctx)" and fd: "0 \<le> fd" and s: "sound ctx base s" "\<not> ss_complete s"
    and open_peer: "pc_we_are_interested (ss_conn s)" "\<not> pc_peer_choking_us (ss_conn s)" "sends_ready (sk_tx (ss_socket s))"
    and none: "\<not> ds_request_pending (ss_piece s)"
    and r: "unat (ds_bytes_received (ss_piece s)) < unat (ds_piece_size (ss_piece s)) \<or> ds_bytes_received (ss_piece s) = 0"
  shows "\<exists>sock. send_next_request fd s = Some (Go (s\<lparr>ss_socket := sock, ss_piece := requested (ss_piece s)\<rparr>)) \<and>
    sk_rx sock = sk_rx (ss_socket s) \<and> sends_ready (sk_tx sock)"
proof -
  let ?st = "ss_piece s"
  note bounds = sound_bounds [OF s]
  have "unat (ds_piece_size ?st) \<le> 2 ^ 32" "unat (dc_piece_count ctx) \<le> 2 ^ 32"
    using bounds(1,3) ctx by (simp_all add: addressable_def)
  then have small: "\<not> ds_piece_index ?st > UINT32_MAX" "\<not> ds_bytes_received ?st > UINT32_MAX"
    using bounds(1) r by (auto simp: word_less_nat_alt)
  obtain sock where "peer_send_request fd (ucast (ds_piece_index ?st)) (ucast (ds_bytes_received ?st))
      (ucast (of_nat (request_length ?st) :: size_t)) (ss_socket s) = Some (True, sock)"
    "sk_rx sock = sk_rx (ss_socket s)" "sends_ready (sk_tx sock)"
    using sends_ready_run [OF peer_send_request_sends [OF fd] open_peer(3)] by blast
  then show ?thesis
    using small none open_peer unfolding send_next_request_eq [OF bounds(2), of fd]
    by (intro exI [of _ sock] conjI) simp_all
qed

lemma request_goes:
  assumes ctx: "wf_context ctx" "consistent (layout_of ctx)" "addressable (layout_of ctx)" and fd: "0 \<le> fd"
    and s: "serving ctx base ps s" and none: "\<not> ds_request_pending (ss_piece s)"
    and r: "unat (ds_bytes_received (ss_piece s)) < unat (ds_piece_size (ss_piece s)) \<or> ds_bytes_received (ss_piece s) = 0"
  shows "\<exists>s'. request_block ctx fd s = Some (Go s') \<and> waiting ctx base ps s' \<and>
    ds_piece_index (ss_piece s') = ds_piece_index (ss_piece s) \<and>
    ds_bytes_received (ss_piece s') = ds_bytes_received (ss_piece s) \<and>
    sk_rx (ss_socket s') = sk_rx (ss_socket s)"
proof -
  let ?c = "(ss_conn s)\<lparr>pc_we_are_interested := True\<rparr>"
  have sound: "sound ctx base s" and more: "\<not> ss_complete s" and ready: "sends_ready (sk_tx (ss_socket s))"
    using s by (simp_all add: serving_def)
  obtain bytes where bytes: "pc_bitfield (ss_conn s) = Some bytes" "has_bit bytes (unat (ds_piece_index (ss_piece s)))"
    using s sound_bounds(1) [OF sound more]
    by (cases "pc_bitfield (ss_conn s)") (auto simp: serving_def peer_has_def)
  obtain sock1 where interest: "request_block ctx fd s = send_next_request fd (s\<lparr>ss_socket := sock1, ss_conn := ?c\<rparr>)"
    and sock1: "sk_rx sock1 = sk_rx (ss_socket s)" "sends_ready (sk_tx sock1)"
  proof (cases "pc_we_are_interested (ss_conn s)")
    case True
    then have same: "s\<lparr>ss_conn := ?c\<rparr> = s" by (cases s; cases "ss_conn s") simp
    show ?thesis
      using that [of "ss_socket s"] True bytes request_block_eq [OF sound_ready [OF sound more] bytes(1), of fd] ready by (simp add: same)
  next
    case False
    obtain sock where "peer_send_interested fd (ss_socket s) = Some (True, sock)" "sk_rx sock = sk_rx (ss_socket s)"
      "sends_ready (sk_tx sock)"
      using sends_ready_run [OF peer_send_interested_sends [OF fd] ready] by blast
    then show ?thesis
      using that [of sock] False bytes request_block_eq [OF sound_ready [OF sound more] bytes(1), of fd] by simp
  qed
  let ?s1 = "s\<lparr>ss_socket := sock1, ss_conn := ?c\<rparr>"
  have "sound ctx base ?s1" using advances_flag(2) [OF sound, of True] by (simp add: advances_def sound_def)
  then obtain sock where run: "request_block ctx fd s = Some (Go (?s1\<lparr>ss_socket := sock, ss_piece := requested (ss_piece s)\<rparr>))"
    and sock: "sk_rx sock = sk_rx (ss_socket s)" "sends_ready (sk_tx sock)"
    using request_sent [OF ctx(3) fd, of base ?s1] interest sock1 more none r s by (auto simp: serving_def)
  let ?s = "?s1\<lparr>ss_socket := sock, ss_piece := requested (ss_piece s)\<rparr>"
  have "sound ctx base ?s"
    using request_block_step [OF ctx(1,2) sound more fd] run by (auto simp: advances_def)
  then have "waiting ctx base ps ?s"
    using s r sock(2) by (simp add: waiting_def serving_def abs_fetch_def requested_def request_length_def)
  then show ?thesis using run sock(1) by (simp add: requested_def)
qed

text \<open>One turn of the loop on a frame that has arrived.\<close>

lemma iteration_receives:
  assumes fd: "0 \<le> fd" and s: "sound ctx base s" "plentiful (ss_heap s)" and f: "valid_frame f" "f \<noteq> Keep_Alive"
    and rx: "stream (sk_rx (ss_socket s)) = encode_frame f @ rest"
  obtains m sock h where "iteration ctx fd s = handle_message ctx fd (s\<lparr>ss_message := m, ss_socket := sock, ss_heap := h\<rparr>)"
    "frame_of m = f" "deliverable m" "stream (sk_rx sock) = rest" "sk_tx sock = sk_tx (ss_socket s)" "plentiful h"
    "sound ctx base (s\<lparr>ss_message := m, ss_socket := sock, ss_heap := h\<rparr>)"
proof -
  let ?h = "free (msg_payload (ss_message s) = None) (ss_heap s)"
  have plenty: "plentiful ?h" using s(2) by (simp add: plentiful_def)
  obtain m sock h where recv: "receive_peer_wire_message fd (Some blank_message) (ss_socket s) ?h = Some (True, Some m, sock, h)"
    "sk_tx sock = sk_tx (ss_socket s)" "live h = live ?h + message_blocks m" "wf_message m" "plentiful h"
    "frame_of m = f" "stream (sk_rx sock) = rest"
    using receive_frame [OF fd, of "ss_socket s" ?h] parse_encode_frame [OF f(1), of rest] rx plenty
    by (auto split: if_splits)
  have "\<not> msg_is_keep_alive m" using f(2) recv(6) by (auto simp: frame_of_def)
  then show thesis
    using that [of h sock m] recv f(1) s(1)
    by (simp add: deliverable_def iteration_def free_peer_wire_message_def Let_def live_free message_blocks_def sound_def)
qed

lemma frame_id: "frame_of m = Frame i p \<Longrightarrow> msg_id m = i"
  by (simp add: frame_of_def split: if_splits)

lemma request_length_le:
  "unat (ds_bytes_received st) \<le> unat (ds_piece_size st) \<Longrightarrow>
   unat (ds_bytes_received st) + request_length st \<le> unat (ds_piece_size st)"
  by (simp add: request_length_def)

text \<open>
  The block that was asked for arrives: it is added to the piece. Then either the next block is
  asked for, or the piece is complete.
\<close>

lemma small_numbers:
  assumes "addressable (layout_of ctx)" and w: "waiting ctx base ps s"
  shows "unat (of_nat (unat (ds_piece_index (ss_piece s))) :: uint32) = unat (ds_piece_index (ss_piece s))"
    and "unat (of_nat (unat (ds_bytes_received (ss_piece s))) :: uint32) = unat (ds_bytes_received (ss_piece s))"
proof -
  have "sound ctx base s" "\<not> ss_complete s" using w by (simp_all add: waiting_def serving_def)
  note bounds = sound_bounds [OF this]
  have "unat (ds_piece_index (ss_piece s)) < 2 ^ 32" using bounds(1) assms(1) by (simp add: addressable_def)
  moreover have "unat (ds_piece_size (ss_piece s)) \<le> 2 ^ 32" using bounds(1,3) assms(1) by (simp add: addressable_def)
  then have "unat (ds_bytes_received (ss_piece s)) < 2 ^ 32" using w by (auto simp: waiting_def)
  ultimately show "unat (of_nat (unat (ds_piece_index (ss_piece s))) :: uint32) = unat (ds_piece_index (ss_piece s))"
    "unat (of_nat (unat (ds_bytes_received (ss_piece s))) :: uint32) = unat (ds_bytes_received (ss_piece s))"
    by (simp_all add: unat_narrow)
qed

lemma block_stored:
  assumes ctx: "consistent (layout_of ctx)" "addressable (layout_of ctx)"
    and ps: "seeded (layout_of ctx) ps" and w: "waiting ctx base ps s"
    and i: "i = unat (ds_piece_index (ss_piece s))" and r: "r = unat (ds_bytes_received (ss_piece s))"
    and n: "n = request_length (ss_piece s)"
    and m: "deliverable m" "frame_of m = piece_frame (of_nat i) (of_nat r) (take n (drop r (ps ! i)))"
  obtains st where "process_incoming_piece_message (Some (ss_piece s)) (Some m) = Some (True, Some st)"
    "\<not> ds_request_pending st" "ds_piece_index st = ds_piece_index (ss_piece s)"
    "ds_piece_size st = ds_piece_size (ss_piece s)" "unat (ds_bytes_received st) = r + n"
    "ft_got (abs_fetch ctx st (ss_disk s)) = take (r + n) (ps ! i)"
    "ft_pieces (abs_fetch ctx st (ss_disk s)) = take i ps"
proof -
  let ?st = "ss_piece s" and ?l = "layout_of ctx" and ?blk = "take n (drop r (ps ! i))"
  have s: "serving ctx base ps s" and pending: "ds_request_pending ?st" and len: "ds_requested_length ?st = of_nat n"
    using w n by (simp_all add: waiting_def)
  have h: "holding ctx ?st (ss_disk s)" using s by (simp add: serving_def sound_def)
  have idx: "i < unat (dc_piece_count ctx)" using serving_index [OF s] i by simp
  have size: "unat (ds_piece_size ?st) = size_at ?l i" "length (ps ! i) = size_at ?l i"
    using h idx i ps by (simp_all add: holding_def seeded_def)
  have rn: "r + n \<le> size_at ?l i"
    using request_length_le [of ?st] h size(1) r n by (simp add: holding_def)
  have at: "ds_requested_begin ?st = ds_bytes_received ?st" using h pending by (simp add: holding_def)
  have un: "unat (of_nat n :: size_t) = n" using unat_request_length n by simp
  have blk: "length ?blk = n" using rn size(2) by simp
  obtain buf where buf: "ds_piece_buffer ?st = Some buf" "length buf = piece_room ?l" using h by (auto simp: holding_def)
  have room: "r + n \<le> length buf" using rn buf(2) size_at_room [OF ctx(1), of i] idx by simp
  have answers: "answers_request ?st (frame_of m) ?blk"
    unfolding answers_request_def m(2)
    using pending small_numbers [OF ctx(2) w] i r at blk un len rn size(1)
    by (intro conjI exI [of _ "of_nat i"] exI [of _ "of_nat r"]) simp_all
  have msg: "wf_message m" "msg_id m = PEER_MESSAGE_PIECE" "msg_is_keep_alive m = False" "valid_frame (frame_of m)"
    using m frame_id by (simp_all add: deliverable_def piece_frame_def)
  let ?st' = "?st\<lparr>ds_piece_buffer := Some (take r buf @ ?blk @ drop (r + n) buf),
    ds_bytes_received := ds_bytes_received ?st + of_nat n, ds_request_pending := False\<rparr>"
  have "process_incoming_piece_message (Some ?st) (Some m) = Some (True, Some ?st')"
    using process_piece_run(1) [OF msg buf(1) answers] blk at r len room by (simp add: store_bytes_Some)
  moreover have recv: "unat (ds_bytes_received ?st + of_nat n) = r + n"
    using rn size(1) r un unat_size_lt [of "ds_piece_size ?st"] by (subst unat_plus_bounded) simp_all
  moreover have "take r buf @ ?blk = take (r + n) (ps ! i)"
    using s buf(1) i r by (simp add: serving_def abs_fetch_def take_add)
  ultimately show thesis
    using that [of ?st'] s room i blk by (simp add: serving_def abs_fetch_def take_append)
qed

lemma block_arrives:
  assumes ctx: "wf_context ctx" "consistent (layout_of ctx)" "addressable (layout_of ctx)" and fd: "0 \<le> fd"
    and ps: "seeded (layout_of ctx) ps" and w: "waiting ctx base ps s"
    and i: "i = unat (ds_piece_index (ss_piece s))" and r: "r = unat (ds_bytes_received (ss_piece s))"
    and n: "n = request_length (ss_piece s)"
    and rx: "stream (sk_rx (ss_socket s)) = encode_frame (piece_frame (of_nat i) (of_nat r) (take n (drop r (ps ! i)))) @ rest"
  obtains s' where "iteration ctx fd s = after_switch ctx fd s'"
    "serving ctx base ps s'" "\<not> ds_request_pending (ss_piece s')" "stream (sk_rx (ss_socket s')) = rest"
    "ds_piece_index (ss_piece s') = ds_piece_index (ss_piece s)" "unat (ds_bytes_received (ss_piece s')) = r + n"
    "ds_piece_size (ss_piece s') = ds_piece_size (ss_piece s)"
proof -
  let ?f = "piece_frame (of_nat i) (of_nat r) (take n (drop r (ps ! i)))"
  have s: "serving ctx base ps s" using w by (simp add: waiting_def)
  have ready: "sound ctx base s" "plentiful (ss_heap s)" using s by (simp_all add: serving_def)
  have small: "n \<le> 16384" by (simp add: n request_length_def block_limit_def)
  have f: "valid_frame ?f" "?f \<noteq> Keep_Alive" using small by (simp_all add: piece_frame_def be32.length_encode)
  obtain m sock h where m: "iteration ctx fd s = handle_message ctx fd (s\<lparr>ss_message := m, ss_socket := sock, ss_heap := h\<rparr>)"
    "frame_of m = ?f" "deliverable m" "stream (sk_rx sock) = rest" "sk_tx sock = sk_tx (ss_socket s)" "plentiful h"
    "sound ctx base (s\<lparr>ss_message := m, ss_socket := sock, ss_heap := h\<rparr>)"
    using iteration_receives [OF fd ready f rx] .
  obtain st where st: "process_incoming_piece_message (Some (ss_piece s)) (Some m) = Some (True, Some st)"
    "\<not> ds_request_pending st" "ds_piece_index st = ds_piece_index (ss_piece s)"
    "ds_piece_size st = ds_piece_size (ss_piece s)" "unat (ds_bytes_received st) = r + n"
    "ft_got (abs_fetch ctx st (ss_disk s)) = take (r + n) (ps ! i)"
    "ft_pieces (abs_fetch ctx st (ss_disk s)) = take i ps"
    using block_stored [OF ctx(2,3) ps w i r n m(3,2)] .
  let ?s = "s\<lparr>ss_message := m, ss_socket := sock, ss_heap := h\<rparr>"
  have dispatch: "dispatch_message ctx ?s = Some (True, ?s\<lparr>ss_piece := st\<rparr>)"
    using frame_id m(2) st(1) by (simp add: dispatch_message_def piece_frame_def)
  then have "sound ctx base (?s\<lparr>ss_piece := st\<rparr>)"
    using dispatch_step [OF ctx(1,2) m(7)] m(3) by (auto simp: advances_def)
  then have "serving ctx base ps (?s\<lparr>ss_piece := st\<rparr>)"
    using s m(5,6) st(3,5-7) i by (simp add: serving_def)
  then show thesis
    using that [of "?s\<lparr>ss_piece := st\<rparr>"] m(1,4) dispatch st by (simp add: handle_message_def)
qed

text \<open>The last block completes the piece, which is written; then comes the next piece, or the end.\<close>

lemma healthy_write:
  assumes "healthy d" and "fseek off d = (ok, d1)" and "fwrite bs d1 = (w, d2)"
  shows "ok" "w = length bs" "healthy d2" "dk_contents d2 = overwrite (dk_contents d) off bs"
  using assms by (auto simp: healthy_def fseek_def fwrite_def Let_def)

lemma piece_written:
  assumes ctx: "wf_context ctx" "consistent (layout_of ctx)"
    and ps: "seeded (layout_of ctx) ps" and s: "serving ctx base ps s"
    and i: "i = unat (ds_piece_index (ss_piece s))"
    and full: "ds_bytes_received (ss_piece s) = ds_piece_size (ss_piece s)"
  obtains d n where "healthy d"
    "complete_piece ctx s = Some (if Suc i = unat (dc_piece_count ctx)
       then Leave (s\<lparr>ss_disk := d, ss_piece := (advanced (ss_piece s))\<lparr>ds_piece_size := n\<rparr>, ss_complete := True\<rparr>)
       else Go (s\<lparr>ss_disk := d, ss_piece := (advanced (ss_piece s))\<lparr>ds_piece_size := n\<rparr>\<rparr>))"
    "abs_fetch ctx ((advanced (ss_piece s))\<lparr>ds_piece_size := n\<rparr>) d =
       \<lparr>ft_pieces = take (Suc i) ps, ft_got = [], ft_pending = None\<rparr>"
proof -
  let ?st = "ss_piece s" and ?l = "layout_of ctx"
  have sound: "sound ctx base s" and more: "\<not> ss_complete s" using s by (simp_all add: serving_def)
  have h: "holding ctx ?st (ss_disk s)" using sound by (simp add: sound_def)
  note idx = sound_bounds(1) [OF sound more] and size = sound_bounds(3) [OF sound more, folded i]
  obtain buf where buf: "ds_piece_buffer ?st = Some buf" using h by (auto simp: holding_def)
  have p: "length (ps ! i) = size_at ?l i" "dc_sha1 ctx (ps ! i) = ly_hash ?l i" "length ps = unat (dc_piece_count ctx)"
    using ps idx i by (simp_all add: seeded_def)
  have got: "take (unat (ds_piece_size ?st)) buf = ps ! i" "ft_got (abs_session ctx s) = ps ! i"
    using s buf full size p(1) i by (simp_all add: serving_def abs_fetch_def)
  have hash: "dc_sha1 ctx (take (unat (ds_piece_size ?st)) buf) = ly_hash ?l (unat (ds_piece_index ?st))"
    using got(1) p(2) i by simp
  obtain ok d1 where seek: "fseek (piece_start ?l i) (ss_disk s) = (ok, d1)" by fastforce
  obtain w d where wrote: "fwrite (ps ! i) d1 = (w, d)" by fastforce
  have "healthy (ss_disk s)" using s by (simp add: serving_def)
  note disk = healthy_write [OF this seek wrote]
  obtain n where n: "Suc (unat (ds_piece_index ?st)) < unat (dc_piece_count ctx) \<longrightarrow>
      unat n = size_at ?l (Suc (unat (ds_piece_index ?st)))"
    and following: "next_piece ctx (s\<lparr>ss_disk := d, ss_piece := advanced ?st\<rparr>) =
      (if Suc i = unat (dc_piece_count ctx)
       then Leave (s\<lparr>ss_disk := d, ss_piece := (advanced ?st)\<lparr>ds_piece_size := n\<rparr>, ss_complete := True\<rparr>)
       else Go (s\<lparr>ss_disk := d, ss_piece := (advanced ?st)\<lparr>ds_piece_size := n\<rparr>\<rparr>))"
    using next_piece_sized [OF ctx h idx, of "s\<lparr>ss_disk := d\<rparr>"] i by auto
  have "complete_piece ctx s = Some (next_piece ctx (s\<lparr>ss_disk := d, ss_piece := advanced ?st\<rparr>))"
    using complete_piece_eq [OF ctx h idx buf] full hash got(1) seek wrote disk i
    by (simp add: Let_def write_piece_def advanced_def)
  note run = this [unfolded following]
  have c: "dk_contents d = overwrite (dk_contents (ss_disk s)) (piece_start ?l (unat (ds_piece_index ?st)))
      (take (unat (ds_piece_size ?st)) buf)"
    using disk(4) got(1) i by simp
  have inc: "unat (ds_piece_index ?st + 1) = Suc (unat (ds_piece_index ?st))"
    using idx by (intro unat_inc [of _ "dc_piece_count ctx"]) (simp add: word_less_nat_alt)
  have "unat (ds_piece_index ?st + 1) < unat (dc_piece_count ctx) \<longrightarrow> unat n = size_at ?l (unat (ds_piece_index ?st + 1))"
    using n inc by simp
  from write_verified(3) [OF ctx(2) h idx full buf hash c inc this]
  have "abs_fetch ctx ((advanced ?st)\<lparr>ds_piece_size := n\<rparr>) d = \<lparr>ft_pieces = take (Suc i) ps, ft_got = [], ft_pending = None\<rparr>"
    using s got(2) p(3) idx i by (simp add: advanced_def serving_def take_Suc_conv_app_nth)
  from that [OF disk(3) run this] show thesis .
qed

lemma advanced_fresh [simp]:
  "ds_bytes_received (advanced st) = 0" "ds_request_pending (advanced st) = False"
  by (simp_all add: advanced_def reset_piece_eq)

lemma piece_completes:
  assumes ctx: "wf_context ctx" "consistent (layout_of ctx)"
    and ps: "seeded (layout_of ctx) ps" and s: "serving ctx base ps s"
    and i: "i = unat (ds_piece_index (ss_piece s))"
    and full: "ds_bytes_received (ss_piece s) = ds_piece_size (ss_piece s)"
  obtains (next_piece) s' where "Suc i < unat (dc_piece_count ctx)" "complete_piece ctx s = Some (Go s')"
      "serving ctx base ps s'" "\<not> ds_request_pending (ss_piece s')" "unat (ds_piece_index (ss_piece s')) = Suc i"
      "ds_bytes_received (ss_piece s') = 0" "ss_socket s' = ss_socket s"
  | (finished) s' where "Suc i = unat (dc_piece_count ctx)" "complete_piece ctx s = Some (Leave s')" "ss_complete s'"
      "sound ctx base s'" "ft_pieces (abs_session ctx s') = ps"
proof -
  have sound: "sound ctx base s" and more: "\<not> ss_complete s" using s by (simp_all add: serving_def)
  have idx: "unat (ds_piece_index (ss_piece s)) < unat (dc_piece_count ctx)" by (rule serving_index [OF s])
  have inc: "unat (ds_piece_index (ss_piece s) + 1) = Suc i"
    unfolding i using idx by (intro unat_inc [of _ "dc_piece_count ctx"]) (simp add: word_less_nat_alt)
  obtain d n where healthy: "healthy d"
    and run: "complete_piece ctx s = Some (if Suc i = unat (dc_piece_count ctx)
       then Leave (s\<lparr>ss_disk := d, ss_piece := (advanced (ss_piece s))\<lparr>ds_piece_size := n\<rparr>, ss_complete := True\<rparr>)
       else Go (s\<lparr>ss_disk := d, ss_piece := (advanced (ss_piece s))\<lparr>ds_piece_size := n\<rparr>\<rparr>))"
    and abs: "abs_fetch ctx ((advanced (ss_piece s))\<lparr>ds_piece_size := n\<rparr>) d =
       \<lparr>ft_pieces = take (Suc i) ps, ft_got = [], ft_pending = None\<rparr>"
    using piece_written [OF ctx ps s i full] .
  obtain r where r: "complete_piece ctx s = Some r" "advances ctx base s (flow_state r)"
    using complete_piece_step [OF ctx sound more] by blast
  show thesis
  proof (cases "Suc i = unat (dc_piece_count ctx)")
    case True
    let ?s = "s\<lparr>ss_disk := d, ss_piece := (advanced (ss_piece s))\<lparr>ds_piece_size := n\<rparr>, ss_complete := True\<rparr>"
    have leave: "r = Leave ?s" using r(1) run True by simp
    then show thesis
      using finished [of ?s] r abs ps True by (simp add: advances_def seeded_def)
  next
    case False
    let ?s = "s\<lparr>ss_disk := d, ss_piece := (advanced (ss_piece s))\<lparr>ds_piece_size := n\<rparr>\<rparr>"
    have "r = Go ?s" using r(1) run False by simp
    then have "serving ctx base ps ?s"
      using s r(2) inc abs healthy by (simp add: serving_def advances_def)
    then show thesis
      using next_piece [of ?s] False idx i run inc by simp
  qed
qed

section \<open>The blocks of a piece, and the pieces\<close>

definition finishes :: "download_context \<Rightarrow> int \<Rightarrow> int \<Rightarrow> byte list list \<Rightarrow> session \<Rightarrow> bool" where
  "finishes ctx base fd ps s \<longleftrightarrow>
     (\<exists>s'. session_loop ctx fd s = Some s' \<and> ss_complete s' \<and> sound ctx base s' \<and> ft_pieces (abs_session ctx s') = ps)"

lemma finishes_go: "iteration ctx fd s = Some (Go s') \<Longrightarrow> finishes ctx base fd ps s' \<Longrightarrow> finishes ctx base fd ps s"
  unfolding finishes_def by (subst session_loop.simps) simp

lemma finishes_leave:
  "iteration ctx fd s = Some (Leave s') \<Longrightarrow> ss_complete s' \<Longrightarrow> sound ctx base s' \<Longrightarrow>
   ft_pieces (abs_session ctx s') = ps \<Longrightarrow> finishes ctx base fd ps s"
  unfolding finishes_def by (subst session_loop.simps) simp

text \<open>A block that was not the last of its piece: the next one is asked for.\<close>

lemma asks_again:
  assumes ctx: "wf_context ctx" "consistent (layout_of ctx)" "addressable (layout_of ctx)" and fd: "0 \<le> fd"
    and s: "serving ctx base ps s" "\<not> ds_request_pending (ss_piece s)"
    and part: "unat (ds_bytes_received (ss_piece s)) < unat (ds_piece_size (ss_piece s))"
  obtains s' where "after_switch ctx fd s = Some (Go s')" "waiting ctx base ps s'"
    "ds_piece_index (ss_piece s') = ds_piece_index (ss_piece s)"
    "ds_bytes_received (ss_piece s') = ds_bytes_received (ss_piece s)" "sk_rx (ss_socket s') = sk_rx (ss_socket s)"
proof -
  have "complete_piece ctx s = Some (Go s)" using part by (auto simp: complete_piece_def Let_def)
  then show thesis
    using request_goes [OF ctx fd s] part that by (auto simp: after_switch_def)
qed

text \<open>The last block of a piece: the first block of the next one is asked for, or all is done.\<close>

lemma piece_ends:
  assumes ctx: "wf_context ctx" "consistent (layout_of ctx)" "addressable (layout_of ctx)" and fd: "0 \<le> fd"
    and ps: "seeded (layout_of ctx) ps" and s: "serving ctx base ps s"
    and i: "i = unat (ds_piece_index (ss_piece s))"
    and full: "ds_bytes_received (ss_piece s) = ds_piece_size (ss_piece s)"
  obtains (next_piece) s' where "Suc i < unat (dc_piece_count ctx)" "after_switch ctx fd s = Some (Go s')"
      "waiting ctx base ps s'" "unat (ds_piece_index (ss_piece s')) = Suc i" "ds_bytes_received (ss_piece s') = 0"
      "sk_rx (ss_socket s') = sk_rx (ss_socket s)"
  | (finished) s' where "after_switch ctx fd s = Some (Leave s')" "ss_complete s'" "sound ctx base s'"
      "ft_pieces (abs_session ctx s') = ps"
proof (cases rule: piece_completes [OF ctx(1,2) ps s i full])
  case (1 s1)
  obtain s2 where "request_block ctx fd s1 = Some (Go s2)" "waiting ctx base ps s2"
    "ds_piece_index (ss_piece s2) = ds_piece_index (ss_piece s1)"
    "ds_bytes_received (ss_piece s2) = ds_bytes_received (ss_piece s1)" "sk_rx (ss_socket s2) = sk_rx (ss_socket s1)"
    using request_goes [OF ctx fd 1(3,4)] 1(6) by auto
  then show thesis using 1 by (intro next_piece [of s2]) (simp_all add: after_switch_def)
next
  case (2 s1)
  then show thesis by (intro finished [of s1]) (simp_all add: after_switch_def)
qed

lemma serve_piece:
  assumes ctx: "wf_context ctx" "consistent (layout_of ctx)" "addressable (layout_of ctx)" and fd: "0 \<le> fd"
    and ps: "seeded (layout_of ctx) ps"
    and more: "Suc i < unat (dc_piece_count ctx) \<Longrightarrow>
      (\<And>s. waiting ctx base ps s \<Longrightarrow> unat (ds_piece_index (ss_piece s)) = Suc i \<Longrightarrow>
        ds_bytes_received (ss_piece s) = 0 \<Longrightarrow> stream (sk_rx (ss_socket s)) = rest \<Longrightarrow> finishes ctx base fd ps s)"
  shows "waiting ctx base ps s \<Longrightarrow> unat (ds_piece_index (ss_piece s)) = i \<Longrightarrow>
    unat (ds_bytes_received (ss_piece s)) = r \<Longrightarrow> bs = drop r (ps ! i) \<Longrightarrow>
    stream (sk_rx (ss_socket s)) = wire_of (block_frames i r bs) @ rest \<Longrightarrow> finishes ctx base fd ps s"
proof (induction "length bs" arbitrary: bs r s rule: less_induct)
  case less
  note w = less(2) and i = less(3) and r = less(4) and bs = less(5) and rx = less(6)
  let ?st = "ss_piece s" and ?l = "layout_of ctx"
  define n where "n = request_length ?st"
  have s: "sound ctx base s" "\<not> ss_complete s" using w by (simp_all add: waiting_def serving_def)
  have size: "unat (ds_piece_size ?st) = size_at ?l i" "length (ps ! i) = size_at ?l i" "r \<le> size_at ?l i"
    using sound_bounds [OF s] i r ps by (simp_all add: seeded_def)
  have len: "length bs = size_at ?l i - r" using bs size(2) by simp
  have n: "n = min block_limit (length bs)" by (simp add: n_def request_length_def size(1) r len)
  define more_frames where "more_frames = (if length bs \<le> block_limit then [] else block_frames i (r + block_limit) (drop block_limit bs))"
  have "stream (sk_rx (ss_socket s)) =
      encode_frame (piece_frame (of_nat i) (of_nat r) (take n (drop r (ps ! i)))) @ wire_of more_frames @ rest"
    using rx by (subst (asm) block_frames.simps)
      (simp add: wire_of_def more_frames_def n bs min_def del: encode_frame.simps)
  from block_arrives [OF ctx fd ps w i [symmetric] r [symmetric] n_def this]
  obtain s1 where s1: "iteration ctx fd s = after_switch ctx fd s1" "serving ctx base ps s1"
    "\<not> ds_request_pending (ss_piece s1)" "stream (sk_rx (ss_socket s1)) = wire_of more_frames @ rest"
    "ds_piece_index (ss_piece s1) = ds_piece_index ?st" "unat (ds_bytes_received (ss_piece s1)) = r + n"
    "ds_piece_size (ss_piece s1) = ds_piece_size ?st" .
  show ?case
  proof (cases "length bs \<le> block_limit")
    case True
    then have full: "ds_bytes_received (ss_piece s1) = ds_piece_size (ss_piece s1)"
      using s1(6,7) size(1,3) n len by (simp add: word_unat_eq_iff)
    have i1: "i = unat (ds_piece_index (ss_piece s1))" using s1(5) i by simp
    show ?thesis
    proof (cases rule: piece_ends [OF ctx fd ps s1(2) i1 full])
      case (1 s2)
      then have "finishes ctx base fd ps s2"
        using more s1(4) True by (simp add: more_frames_def wire_of_def)
      then show ?thesis using finishes_go [of ctx fd s s2] s1(1) 1(2) by simp
    next
      case (2 s2)
      then show ?thesis using finishes_leave [of ctx fd s s2] s1(1) by simp
    qed
  next
    case False
    then have n_limit: "n = block_limit" by (simp add: n)
    have part: "unat (ds_bytes_received (ss_piece s1)) < unat (ds_piece_size (ss_piece s1))"
      using s1(6,7) size(1) n_limit False len by simp
    obtain s2 where s2: "after_switch ctx fd s1 = Some (Go s2)" "waiting ctx base ps s2"
        "ds_piece_index (ss_piece s2) = ds_piece_index (ss_piece s1)"
        "ds_bytes_received (ss_piece s2) = ds_bytes_received (ss_piece s1)" "sk_rx (ss_socket s2) = sk_rx (ss_socket s1)"
      using asks_again [OF ctx fd s1(2,3) part] .
    have "finishes ctx base fd ps s2"
      by (rule less(1) [OF _ s2(2), of "drop block_limit bs" "r + block_limit"])
        (use False i s2(3-5) s1(4-6) n_limit in \<open>simp_all add: bs block_limit_def more_frames_def add.commute\<close>)
    then show ?thesis using finishes_go [of ctx fd s s2] s1(1) s2(1) by simp
  qed
qed

lemma serve_pieces:
  assumes ctx: "wf_context ctx" "consistent (layout_of ctx)" "addressable (layout_of ctx)" and fd: "0 \<le> fd"
    and ps: "seeded (layout_of ctx) ps"
  shows "waiting ctx base ps s \<Longrightarrow> unat (ds_piece_index (ss_piece s)) = i \<Longrightarrow> ds_bytes_received (ss_piece s) = 0 \<Longrightarrow>
    stream (sk_rx (ss_socket s)) = wire_of (seed_frames i (drop i ps)) @ rest \<Longrightarrow> finishes ctx base fd ps s"
proof (induction "unat (dc_piece_count ctx) - i" arbitrary: i s rule: less_induct)
  case less
  have "serving ctx base ps s" using less(2) by (simp add: waiting_def)
  then have i: "i < unat (dc_piece_count ctx)" using serving_index less(3) by blast
  then have "drop i ps = ps ! i # drop (Suc i) ps" using ps by (simp add: seeded_def Cons_nth_drop_Suc)
  then have rx: "stream (sk_rx (ss_socket s)) =
      wire_of (block_frames i 0 (ps ! i)) @ wire_of (seed_frames (Suc i) (drop (Suc i) ps)) @ rest"
    using less(5) by (simp add: wire_of_def)
  show ?case
  proof (rule serve_piece [OF ctx fd ps _ less(2,3) _ _ rx])
    show "finishes ctx base fd ps t"
      if "Suc i < unat (dc_piece_count ctx)" "waiting ctx base ps t" "unat (ds_piece_index (ss_piece t)) = Suc i"
        "ds_bytes_received (ss_piece t) = 0"
        "stream (sk_rx (ss_socket t)) = wire_of (seed_frames (Suc i) (drop (Suc i) ps)) @ rest" for t
      by (rule less(1) [OF _ that(2-5)]) (use i in simp)
  qed (use less(4) in simp_all)
qed

section \<open>From the handshake to the first request\<close>

text \<open>The state before the first block: nothing of the piece is there and nothing has been asked for.\<close>

definition fresh_piece :: "piece_download_state \<Rightarrow> bool" where
  "fresh_piece st \<longleftrightarrow> ds_bytes_received st = 0 \<and> \<not> ds_request_pending st \<and> ds_piece_size st \<noteq> 0"

lemma complete_piece_waits: "fresh_piece (ss_piece s) \<Longrightarrow> complete_piece ctx s = Some (Go s)"
  by (auto simp: fresh_piece_def complete_piece_def Let_def)

text \<open>A peer that has everything says so: the client declares its interest.\<close>

lemma bitfield_arrives:
  assumes ctx: "wf_context ctx" "consistent (layout_of ctx)" and fd: "0 \<le> fd"
    and s: "sound ctx base s" "\<not> ss_complete s" "fresh_piece (ss_piece s)"
    and conn: "pc_bitfield (ss_conn s) = None" "pc_we_are_interested (ss_conn s) = False" "pc_peer_choking_us (ss_conn s) = True"
    and ready: "plentiful (ss_heap s)" "sends_ready (sk_tx (ss_socket s))"
    and bs: "valid_bitfield (dc_piece_count ctx) bs" "length bs \<le> 1048576" "\<forall>j < unat (dc_piece_count ctx). has_bit bs j"
    and rx: "stream (sk_rx (ss_socket s)) = encode_frame (Frame PEER_MESSAGE_BITFIELD bs) @ rest"
  obtains s' where "iteration ctx fd s = Some (Go s')" "sound ctx base s'" "\<not> ss_complete s'"
    "ss_piece s' = ss_piece s" "ss_disk s' = ss_disk s" "plentiful (ss_heap s')" "sends_ready (sk_tx (ss_socket s'))"
    "\<forall>j < unat (dc_piece_count ctx). peer_has (ss_conn s') j" "stream (sk_rx (ss_socket s')) = rest"
proof -
  have pos: "0 < unat (dc_piece_count ctx)" using ctx(2) by (simp add: consistent_def)
  have f: "valid_frame (Frame PEER_MESSAGE_BITFIELD bs)" "Frame PEER_MESSAGE_BITFIELD bs \<noteq> Keep_Alive"
    using bs(2) by simp_all
  obtain m sock h where m: "frame_of m = Frame PEER_MESSAGE_BITFIELD bs" "deliverable m" "stream (sk_rx sock) = rest"
    "sk_tx sock = sk_tx (ss_socket s)" "plentiful h"
    "iteration ctx fd s = handle_message ctx fd (s\<lparr>ss_message := m, ss_socket := sock, ss_heap := h\<rparr>)"
    "sound ctx base (s\<lparr>ss_message := m, ss_socket := sock, ss_heap := h\<rparr>)"
    using iteration_receives [OF fd s(1) ready(1) f rx] by metis
  let ?s = "s\<lparr>ss_message := m, ss_socket := sock, ss_heap := h\<rparr>"
  have "bs \<noteq> []" using bs(1) pos by (auto simp: valid_bitfield_def bitfield_size_def)
  then have payload: "msg_payload m = Some bs" "msg_id m = PEER_MESSAGE_BITFIELD" "unat (msg_payload_length m) = length bs"
    using m(1,2) by (auto simp: frame_of_def deliverable_def wf_message_def split: if_splits option.splits)
  have wf: "wf_connection (dc_piece_count ctx) (ss_conn s)" using s(1) by (simp add: sound_def)
  let ?c = "(ss_conn s)\<lparr>pc_bitfield := Some bs, pc_bitfield_length := msg_payload_length m\<rparr>"
  obtain h' where applied: "bitfield_applied (Some (ss_conn s)) (Some bs) (msg_payload_length m) (dc_piece_count ctx) h =
      Some (True, Some ?c, h')" "plentiful h'"
    using bitfield_applied_step [OF wf piece_count_bound [OF ctx(1)] \<open>bs \<noteq> []\<close> payload(3), of h] conn(1) bs(1) m(5)
    by (auto split: if_splits)
  let ?s1 = "?s\<lparr>ss_conn := ?c, ss_heap := h'\<rparr>"
  have dispatch: "dispatch_message ctx ?s = Some (True, ?s1)"
    using payload(1,2) applied(1) by (simp add: dispatch_message_def)
  have sound1: "sound ctx base ?s1"
    using dispatch_step [OF ctx m(7)] m(2) dispatch by (auto simp: advances_def)
  have ready1: "sends_ready (sk_tx (ss_socket ?s1))" using ready(2) m(4) by simp
  obtain sock' where interested: "peer_send_interested fd sock = Some (True, sock')" "sk_rx sock' = sk_rx sock"
    "sends_ready (sk_tx sock')"
    using sends_ready_run [OF peer_send_interested_sends [OF fd], of sock] ready1 by auto
  let ?s2 = "?s1\<lparr>ss_socket := sock', ss_conn := ?c\<lparr>pc_we_are_interested := True\<rparr>\<rparr>"
  have i: "unat (ds_piece_index (ss_piece s)) < unat (dc_piece_count ctx)"
    using s(1,2) by (auto simp: sound_def holding_def le_less)
  have "unat (ds_bytes_received (ss_piece ?s2)) \<le> unat (ds_piece_size (ss_piece ?s2))"
    using s(3) by (simp add: fresh_piece_def)
  from send_next_request_eq [OF this, of fd] have "send_next_request fd ?s2 = Some (Go ?s2)" using conn(3) by simp
  then have req: "request_block ctx fd ?s1 = Some (Go ?s2)"
    using request_block_eq [OF sound_ready [OF sound1], of bs fd] s(2) bs(3) i interested(1) conn(2) by simp
  then have "sound ctx base ?s2"
    using request_block_step [OF ctx sound1 _ fd] s(2) by (auto simp: advances_def)
  moreover have "iteration ctx fd s = Some (Go ?s2)"
    using m(6) dispatch complete_piece_waits [of ?s1 ctx] s(3) req by (simp add: handle_message_def after_switch_def)
  ultimately show thesis
    using that [of ?s2] s(2) applied(2) interested m(3) bs(3) by (simp add: peer_has_def)
qed

text \<open>It unchokes: the client asks for the first block.\<close>

lemma unchoke_arrives:
  assumes ctx: "wf_context ctx" "consistent (layout_of ctx)" "addressable (layout_of ctx)" and fd: "0 \<le> fd"
    and s: "sound ctx base s" "\<not> ss_complete s" "fresh_piece (ss_piece s)"
    and conn: "\<forall>j < unat (dc_piece_count ctx). peer_has (ss_conn s) j"
    and ready: "plentiful (ss_heap s)" "sends_ready (sk_tx (ss_socket s))" "healthy (ss_disk s)"
    and pieces: "ft_pieces (abs_session ctx s) = take (unat (ds_piece_index (ss_piece s))) ps"
    and rx: "stream (sk_rx (ss_socket s)) = encode_frame (Frame PEER_MESSAGE_UNCHOKE []) @ rest"
  obtains s' where "iteration ctx fd s = Some (Go s')" "waiting ctx base ps s'"
    "ds_piece_index (ss_piece s') = ds_piece_index (ss_piece s)" "ds_bytes_received (ss_piece s') = 0"
    "stream (sk_rx (ss_socket s')) = rest"
proof -
  have f: "valid_frame (Frame PEER_MESSAGE_UNCHOKE [])" "Frame PEER_MESSAGE_UNCHOKE [] \<noteq> Keep_Alive" by simp_all
  obtain m sock h where m: "frame_of m = Frame PEER_MESSAGE_UNCHOKE []" "deliverable m" "stream (sk_rx sock) = rest"
    "sk_tx sock = sk_tx (ss_socket s)" "plentiful h"
    "iteration ctx fd s = handle_message ctx fd (s\<lparr>ss_message := m, ss_socket := sock, ss_heap := h\<rparr>)"
    "sound ctx base (s\<lparr>ss_message := m, ss_socket := sock, ss_heap := h\<rparr>)"
    using iteration_receives [OF fd s(1) ready(1) f rx] by metis
  let ?s = "s\<lparr>ss_message := m, ss_socket := sock, ss_heap := h\<rparr>"
  let ?s1 = "?s\<lparr>ss_conn := (ss_conn s)\<lparr>pc_peer_choking_us := False\<rparr>\<rparr>"
  have dispatch: "dispatch_message ctx ?s = Some (True, ?s1)"
    using frame_id [OF m(1)] by (simp add: dispatch_message_def)
  have "sound ctx base ?s1" using advances_flag(1) [OF m(7), of False] by (simp add: advances_def)
  then have serving: "serving ctx base ps ?s1"
    using s(2,3) conn ready m(4,5) pieces by (simp add: serving_def abs_fetch_def fresh_piece_def)
  obtain s' where s': "request_block ctx fd ?s1 = Some (Go s')" "waiting ctx base ps s'"
    "ds_piece_index (ss_piece s') = ds_piece_index (ss_piece ?s1)"
    "ds_bytes_received (ss_piece s') = ds_bytes_received (ss_piece ?s1)" "sk_rx (ss_socket s') = sk_rx (ss_socket ?s1)"
    using request_goes [OF ctx fd serving] s(3) by (auto simp: fresh_piece_def)
  then have "iteration ctx fd s = Some (Go s')"
    using m(6) dispatch complete_piece_waits [of ?s1 ctx] s(3) by (simp add: handle_message_def after_switch_def)
  then show thesis using that [of s'] s' s(3) m(3) by (simp add: fresh_piece_def)
qed

lemma own_handshake_answers: "length pid = 20 \<Longrightarrow> answers_handshake ih (handshake_bytes ih pid)"
  unfolding answers_handshake_def
  by (intro exI [of _ "replicate 8 0"] exI [of _ pid] exI [of _ "[]"]) (simp add: handshake_bytes_def)

section \<open>The property\<close>

text \<open>What a peer that has the file sends after the handshake to a client that lacks the pieces from \<open>i\<close> on.\<close>

definition seed_stream :: "nat \<Rightarrow> byte list \<Rightarrow> byte list list \<Rightarrow> byte list" where
  "seed_stream i bitfield_bytes ps =
     wire_of (Frame PEER_MESSAGE_BITFIELD bitfield_bytes # Frame PEER_MESSAGE_UNCHOKE [] # seed_frames i (drop i ps))"

definition connects :: "connect_answers \<Rightarrow> peer \<Rightarrow> bool" where
  "connects a p \<longleftrightarrow> 0 \<le> ca_socket a \<and> ca_getfl a \<noteq> - 1 \<and> ca_set_nonblock a \<noteq> - 1 \<and> ca_connect a (socket_address p) \<noteq> - 1 \<and>
     ca_restore_flags a \<noteq> - 1"

lemma fetch_from_seeder:
  assumes "wf_context ctx" and "consistent (layout_of ctx)" and "addressable (layout_of ctx)"
    and "seeded (layout_of ctx) ps"
    and "sound_download ctx d" and "\<not> dl_complete d" and "fresh_piece (dl_piece d)"
    and "ft_pieces (abs_download ctx d) = take (unat (ds_piece_index (dl_piece d))) ps"
    and "plentiful (dl_heap d)" and "healthy (dl_disk d)"
    and "connects (pn_connect net) p" and "fresh_socket net (dl_fds d)" and "sends_ready (sk_tx (pn_socket net))"
    and "valid_bitfield (dc_piece_count ctx) bs" and "length bs \<le> 1048576"
    and "\<forall>j < unat (dc_piece_count ctx). has_bit bs j"
    and "length answer = 68" and "answers_handshake (dc_info_hash ctx) answer"
    and "stream (sk_rx (pn_socket net)) = answer @ seed_stream (unat (ds_piece_index (dl_piece d))) bs ps @ rest"
  shows "\<exists>d'. fetch_from_peer ctx p net d = Some d' \<and> dl_complete d' \<and> dk_contents (dl_disk d') = concat ps"
proof -
  let ?fd = "ca_socket (pn_connect net)" and ?base = "live (dl_heap d)" and ?i = "unat (ds_piece_index (dl_piece d))"
  have conn: "connect_to_peer (pn_connect net) (Some p) (dl_fds d) = (?fd, insert ?fd (dl_fds d))" "0 \<le> ?fd"
    using assms(11) by (simp_all add: connect_to_peer_def connects_def Let_def)
  have ids: "length (dc_info_hash ctx) = 20" "length (dc_peer_id ctx) = 20" using assms(1) by (simp_all add: wf_context_def)
  obtain sock where hs: "handshake_with_peer (Some (dc_info_hash ctx)) (Some (dc_peer_id ctx)) (pn_socket net) =
      Some (True, sock)" "sends_ready (sk_tx sock)" "stream (sk_rx sock) = seed_stream ?i bs ps @ rest"
    using handshake_run [OF ids, of "pn_socket net"] assms(13,17,18,19) by auto
  let ?s = "enter_peer ?fd p sock d"
  have s: "sound ctx ?base ?s" by (rule sound_enter [OF assms(5)])
  have rx: "stream (sk_rx (ss_socket ?s)) = encode_frame (Frame PEER_MESSAGE_BITFIELD bs) @
      encode_frame (Frame PEER_MESSAGE_UNCHOKE []) @ wire_of (seed_frames ?i (drop ?i ps)) @ rest"
    using hs(3) by (simp add: enter_peer_def seed_stream_def wire_of_def del: encode_frame.simps)
  obtain s1 where s1: "iteration ctx ?fd ?s = Some (Go s1)" "sound ctx ?base s1" "\<not> ss_complete s1"
    "ss_piece s1 = ss_piece ?s" "ss_disk s1 = ss_disk ?s" "plentiful (ss_heap s1)" "sends_ready (sk_tx (ss_socket s1))"
    "\<forall>j < unat (dc_piece_count ctx). peer_has (ss_conn s1) j"
    "stream (sk_rx (ss_socket s1)) = encode_frame (Frame PEER_MESSAGE_UNCHOKE []) @ wire_of (seed_frames ?i (drop ?i ps)) @ rest"
    using bitfield_arrives [OF assms(1,2) conn(2) s _ _ _ _ _ _ _ assms(14-16) rx] assms(6,7,9) hs(2)
    by (auto simp: enter_peer_def)
  have start: "fresh_piece (ss_piece s1)" "healthy (ss_disk s1)"
    "ft_pieces (abs_session ctx s1) = take (unat (ds_piece_index (ss_piece s1))) ps"
    using s1(4,5) assms(7,8,10) by (simp_all add: enter_peer_def)
  obtain s2 where s2: "iteration ctx ?fd s1 = Some (Go s2)" "waiting ctx ?base ps s2"
    "ds_piece_index (ss_piece s2) = ds_piece_index (ss_piece s1)" "ds_bytes_received (ss_piece s2) = 0"
    "stream (sk_rx (ss_socket s2)) = wire_of (seed_frames ?i (drop ?i ps)) @ rest"
    using unchoke_arrives [OF assms(1-3) conn(2) s1(2,3) start(1) s1(8,6,7) start(2,3) s1(9)] .
  have "unat (ds_piece_index (ss_piece s2)) = ?i" using s2(3) s1(4) by (simp add: enter_peer_def)
  then have "finishes ctx ?base ?fd ps s2" using serve_pieces [OF assms(1-3) conn(2) assms(4) s2(2) _ s2(4,5)] by blast
  then have "finishes ctx ?base ?fd ps ?s" using finishes_go s1(1) s2(1) by blast
  then obtain t where t: "session_loop ctx ?fd ?s = Some t" "ss_complete t" "sound ctx ?base t"
    "ft_pieces (abs_session ctx t) = ps"
    by (auto simp: finishes_def)
  let ?d = "leave_peer ?fd t (insert ?fd (dl_fds d))"
  have run: "fetch_from_peer ctx p net d = Some ?d"
    using conn hs(1) t(1) by (simp add: fetch_from_peer_def)
  have done_state: "dl_complete ?d" "dk_contents (dl_disk ?d) = dk_contents (ss_disk t)"
    using t(2) by (simp_all add: leave_peer_def Let_def split: prod.split)
  have idx: "unat (ds_piece_index (ss_piece t)) = unat (dc_piece_count ctx)"
    and len: "length (dk_contents (ss_disk t)) = ly_total (layout_of ctx)"
    using t(2,3) by (auto simp: sound_def holding_def verified_end_def)
  have "concat ps = dk_contents (ss_disk t)"
    using slices_make_file [OF assms(2) len] t(4) idx by (simp add: abs_fetch_def piece_of_def [abs_def])
  then show ?thesis using run done_state by simp
qed

text \<open>
  C6: a peer that completes the handshake, has every piece, unchokes and sends the blocks in
  order brings the download to completion, however its bytes are cut up, as long as
  memory, disk and sending do not fail; the file is then the concatenation of the pieces.
\<close>

theorem seeder_completes_download:
  assumes "wf_context ctx" and "consistent (layout_of ctx)" and "addressable (layout_of ctx)"
    and "seeded (layout_of ctx) ps"
    and "sound_download ctx d" and "\<not> dl_complete d" and "fresh_piece (dl_piece d)"
    and "ft_pieces (abs_download ctx d) = take (unat (ds_piece_index (dl_piece d))) ps"
    and "plentiful (dl_heap d)" and "healthy (dl_disk d)"
    and "connects (pn_connect net) p" and "fresh_socket net (dl_fds d)" and "sends_ready (sk_tx (pn_socket net))"
    and "valid_bitfield (dc_piece_count ctx) bs" and "length bs \<le> 1048576"
    and "\<forall>j < unat (dc_piece_count ctx). has_bit bs j"
    and "length answer = 68" and "answers_handshake (dc_info_hash ctx) answer"
    and "stream (sk_rx (pn_socket net)) = answer @ seed_stream (unat (ds_piece_index (dl_piece d))) bs ps @ rest"
  shows "\<exists>d'. fetch_from_peer ctx p net d = Some d' \<and> dl_complete d' \<and> dk_contents (dl_disk d') = concat ps"
  by (rule fetch_from_seeder [OF assms])

lemma sample_bits: "valid_bitfield 2 [0xC0]" "\<forall>j < 2. has_bit [0xC0] j"
proof -
  have "\<not> has_bit [0xC0] i" if "2 \<le> i" "i < 8" for i
  proof -
    have "i = 2 \<or> i = 3 \<or> i = 4 \<or> i = 5 \<or> i = 6 \<or> i = 7" using that by linarith
    moreover have "\<not> has_bit [0xC0] 2" "\<not> has_bit [0xC0] 3" "\<not> has_bit [0xC0] 4" "\<not> has_bit [0xC0] 5"
      "\<not> has_bit [0xC0] 6" "\<not> has_bit [0xC0] 7" by code_simp+
    ultimately show ?thesis by auto
  qed
  then show "valid_bitfield 2 [0xC0]" by (simp add: valid_bitfield_def bitfield_size_def)
  have "has_bit [0xC0] 0" "has_bit [0xC0] 1" by code_simp+
  then show "\<forall>j < 2. has_bit [0xC0] j" by (auto simp: less_2_cases_iff)
qed

lemma sample_handshake:
  "length (handshake_bytes (replicate 20 7) (replicate 20 9)) = 68"
  "answers_handshake (replicate 20 7) (handshake_bytes (replicate 20 7) (replicate 20 9))"
  by (simp add: handshake_bytes_def, rule own_handshake_answers, rule length_replicate)

lemma sample_stream:
  "stream (sk_rx (pn_socket sample_network)) =
     handshake_bytes (replicate 20 7) (replicate 20 9) @ seed_stream 0 [0xC0] [[1, 2], [3]] @ []"
proof -
  have one: "block_frames i 0 bs = [piece_frame (of_nat i) 0 bs]" if "length bs \<le> 16384" for i bs
    using that by (subst block_frames.simps) (simp add: block_limit_def)
  have some: "wire_of (f # fs) \<noteq> []" for f fs using be32.length_encode [of 0] by (cases f) (auto simp: wire_of_def)
  have "seed_stream 0 [0xC0] [[1, 2], [3]] = wire_of [Frame PEER_MESSAGE_BITFIELD [0xC0], Frame PEER_MESSAGE_UNCHOKE [],
      piece_frame 0 0 [1, 2], piece_frame 1 0 [3]]"
    by (simp add: seed_stream_def one)
  then show ?thesis using some by (simp add: sample_network_def socket_with_def handshake_bytes_def)
qed

lemma sample_network_ready: "connects (pn_connect sample_network) p" "sends_ready (sk_tx (pn_socket sample_network))"
  by (simp_all add: sample_network_def connects_def good_connect_def socket_with_def sends_ready_def)

theorem seeder_completes_download_witness:
  "\<exists>d'. fetch_from_peer sample_context zero_peer sample_network sample_download = Some d' \<and> dl_complete d' \<and>
     dk_contents (dl_disk d') = [1, 2, 3]"
proof -
  let ?ps = "[[1, 2], [3]] :: byte list list"
  have count: "dc_piece_count sample_context = 2" "dc_info_hash sample_context = replicate 20 7"
    by (simp_all add: sample_context_def)
  have bits: "valid_bitfield (dc_piece_count sample_context) [0xC0]"
    "\<forall>j < unat (dc_piece_count sample_context). has_bit [0xC0] j"
    using sample_bits by (simp_all add: count)
  have small: "addressable (layout_of sample_context)" "seeded (layout_of sample_context) ?ps"
    by (auto simp: addressable_def seeded_def layout_of_def sample_context_def size_at_def piece_start_def
        slice_def pad_hash_def seg_bytes_def less_2_cases_iff)
  have d: "\<not> dl_complete sample_download" "fresh_piece (dl_piece sample_download)" "plentiful (dl_heap sample_download)"
    "healthy (dl_disk sample_download)" "unat (ds_piece_index (dl_piece sample_download)) = 0"
    "ft_pieces (abs_download sample_context sample_download) = take (unat (ds_piece_index (dl_piece sample_download))) ?ps"
    by (simp_all add: sample_download_def fresh_piece_def first_piece_state_def fresh_heap_def healthy_def abs_fetch_def)
  have net: "fresh_socket sample_network (dl_fds sample_download)"
    by (simp add: sample_network_def good_connect_def fresh_socket_def sample_download_def)
  have answer: "answers_handshake (dc_info_hash sample_context) (handshake_bytes (replicate 20 7) (replicate 20 9))"
    unfolding count by (rule sample_handshake)
  have rx: "stream (sk_rx (pn_socket sample_network)) = handshake_bytes (replicate 20 7) (replicate 20 9) @
      seed_stream (unat (ds_piece_index (dl_piece sample_download))) [0xC0] ?ps @ []"
    unfolding d(5) by (rule sample_stream)
  have "length [0xC0 :: byte] \<le> 1048576" by simp
  from seeder_completes_download [OF sample_context_ok small sound_first(1) [OF sample_context_ok sample_download_ok(1-4)]
      d(1,2,6,3,4) sample_network_ready(1) net sample_network_ready(2) bits(1) this bits(2) sample_handshake(1) answer rx]
  show ?thesis by simp
qed

section \<open>A choked request\<close>

text \<open>
  A peer that chokes the client discards the requests it has not answered. The client keeps
  regarding its request as pending, so that it asks for nothing after the next unchoke.
\<close>

definition outstanding :: "session \<Rightarrow> bool" where
  "outstanding s \<longleftrightarrow> ds_request_pending (ss_piece s) \<and> pc_we_are_interested (ss_conn s) \<and>
     ds_bytes_received (ss_piece s) \<noteq> ds_piece_size (ss_piece s)"

text \<open>The messages of a peer that does not answer the request.\<close>

definition unanswered :: "piece_download_state \<Rightarrow> frame list \<Rightarrow> bool" where
  "unanswered st fs \<longleftrightarrow> list_all (\<lambda>f. valid_frame f \<and> (\<forall>blk. \<not> answers_request st f blk)) fs"

lemma request_block_quiet: "outstanding s \<Longrightarrow> request_block ctx fd s = Some r \<Longrightarrow> r = Go s \<or> r = Leave s"
  by (auto simp: outstanding_def request_block_def send_next_request_def Let_def bind_eq_Some_conv
      split: option.splits if_splits)

text \<open>No message but the answer touches the piece, and none takes back the client's interest.\<close>

lemma interest_kept:
  "update_bitfield (Some c) p l n h = Some (ok, Some c', h') \<Longrightarrow> pc_we_are_interested c' = pc_we_are_interested c"
  "bitfield_applied (Some c) p l n h = Some (ok, Some c', h') \<Longrightarrow> pc_we_are_interested c' = pc_we_are_interested c"
  by (auto simp: update_bitfield_def bitfield_applied_def Let_def bind_eq_Some_conv
      split: option.splits if_splits prod.splits bool.splits)

lemma dispatch_quiet:
  assumes s: "outstanding s" "ds_piece_buffer (ss_piece s) = Some buf" and m: "deliverable (ss_message s)"
    and none: "\<forall>blk. \<not> answers_request (ss_piece s) (frame_of (ss_message s)) blk"
    and run: "dispatch_message ctx s = Some (ok, s')"
  shows "outstanding s' \<and> ss_piece s' = ss_piece s \<and> ss_socket s' = ss_socket s"
proof -
  have "process_incoming_piece_message (Some (ss_piece s)) (Some (ss_message s)) = Some (False, Some (ss_piece s))"
    if "msg_id (ss_message s) = PEER_MESSAGE_PIECE"
    using process_piece_run(2) [OF _ that _ _ s(2)] m none by (simp add: deliverable_def)
  then show ?thesis
    using s(1) run
    by (cases "msg_id (ss_message s)")
      (auto simp: dispatch_message_def outstanding_def bind_eq_Some_conv dest: interest_kept)
qed

lemma quiet_turn:
  assumes fd: "0 \<le> fd" and s: "outstanding s" "ds_piece_buffer (ss_piece s) = Some buf"
    and fs: "unanswered (ss_piece s) fs" "parse_frame rest = None" "stream (sk_rx (ss_socket s)) = wire_of fs @ rest"
    and run: "iteration ctx fd s = Some r"
  shows "sk_sent (ss_socket (flow_state r)) = sk_sent (ss_socket s) \<and> ss_piece (flow_state r) = ss_piece s \<and>
    (\<forall>s'. r = Go s' \<longrightarrow> outstanding s' \<and>
       (\<exists>gs. unanswered (ss_piece s) gs \<and> stream (sk_rx (ss_socket s')) = wire_of gs @ rest))"
proof -
  let ?h = "free (msg_payload (ss_message s) = None) (ss_heap s)"
  obtain ok m sock h where recv: "receive_peer_wire_message fd (Some blank_message) (ss_socket s) ?h = Some (ok, Some m, sock, h)"
    "sk_sent sock = sk_sent (ss_socket s)" "wf_message m"
    "ok \<longrightarrow> parse_frame (wire_of fs @ rest) = Some (frame_of m, stream (sk_rx sock)) \<and> valid_frame (frame_of m)"
    using receive_frame [OF fd, of "ss_socket s" ?h] fs(3) by (metis (full_types))
  let ?s = "s\<lparr>ss_message := m, ss_socket := sock, ss_heap := h\<rparr>"
  have start: "outstanding ?s" using s(1) by (simp add: outstanding_def)
  note code = iteration_def free_peer_wire_message_def Let_def recv(1)
  show ?thesis
  proof (cases ok)
    case False
    then show ?thesis using run recv(2) by (auto simp: code)
  next
    case True
    obtain f gs where f: "fs = f # gs" using recv(4) True fs(2) by (cases fs) (auto simp: wire_of_def)
    then have "parse_frame (wire_of fs @ rest) = Some (f, wire_of gs @ rest)" and gs: "unanswered (ss_piece s) gs"
      using parse_encode_frame [of f "wire_of gs @ rest"] fs(1)
      by (simp_all add: wire_of_def unanswered_def del: encode_frame.simps)
    then have m: "frame_of m = f" "stream (sk_rx sock) = wire_of gs @ rest" using recv(4) True by simp_all
    then have none: "\<forall>blk. \<not> answers_request (ss_piece s) (frame_of m) blk" using fs(1) f by (simp add: unanswered_def)
    show ?thesis
    proof (cases "msg_is_keep_alive m")
      case keep: True
      then show ?thesis using run True start recv(2) m(2) gs by (auto simp: code)
    next
      case False
      then have "deliverable m" using True recv(3,4) by (simp add: deliverable_def)
      moreover obtain ok' s1 where d: "dispatch_message ctx ?s = Some (ok', s1)"
        using run True False by (auto simp: code handle_message_def bind_eq_Some_conv)
      ultimately have s1: "outstanding s1" "ss_piece s1 = ss_piece s" "ss_socket s1 = sock"
        using dispatch_quiet [OF start, of buf] s(2) none by auto
      then have "complete_piece ctx s1 = Some (Go s1)" by (simp add: outstanding_def complete_piece_def Let_def)
      then have "r = Leave s1 \<or> request_block ctx fd s1 = Some r"
        using run True False d by (auto simp: code handle_message_def after_switch_def split: if_splits)
      then have "r = Leave s1 \<or> r = Go s1" using request_block_quiet [OF s1(1)] by blast
      then show ?thesis using s1 recv(2) m(2) gs by auto
    qed
  qed
qed

lemma quiet_loop:
  "0 \<le> fd \<Longrightarrow> outstanding s \<Longrightarrow> ds_piece_buffer (ss_piece s) = Some buf \<Longrightarrow> unanswered (ss_piece s) fs \<Longrightarrow>
   parse_frame rest = None \<Longrightarrow> stream (sk_rx (ss_socket s)) = wire_of fs @ rest \<Longrightarrow> session_loop ctx fd s = Some s' \<Longrightarrow>
   sk_sent (ss_socket s') = sk_sent (ss_socket s) \<and> ss_piece s' = ss_piece s"
proof (induction ctx fd s arbitrary: fs rule: session_loop.induct)
  case (1 ctx fd s)
  obtain r where r: "iteration ctx fd s = Some r" using 1(8) by (subst (asm) session_loop.simps) (auto split: option.splits)
  note step = quiet_turn [OF 1(2-7) r]
  show ?case
  proof (cases r)
    case (Leave t)
    then show ?thesis using step r 1(8) by (subst (asm) session_loop.simps) simp
  next
    case (Go t)
    then have run: "session_loop ctx fd t = Some s'" using r 1(8) by (subst (asm) session_loop.simps) simp
    obtain gs where gs: "unanswered (ss_piece s) gs" "stream (sk_rx (ss_socket t)) = wire_of gs @ rest" "outstanding t"
      using step Go by auto
    have "ss_piece t = ss_piece s" "sk_sent (ss_socket t) = sk_sent (ss_socket s)" using step Go by simp_all
    then show ?thesis using 1(1) [OF r Go 1(2) gs(3) _ _ 1(6) gs(2) run] 1(4) gs(1) by simp
  qed
qed

text \<open>
  C22: a request that has not been answered is never repeated on its connection. Whatever else the
  peer sends, and so also when it chokes the client, by which it drops the request, and
  unchokes it, the client sends nothing until the connection ends, and the request stays pending.
\<close>

theorem choke_forgets_request:
  assumes "wf_context ctx" and "fits (layout_of ctx)" and "0 \<le> fd" and "safe ctx base s" and "\<not> ss_complete s"
    and "outstanding s" and "unanswered (ss_piece s) fs" and "parse_frame rest = None"
    and "stream (sk_rx (ss_socket s)) = wire_of fs @ rest"
  shows "\<exists>s'. session_loop ctx fd s = Some s' \<and> sk_sent (ss_socket s') = sk_sent (ss_socket s) \<and> ss_piece s' = ss_piece s"
proof -
  obtain buf where "ds_piece_buffer (ss_piece s) = Some buf" using assms(4) by (auto simp: safe_def guarded_def)
  then show ?thesis
    using session_loop_safe [OF assms(1-5)] quiet_loop [OF assms(3,6) _ assms(7-9)] by blast
qed

text \<open>
  The peer has the first piece, has been asked for it, chokes, unchokes and says that it has the
  second piece: it is not asked again.
\<close>

definition dropping_frames :: "frame list" where
  "dropping_frames = [Frame PEER_MESSAGE_CHOKE [], Keep_Alive, Frame PEER_MESSAGE_UNCHOKE [], Frame PEER_MESSAGE_HAVE [0, 0, 0, 1]]"

definition waiting_session :: session where
  "waiting_session = (enter_peer 3 zero_peer (socket_with [Data (wire_of dropping_frames), Closed]) sample_download)
     \<lparr>ss_piece := requested (dl_piece sample_download), ss_heap := snd (malloc fresh_heap),
      ss_conn := \<lparr>pc_bitfield = Some [0x80], pc_bitfield_length = 1, pc_peer = zero_peer, pc_peer_choking_us = False,
        pc_we_are_interested = True, pc_socket = 3\<rparr>\<rparr>"

lemma waiting_session_safe: "safe sample_context 0 waiting_session"
proof -
  have "guarded sample_context (requested (dl_piece sample_download))"
    by (simp add: guarded_def requested_def request_length_def block_limit_def sample_download_def first_piece_state_def
        piece_room_def sample_context_def)
  moreover have "\<not> has_bit [0x80] j" if "2 \<le> j" "j < 8" for j
  proof -
    have "j = 2 \<or> j = 3 \<or> j = 4 \<or> j = 5 \<or> j = 6 \<or> j = 7" using that by linarith
    moreover have "\<not> has_bit [0x80] 2" "\<not> has_bit [0x80] 3" "\<not> has_bit [0x80] 4" "\<not> has_bit [0x80] 5"
      "\<not> has_bit [0x80] 6" "\<not> has_bit [0x80] 7" by code_simp+
    ultimately show ?thesis by auto
  qed
  then have "wf_connection (dc_piece_count sample_context) (ss_conn waiting_session)"
    by (simp add: wf_connection_def waiting_session_def bitfield_size_def sample_context_def)
  moreover have "live (snd (malloc fresh_heap)) = 1" by code_simp
  ultimately show ?thesis
    by (simp add: safe_def waiting_session_def enter_peer_def bitfield_blocks_def message_blocks_def blank_message_def
        sample_download_def sample_context_def requested_def first_piece_state_def)
qed

theorem choke_forgets_request_witness:
  "\<exists>s'. session_loop sample_context 3 waiting_session = Some s' \<and> sk_sent (ss_socket s') = [] \<and>
     ds_request_pending (ss_piece s')"
proof -
  have ctx: "fits (layout_of sample_context)" using consistent_fits [OF sample_context_ok(2)] .
  have s: "outstanding waiting_session" "\<not> ss_complete waiting_session" "sk_sent (ss_socket waiting_session) = []"
    "ds_request_pending (ss_piece waiting_session)"
    by (simp_all add: outstanding_def waiting_session_def enter_peer_def requested_def sample_download_def
        first_piece_state_def socket_with_def)
  have fs: "unanswered (ss_piece waiting_session) dropping_frames"
    by (auto simp: unanswered_def dropping_frames_def answers_request_def piece_frame_def)
  have "wire_of dropping_frames \<noteq> []" by code_simp
  then have rx: "stream (sk_rx (ss_socket waiting_session)) = wire_of dropping_frames @ []"
    by (simp add: waiting_session_def enter_peer_def socket_with_def)
  have "parse_frame [] = None" by (simp add: parse_frame_def)
  from choke_forgets_request [OF sample_context_ok(1) ctx _ waiting_session_safe s(2,1) fs this rx, of 3] s(3,4)
  show ?thesis by auto
qed

end
