(* ===== verification/Main_Live.thy ===== *)
theory Main_Live
  imports Main_Program Download_Live
begin

text \<open>
  The program does its job: when the file is a consistent torrent, the libraries and the system
  do not fail, the tracker answers with peers, and the first of them that can be reached has the
  file, the program ends with exit code 0 and the file on disk.
\<close>

section \<open>Peers that cannot be reached and peers that have the file\<close>

definition unreachable :: "connect_answers \<Rightarrow> peer \<Rightarrow> bool" where
  "unreachable a p \<longleftrightarrow>
     ca_socket a < 0 \<or> ca_connect a (socket_address p) = - 1 \<and> (\<not> ca_in_progress a \<or> ca_poll a \<le> 0)"

definition seeds :: "byte list \<Rightarrow> size_t \<Rightarrow> byte list list \<Rightarrow> socket \<Rightarrow> bool" where
  "seeds info_hash piece_count ps sock \<longleftrightarrow>
     sends_ready (sk_tx sock) \<and>
     (\<exists>bs answer rest.
        valid_bitfield piece_count bs \<and> length bs \<le> 1048576 \<and> (\<forall>j < unat piece_count. has_bit bs j) \<and>
        length answer = 68 \<and> answers_handshake info_hash answer \<and>
        stream (sk_rx sock) = answer @ seed_stream 0 bs ps @ rest)"

lemma unreachable_connect:
  assumes "unreachable a p" "ca_socket a \<notin> fds"
  shows "connect_to_peer a (Some p) fds = (- 1, fds)"
  using assms by (auto simp: unreachable_def connect_to_peer_def close_fd_def Let_def)

lemma peers_loop_unreachable:
  assumes "\<forall>(p, net) \<in> set before. unreachable (pn_connect net) p \<and> fresh_socket net (dl_fds d)"
    and "\<not> dl_complete d" "reset_piece (dl_piece d) = dl_piece d"
  shows "peers_loop ctx (before @ peers) d = peers_loop ctx peers d"
  using assms
proof (induction before)
  case (Cons x before)
  obtain p net where x: "x = (p, net)" by fastforce
  have "connect_to_peer (pn_connect net) (Some p) (dl_fds d) = (- 1, dl_fds d)"
    using Cons.prems(1) x unreachable_connect by (simp add: fresh_socket_def)
  then have "fetch_from_peer ctx p net d = Some d" using Cons.prems(3) by (simp add: fetch_from_peer_def)
  then show ?case using Cons x by simp
qed simp

lemma peers_loop_done: "dl_complete d \<Longrightarrow> peers_loop ctx peers d = Some d"
  by (cases peers) auto

section \<open>The download stage succeeds\<close>

text \<open>The peers before the \<open>k\<close>-th cannot be reached, and the \<open>k\<close>-th has the file.\<close>

definition served :: "environment \<Rightarrow> byte list \<Rightarrow> size_t \<Rightarrow> byte list list \<Rightarrow> peer list \<Rightarrow> bool" where
  "served env info_hash piece_count pieces ps \<longleftrightarrow>
     (\<exists>k < length ps.
        (\<forall>i < k. unreachable (pn_connect (env_network env i)) (ps ! i)) \<and>
        connects (pn_connect (env_network env k)) (ps ! k) \<and>
        seeds info_hash piece_count pieces (pn_socket (env_network env k)))"

lemma first_piece_nonzero:
  assumes "0 < unat (dc_total_file_size ctx)" "0 < unat (dc_normal_piece_size ctx)"
  shows "first_piece_size ctx \<noteq> 0"
  using assms by (auto simp: first_piece_size_def)

lemma unat_positive: "0 < sint w \<Longrightarrow> 0 < unat w" for w :: int64
  using nat_sint [of w] by (metis order_less_imp_le zero_less_nat_eq)

text \<open>
  A torrent that can be fetched from the peers \<open>ps\<close>: its fields fit together, the file can be
  created, written and flushed to the disk, and one of the peers serves \<open>pieces\<close>, which have the torrent's hashes.
\<close>

definition downloadable ::
  "environment \<Rightarrow> torrent \<Rightarrow> byte list \<Rightarrow> byte list list \<Rightarrow> peer list \<Rightarrow> bool" where
  "downloadable env t info_hash pieces ps \<longleftrightarrow>
     torrent_consistent t \<and> 20 \<le> length (piece_hashes t) \<and> 0 < file_length t \<and>
     env_create env (c_string (file_name t)) \<and> env_seeks env = [] \<and> env_writes env = [] \<and>
     (\<forall>f. snd (env_close env f) = f) \<and>
     seeded (torrent_layout (env_sha1 env) t) pieces \<and> addressable (torrent_layout (env_sha1 env) t) \<and>
     served env info_hash (of_nat (length (piece_hashes t) div 20)) pieces ps"

lemma first_download_ready:
  assumes "usable m" "downloadable env (abs_torrent m) ih pieces ps"
  shows "fresh_piece (dl_piece (first_download env (context_of env (tm_info m) ih' pid) h fds))"
    and "reset_piece (dl_piece (first_download env ctx h fds)) = dl_piece (first_download env ctx h fds)"
    and "healthy (dl_disk (first_download env ctx h fds))"
proof -
  let ?ctx = "context_of env (tm_info m) ih' pid"
  have "0 < unat (dc_total_file_size ?ctx)" "0 < unat (dc_normal_piece_size ?ctx)"
    using assms unat_positive [of "ti_length (tm_info m)"] unat_positive [of "ti_piece_length (tm_info m)"]
    by (simp_all add: context_of_def usable_def downloadable_def abs_torrent_def)
  note nonzero = first_piece_nonzero [OF this]
  then show "fresh_piece (dl_piece (first_download env ?ctx h fds))"
    by (simp add: fresh_piece_def first_download_def first_piece_state_def Let_def)
  show "healthy (dl_disk (first_download env ctx h fds))"
    using assms(2) by (simp add: healthy_def first_download_def downloadable_def Let_def)
  show "reset_piece (dl_piece (first_download env ctx h fds)) = dl_piece (first_download env ctx h fds)"
    by (simp add: first_download_def first_piece_state_def reset_piece_eq Let_def)
qed

text \<open>The first peer that is reached is asked for everything.\<close>

lemma fetch_first:
  assumes ctx: "wf_context ctx" "consistent (layout_of ctx)"
    and d: "sound_download ctx d" "abs_download ctx d = start" "fresh_piece (dl_piece d)" "healthy (dl_disk d)"
    and good: "addressable (layout_of ctx) \<and> seeded (layout_of ctx) pieces"
      "\<not> dl_complete d \<and> plentiful (dl_heap d) \<and> fresh_socket net (dl_fds d)"
    and net: "connects (pn_connect net) p" "seeds (dc_info_hash ctx) (dc_piece_count ctx) pieces (pn_socket net)"
  shows "\<exists>d'. fetch_from_peer ctx p net d = Some d' \<and> dl_complete d' \<and> dk_contents (dl_disk d') = concat pieces"
proof -
  have "ft_pieces (abs_download ctx d) = []" using d(2) by (simp add: start_def)
  then have idx: "unat (ds_piece_index (dl_piece d)) = 0" by (simp add: abs_fetch_def)
  then have none: "ft_pieces (abs_download ctx d) = take (unat (ds_piece_index (dl_piece d))) pieces"
    using d(2) by (simp add: start_def)
  obtain bs answer rest where seeder: "sends_ready (sk_tx (pn_socket net))" "valid_bitfield (dc_piece_count ctx) bs"
    "length bs \<le> 1048576" "\<forall>j < unat (dc_piece_count ctx). has_bit bs j" "length answer = 68"
    "answers_handshake (dc_info_hash ctx) answer"
    "stream (sk_rx (pn_socket net)) = answer @ seed_stream (unat (ds_piece_index (dl_piece d))) bs pieces @ rest"
    using net(2) idx by (auto simp: seeds_def)
  from good have parts: "addressable (layout_of ctx)" "seeded (layout_of ctx) pieces" "\<not> dl_complete d" "plentiful (dl_heap d)"
    "fresh_socket net (dl_fds d)" by simp_all
  show ?thesis
    by (rule fetch_from_seeder [OF ctx parts(1,2) d(1) parts(3) d(3) none parts(4) d(4) net(1) parts(5) seeder])
qed

lemma main_download_succeeds:
  assumes doc: "sha1_documented (env_sha1 env)" "\<forall>i. fresh_socket (env_network env i) (rs_fds r)"
    and m: "usable m" and ids: "length ih = 20" "length pid = 20"
    and peers: "pa_peers peers = Some ps" "unat (pa_count peers) = length ps"
    and mem: "plentiful h" and get: "downloadable env (abs_torrent m) ih pieces ps"
  shows "\<exists>oc. main_download env (tm_info m) ih pid peers release h r = Some oc \<and> oc_exit oc = 0 \<and>
    oc_file oc = Some (concat pieces)"
proof -
  let ?ctx = "context_of env (tm_info m) ih pid"
  define tries where "tries = map (\<lambda>i. (ps ! i, env_network env i)) [0..<length ps]"
  have tries: "peers_to_try env peers = Some tries" using peers by (simp add: peers_to_try_def Let_def tries_def)
  obtain h1 where alloc: "malloc h = (True, h1)" "plentiful h1" using plentiful_malloc [OF mem] by blast
  note run = main_download_run [OF m tries alloc(1) refl, of ih pid release r]
  have wf: "wf_context ?ctx" by (rule context_ok [OF m ids doc(1)])
  have torrent: "torrent_consistent (abs_torrent m)" "20 \<le> length (piece_hashes (abs_torrent m))"
    using get by (simp_all add: downloadable_def)
  note layout = context_consistent [OF m torrent]
  have count: "of_nat (length (piece_hashes (abs_torrent m)) div 20) = dc_piece_count ?ctx"
    using context_count [OF m, of env ih pid] by (metis of_nat_unat ucast_id)
  have hash: "dc_info_hash ?ctx = ih" by (simp add: context_of_def)
  obtain k where k: "k < length ps" "\<forall>i < k. unreachable (pn_connect (env_network env i)) (ps ! i)"
    "connects (pn_connect (env_network env k)) (ps ! k)"
    "seeds (dc_info_hash ?ctx) (dc_piece_count ?ctx) pieces (pn_socket (env_network env k))"
    using get count hash by (auto simp: downloadable_def served_def)
  let ?net = "env_network env k" and ?d = "first_download env ?ctx h1 (rs_fds r)"
  note first = first_download_sound [OF wf layout(2), of env h1 "rs_fds r"]
  have fresh: "fresh_piece (dl_piece ?d)" "reset_piece (dl_piece ?d) = dl_piece ?d" "healthy (dl_disk ?d)"
    using first_download_ready [OF m get] by simp_all
  obtain d where d: "fetch_from_peer ?ctx (ps ! k) ?net ?d = Some d" "dl_complete d" "dk_contents (dl_disk d) = concat pieces"
    using fetch_first [OF wf layout(2) first fresh(1,3) _ _ k(3,4)] get alloc(2) doc(2)
    by (auto simp: layout(1) downloadable_def)
  have split: "tries = take k tries @ (ps ! k, ?net) # drop (Suc k) tries"
    using k(1) id_take_nth_drop [of k tries] by (simp add: tries_def)
  have before: "\<forall>(p, net) \<in> set (take k tries). unreachable (pn_connect net) p \<and> fresh_socket net (dl_fds ?d)"
    using k(1,2) doc(2) by (auto simp: tries_def take_map)
  have "peers_loop ?ctx tries ?d = peers_loop ?ctx ((ps ! k, ?net) # drop (Suc k) tries) ?d"
    by (subst split) (rule peers_loop_unreachable [OF before _ fresh(2)], simp)
  then have "peers_loop ?ctx tries ?d = Some d" using d(1,2) peers_loop_done by simp
  moreover have "dc_piece_count ?ctx \<noteq> 0" using layout(2) [of env ih pid] by (auto simp: consistent_def)
  ultimately show ?thesis using d get by (simp add: run finish_download_def fclose_eq exits_def downloadable_def)
qed

section \<open>The tracker stage succeeds\<close>

text \<open>The tracker answers every request with an interval and the compact form of \<open>ps\<close>.\<close>

definition answers_with :: "curl \<Rightarrow> peer list \<Rightarrow> bool" where
  "answers_with curl ps \<longleftrightarrow>
     (\<exists>answer es.
        (\<forall>url. concat (fst (easy_perform curl url)) = answer) \<and> length answer < 2 ^ 57 \<and>
        bencodes (BDict es) answer \<and> integer_field (BDict es) ''interval'' \<noteq> None \<and>
        string_field (BDict es) ''peers'' = Some (concat (map peer_bytes ps)))"

text \<open>The strings in a value are not longer than its encoding.\<close>

lemma entry_encoding: "bencodes_entries es bs \<Longrightarrow> (k, v) \<in> set es \<Longrightarrow> \<exists>b. bencodes v b \<and> length b \<le> length bs"
proof (induction es arbitrary: bs)
  case (Cons e es)
  obtain k' v' where "e = (k', v')" by fastforce
  with Cons.prems(1) obtain ks b cs where "bs = ks @ b @ cs" "bencodes v' b" "bencodes_entries es cs"
    by (auto elim!: entries_ConsE)
  then show ?case using Cons \<open>e = (k', v')\<close> by fastforce
qed simp

lemma string_field_length:
  assumes "bencodes v bs" "string_field v key = Some s"
  shows "length s \<le> length bs"
proof -
  have f: "field v key BYTE_STRING = Some (BString s)"
    using assms(2) by (auto simp: string_field_def split: option.splits bvalue.splits)
  then obtain es where v: "v = BDict es" by (cases v) (auto simp: field_def)
  obtain cs where "bencodes_entries es cs" "length cs \<le> length bs" using assms(1) v by (auto elim: bencodes_dictE)
  moreover have "(bytes_of key, BString s) \<in> set es"
    using f v by (auto simp: field_def split: option.splits if_splits dest: map_of_SomeD)
  ultimately obtain b where "bencodes (BString s) b" "length b \<le> length bs" using entry_encoding by fastforce
  then show ?thesis by (auto elim!: bencodes_stringE simp: string_text_def)
qed

lemma length_peer_bytes: "length (concat (map peer_bytes ps)) = 6 * length ps"
  by (induction ps) (simp_all add: peer6.length_encode)

lemma compact_peers_extracted:
  assumes y: "abs_object y = BString (concat (map peer_bytes ps))" "faithful inp y"
    and ps: "ps \<noteq> []" "length ps < 2 ^ 57" and mem: "plentiful h"
  shows "\<exists>out h'. extract_peers inet_pton y h = Some (True, Some out, h') \<and> pa_peers out = Some ps \<and>
    unat (pa_count out) = length ps \<and> plentiful h'"
proof -
  obtain s where s: "obj_value y = Byte_String s" "valid_segment s" "seg_bytes s = concat (map peer_bytes ps)"
    using y by (cases y, cases "obj_value y") (auto simp: valid_segment_def)
  then have len: "unat (seg_length s) = 6 * length ps" using length_seg_bytes [of s] length_peer_bytes [of ps] by simp
  obtain h' where h': "malloc h = (True, h')" "plentiful h'" using plentiful_malloc [OF mem] by blast
  have "length (concat (map peer_bytes ps)) \<noteq> 0" using ps(1) by (simp only: length_peer_bytes) simp
  then have "concat (map peer_bytes ps) \<noteq> []" by (metis list.size(3))
  then show ?thesis
    using peers_extract_compact_run [OF s(2), of no_peers h] len h' ps(2) peer6.decode_records [of ps]
    by (simp add: extract_peers_def s length_peer_bytes unat_of_nat_size)
qed

lemma main_tracker_succeeds:
  assumes doc: "sha1_documented (env_sha1 env)" "\<forall>i. fresh_socket (env_network env i) (rs_fds r)"
    and m: "usable m" and ids: "length ih = 20" "length pid = 20"
    and response: "consistent_response response" "length (response_bytes response) < 2 ^ 57"
      "bencodes (BDict es) (response_bytes response)" "integer_field (BDict es) ''interval'' \<noteq> None"
      "string_field (BDict es) ''peers'' = Some (concat (map peer_bytes ps))"
    and mem: "plentiful h" and get: "downloadable env (abs_torrent m) ih pieces ps"
  shows "\<exists>oc. main_tracker env (tm_info m) ih pid obj buffer response h r = Some oc \<and> oc_exit oc = 0 \<and>
    oc_file oc = Some (concat pieces)"
proof -
  have ps: "ps \<noteq> []" using get by (auto simp: downloadable_def served_def)
  have short: "length ps < 2 ^ 57"
    using string_field_length [OF response(3,5)] response(2) by (simp add: length_peer_bytes)
  obtain x h1 where x: "tracker_response_parse (Some response) (Some blank_object) h = Some (True, Some x, h1)"
    "abs_object x = BDict es" "plentiful h1"
    using response_parse_complete [OF response(1,2) mem response(3)] by blast
  then have f: "faithful (response_bytes response) x"
    using response_parse_run [OF response(1), of blank_object h] by auto
  obtain i where interval: "find_interval (Some x) (Some 0) = Some (True, Some i)"
    using find_interval_eq [OF f, of 0] x(2) response(4) by auto
  have "field (BDict es) ''peers'' BYTE_STRING = Some (BString (concat (map peer_bytes ps)))"
    using response(5) by (auto simp: string_field_def split: option.splits bvalue.splits)
  then obtain y where y: "find_peers (Some x) (Some None) = Some (True, Some (Some y))"
    "abs_object y = BString (concat (map peer_bytes ps))" "faithful (response_bytes response) y"
    using find_peers_spec [OF f, of None] x(2) by (auto simp: peers_field_def orelse_def)
  obtain out h2 where out: "extract_peers (env_inet_pton env) y h1 = Some (True, Some out, h2)"
    "pa_peers out = Some ps" "unat (pa_count out) = length ps" "plentiful h2"
    using compact_peers_extracted [OF y(2,3) ps short x(3)] by blast
  have "pa_count out \<noteq> 0" using out(3) ps by auto
  then show ?thesis
    using x(1) interval y(1) out(1) main_download_succeeds [OF doc m ids out(2,3,4) get]
    by (simp add: main_tracker_def main_peers_def)
qed

section \<open>The torrent stage and the whole program\<close>

text \<open>Everything that is not a peer does what it should.\<close>

definition system_works :: "environment \<Rightarrow> bool" where
  "system_works env \<longleftrightarrow>
     env_argc env = 2 \<and> file_readable (env_open env (env_argv env ! 1)) \<and>
     evp_ctx_new (env_evp env) \<and> evp_digest_init (env_evp env) = 1 \<and> evp_digest_update (env_evp env) = 1 \<and>
     evp_digest_final (env_evp env) = 1 \<and> evp_digest_length (env_evp env) = 20 \<and>
     rand_code (env_random env) = 1 \<and> curl_works (env_curl env)"

text \<open>The bytes of the file that encode its info dictionary.\<close>

definition info_encoding :: "byte list \<Rightarrow> byte list \<Rightarrow> bool" where
  "info_encoding bs ib \<longleftrightarrow>
     (\<exists>v n info a c. bencodes v (take n bs) \<and> field v ''info'' DICTIONARY = Some info \<and> bencodes info ib \<and>
        bs = a @ ib @ c)"

lemma info_bytes_in: "\<exists>a c. bs = a @ info_bytes bs m @ c"
proof -
  let ?s = "unat (span_start (ti_info_span (tm_info m)))" and ?n = "unat (span_length (ti_info_span (tm_info m)))"
  have "bs = take ?s bs @ info_bytes bs m @ drop ?n (drop ?s bs)"
    unfolding info_bytes_def by (metis append_take_drop_id)
  then show ?thesis by blast
qed

lemma info_hash_succeeds:
  assumes "system_works env" "sha1_documented (evp_sha1 (env_evp env))" "read_bytes p (unat n) = Some bs"
  shows "compute_info_hash (env_evp env) p n (Some old) contexts = Some (True, Some (evp_sha1 (env_evp env) bs), contexts)"
proof -
  have "p \<noteq> NULL" using assms(3) by auto
  then show ?thesis
    using info_hash_run [OF assms(2,3), of old contexts] assms(1,3)
    by (auto simp: compute_info_hash_def Let_def system_works_def store_bytes_def sha1_documented_def split: if_splits)
qed

lemma main_announce_succeeds:
  assumes doc: "documented env r" and works: "system_works env"
    and m: "usable m" "seg_bytes (tm_announce m) \<noteq> []" "length (seg_bytes (tm_announce m)) < 2 ^ 57"
    and ids: "length ih = 20" "length pid = 20"
    and mem: "plentiful h" and tracker: "answers_with (env_curl env) ps"
    and get: "downloadable env (abs_torrent m) ih pieces ps"
  shows "\<exists>oc. main_announce env m ih pid obj buffer h r = Some oc \<and> oc_exit oc = 0 \<and> oc_file oc = Some (concat pieces)"
proof -
  let ?q = "announce_request (tm_info m) ih pid"
  have sha1: "sha1_documented (env_sha1 env)" and sockets: "\<forall>i. fresh_socket (env_network env i) (rs_fds r)"
    and libcurl: "escape_documented (env_curl env)" "perform_documented (env_curl env)"
    using doc by (simp_all add: documented_def)
  have a: "valid_segment (tm_announce m)" using m(1) by (simp add: usable_def readable_metadata_def)
  have segment: "0 < seg_length (tm_announce m)" "unat (seg_length (tm_announce m)) < 2 ^ 62"
    using length_seg_bytes [OF a] length_greater_0_conv [THEN iffD2, OF m(2)] m(3) by (simp_all add: word_less_nat_alt)
  have q: "wf_request ?q" "\<forall>v. tr_event ?q \<noteq> EVENT_VALUE v" using ids by (simp_all add: wf_request_def announce_request_def)
  obtain answer es where answer: "\<And>url. concat (fst (easy_perform (env_curl env) url)) = answer" "length answer < 2 ^ 57"
    "bencodes (BDict es) answer" "integer_field (BDict es) ''interval'' \<noteq> None"
    "string_field (BDict es) ''peers'' = Some (concat (map peer_bytes ps))"
    using tracker unfolding answers_with_def by blast
  have curl: "curl_works (env_curl env)" and fits: "length answer < 2 ^ 64" using works answer(2) by (simp_all add: system_works_def)
  obtain out h1 where out: "tracker_announce (env_curl env) (Some (tm_announce m)) (Some ?q)
      (Some \<lparr>rb_data = None, rb_length = 0\<rparr>) h = Some (True, Some out, h1)"
    "consistent_response out" "response_bytes out = answer" "plentiful h1"
    using announce_succeeds [OF a segment libcurl curl q mem answer(1) fits] by blast
  have "\<exists>oc. main_tracker env (tm_info m) ih pid obj buffer out h1 r = Some oc \<and> oc_exit oc = 0 \<and>
      oc_file oc = Some (concat pieces)"
    using answer(2-5) get unfolding out(3) [symmetric]
    by (intro main_tracker_succeeds [OF sha1 sockets m(1) ids out(2) _ _ _ _ out(4)])
  then show ?thesis using out(1) by (simp add: main_announce_def)
qed

lemma main_torrent_succeeds:
  assumes doc: "documented env r" and works: "system_works env"
    and obj: "faithful bs obj" "length bs < 2 ^ 57" "bencodes (abs_object obj) (take n bs)"
    and t: "torrent_of (abs_object obj) = Some t" "announce_url t \<noteq> []"
    and mem: "plentiful h" and tracker: "answers_with (env_curl env) ps"
    and ih: "\<And>ib. info_encoding bs ib \<Longrightarrow> evp_sha1 (env_evp env) ib = ih"
    and get: "downloadable env t ih pieces ps"
  shows "\<exists>oc. main_torrent env (torrent_buffer bs) obj h r = Some oc \<and> oc_exit oc = 0 \<and> oc_file oc = Some (concat pieces)"
proof -
  obtain m info where m: "torrent_metadata_extract (Some obj) (Some blank_metadata) = Some (True, Some m)"
    "t = abs_torrent m" "info_in_bounds bs m" "readable_metadata m"
    "field (abs_object obj) ''info'' DICTIONARY = Some info" "bencodes info (info_bytes bs m)"
    using extract_spec [OF obj(1), of blank_metadata] t(1) by auto
  have usable: "usable m" using extracted_bounds [OF obj(1) m(1)] by (simp add: usable_def)
  have len: "length bs < 2 ^ 63" using obj(2) by simp
  note span = info_span_in_range [OF m(3) len]
  have sha1: "sha1_documented (evp_sha1 (env_evp env))" and rand: "rand_documented (env_random env)"
    using doc by (simp_all add: documented_def)
  have "info_encoding bs (info_bytes bs m)"
    unfolding info_encoding_def using obj(3) m(5,6) info_bytes_in by blast
  then have eq: "evp_sha1 (env_evp env) (info_bytes bs m) = ih" by (rule ih)
  have hash: "compute_info_hash (env_evp env) (Ptr bs (unat (span_start (ti_info_span (tm_info m)))))
      (span_length (ti_info_span (tm_info m))) (Some (replicate 20 0)) (rs_contexts r) = Some (True, Some ih, rs_contexts r)"
    and lih: "length ih = 20"
    using info_hash_succeeds [OF works sha1 span(4)] sha1 unfolding eq [symmetric]
    by (simp_all add: sha1_documented_def)
  define pid where "pid = PEER_ID_PREFIX @ rand_bytes (env_random env)"
  have pid: "generate_peer_id (env_random env) (Some (replicate 20 0)) = Some (True, Some pid)" and lpid: "length pid = 20"
    using peer_id_run [OF rand, of "replicate 20 0"] rand works length_peer_id_prefix
    by (simp_all add: pid_def system_works_def rand_documented_def)
  have url: "seg_bytes (tm_announce m) = announce_url t" by (simp add: m(2) abs_torrent_def)
  have "string_field (abs_object obj) ''announce'' = Some (announce_url t)"
    using t(1) by (auto simp: torrent_of_def bind_eq_Some_conv)
  then have "length (announce_url t) < 2 ^ 57" using string_field_length [OF obj(3)] obj(2) by fastforce
  then have "\<exists>oc. main_announce env m ih pid obj (torrent_buffer bs) h r = Some oc \<and> oc_exit oc = 0 \<and>
      oc_file oc = Some (concat pieces)"
    using t(2) get url m(2) by (intro main_announce_succeeds [OF doc works usable _ _ lih lpid mem tracker]) simp_all
  then show ?thesis
    using m(1) span hash pid by (simp add: main_torrent_def Let_def torrent_buffer_def)
qed

lemma main_program_succeeds:
  assumes doc: "documented env r" and works: "system_works env" and mem: "plentiful (rs_heap r)"
    and torrent: "length (torrent_file env) < 2 ^ 57" "torrent_in (torrent_file env) t" "announce_url t \<noteq> []"
    and tracker: "answers_with (env_curl env) ps"
    and ih: "\<And>ib. info_encoding (torrent_file env) ib \<Longrightarrow> evp_sha1 (env_evp env) ib = ih"
    and get: "downloadable env t ih pieces ps"
  shows "\<exists>oc. main_program env r = Some oc \<and> oc_exit oc = 0 \<and> oc_file oc = Some (concat pieces)"
proof -
  let ?bs = "torrent_file env" and ?b = "torrent_buffer (torrent_file env)"
  define path where "path = env_argv env ! 1"
  have argv: "cli_arguments_valid (env_argc env) (env_argv env) (Some None) = Some (True, Some (Some path))"
    using doc works by (simp add: cli_arguments_valid_def documented_def system_works_def path_def)
  have bs: "?bs = if_contents (env_open env path)" by (simp add: torrent_file_def path_def)
  have regular: "regular_file (env_open env path)" using doc by (simp add: documented_def)
  have readable: "file_readable (env_open env path)" using works by (simp add: system_works_def path_def)
  obtain h1 where read: "read_byte_buffer_from_file (env_open env) (Some path) (Some empty_buffer)
      (rs_heap r) (rs_files r) = Some (True, Some ?b, h1, rs_files r)" and h1: "plentiful h1"
    using read_file_succeeds [where fopen = "env_open env", OF regular readable mem, of empty_buffer "rs_files r"]
    unfolding bs torrent_buffer_def by blast
  have "length ?bs < 2 ^ 63" using torrent(1) by simp
  then obtain p where init: "bencode_parser_init (response_ptr (Some ?bs)) (of_nat (length ?bs)) = Some p"
    and p: "wf_parser p" "remaining p = ?bs" "input p = ?bs"
    using parse_file by metis
  obtain v n where v: "bencodes v (take n ?bs)" "torrent_of v = Some t" using torrent(2) by (auto simp: torrent_in_def)
  obtain obj q h2 where parse: "parse_bencode_buffer p h1 = Some (Some obj, q, h2)" "abs_object obj = v" "plentiful h2"
    using parse_bencode_buffer_complete [OF p(1) _ h1 v(1), of "drop n ?bs"] p torrent(1) by auto
  have f: "faithful ?bs obj" using parse_success_faithful(1) [OF p(1) parse(1)] p(3) by simp
  have "\<exists>oc. main_torrent env ?b obj h2 r = Some oc \<and> oc_exit oc = 0 \<and> oc_file oc = Some (concat pieces)"
    using v parse(2) by (intro main_torrent_succeeds [OF doc works f torrent(1) _ _ torrent(3) parse(3) tracker ih get]) simp_all
  then show ?thesis
    using argv read init parse(1) by (simp add: main_program_def main_parse_def Let_def torrent_buffer_def)
qed

section \<open>Properties\<close>

text \<open>
  C3: the program downloads the file. On a machine where no call fails, given a torrent whose
  fields fit together, a tracker that answers with peers, and among them one that has
  the file and serves it while those before it cannot be reached, the program ends with
  exit code 0 and the output file is the concatenation of the pieces.
\<close>

theorem program_completes:
  assumes "documented env r" and "system_works env" and "plentiful (rs_heap r)"
    and "length (torrent_file env) < 2 ^ 57" and "torrent_in (torrent_file env) t" and "announce_url t \<noteq> []"
    and "answers_with (env_curl env) ps"
    and "\<forall>ib. info_encoding (torrent_file env) ib \<longrightarrow> evp_sha1 (env_evp env) ib = info_hash"
    and "downloadable env t info_hash pieces ps"
  shows "\<exists>oc. main_program env r = Some oc \<and> oc_exit oc = 0 \<and> oc_file oc = Some (concat pieces)"
  using assms(8) by (intro main_program_succeeds [OF assms(1-7) _ assms(9)]) blast

definition sample_peer :: peer where
  "sample_peer = \<lparr>ipv4_address = (127, 0, 0, 1), peer_port = 6881\<rparr>"

definition sample_answer_value :: bvalue where
  "sample_answer_value = BDict [(bytes_of ''interval'', BInt 900), (bytes_of ''peers'', BString (peer_bytes sample_peer))]"

lemma sample_answers: "answers_with (env_curl sample_env) [sample_peer]"
proof -
  have "wf_value sample_answer_value"
    by (simp add: sample_answer_value_def bytes_of_def chr_def peer6.length_encode)
  moreover have enc: "encode sample_answer_value = sample_answer" by code_simp
  ultimately have "bencodes sample_answer_value sample_answer" using encode_bencodes(1) by metis
  moreover have "integer_field sample_answer_value ''interval'' \<noteq> None" "length sample_answer = 32"
    "string_field sample_answer_value ''peers'' = Some (peer_bytes sample_peer)"
    by code_simp+
  moreover have "concat (fst (easy_perform (env_curl sample_env) url)) = sample_answer" for url
    by (simp add: sample_env_def)
  ultimately show ?thesis
    unfolding answers_with_def sample_answer_value_def by (intro exI conjI allI) simp_all
qed

lemma sample_downloadable:
  "downloadable sample_env sample_torrent_of (replicate 20 7) [[1, 2], [3]] [sample_peer]"
proof -
  have "seeds (replicate 20 7) 2 [[1, 2], [3]] (pn_socket sample_network)"
    unfolding seeds_def
    using sample_network_ready(2) sample_bits(2)
    by (intro conjI exI [of _ "[0xC0]"] exI [of _ "handshake_bytes (replicate 20 7) (replicate 20 9)"] exI [of _ "[]"]
        sample_bits(1) sample_handshake sample_stream) simp_all
  then have "served sample_env (replicate 20 7) 2 [[1, 2], [3]] [sample_peer]"
    using sample_network_ready(1) by (simp add: served_def sample_env_def)
  moreover have "seeded (torrent_layout pad_hash sample_torrent_of) [[1, 2], [3]]"
    "addressable (torrent_layout pad_hash sample_torrent_of)"
    by (auto simp: addressable_def seeded_def torrent_layout_def sample_torrent_of_def size_at_def piece_start_def
        slice_def pad_hash_def less_2_cases_iff)
  moreover have "torrent_consistent sample_torrent_of" using sample_consistent sample_in by blast
  ultimately show ?thesis
    by (simp add: downloadable_def sample_env_def sample_torrent_of_def)
qed

lemma sample_working:
  "system_works sample_env" "plentiful (rs_heap sample_resources)" "length (torrent_file sample_env) < 2 ^ 57"
  "announce_url sample_torrent_of \<noteq> []" "\<And>ib. evp_sha1 (env_evp sample_env) ib = replicate 20 7"
proof -
  show "system_works sample_env"
    using sample_works
    by (simp add: system_works_def sample_env_def file_readable_def sample_torrent_bytes sample_evp_def sample_random_def
        curl_works_def)
qed (simp_all add: sample_resources_def torrent_file_def sample_env_def sample_torrent_bytes sample_torrent_of_def
    bytes_of_def)

theorem program_completes_witness:
  "\<exists>oc. main_program sample_env sample_resources = Some oc \<and> oc_exit oc = 0 \<and> oc_file oc = Some [1, 2, 3]"
  using program_completes [OF sample_documented sample_working(1-3) sample_in sample_working(4) sample_answers _
      sample_downloadable] sample_working(5)
  by simp

end
