(* ===== verification/Fragmentation.thy ===== *)
theory Fragmentation
  imports Main_Live
begin

text \<open>
  What the network may change without the program noticing: how the bytes of a peer are cut into
  fragments, how often a call is interrupted, and in which parts the kernel takes what is sent.
  Two sockets that differ only in this are indistinguishable to every function of
  src/src/peer_connection.c, two such sessions to the loop of src/src/main.c, and two such networks
  to the whole program. A connection that comes to an end is one of these cases: what would follow the end
  changes nothing.
\<close>

section \<open>Sockets that cannot be told apart\<close>

definition indistinct :: "socket \<Rightarrow> socket \<Rightarrow> bool" where
  "indistinct s t \<longleftrightarrow>
     stream (sk_rx s) = stream (sk_rx t) \<and>
     (sk_tx s = sk_tx t \<or> sends_ready (sk_tx s) \<and> sends_ready (sk_tx t))"

text \<open>A result and the socket afterwards, which matters only when the call has succeeded.\<close>

definition same_answer :: "bool \<times> socket \<Rightarrow> bool \<times> socket \<Rightarrow> bool" where
  "same_answer x y \<longleftrightarrow> fst x = fst y \<and> (fst x \<longrightarrow> indistinct (snd x) (snd y))"

text \<open>Two runs of the same steps: both undefined, or both defined with related results.\<close>

lemma rel_option_bindI:
  assumes "rel_option R m n" and "\<And>x y. R x y \<Longrightarrow> rel_option Q (f x) (g y)"
  shows "rel_option Q (Option.bind m f) (Option.bind n g)"
  using assms by (cases m; cases n) auto

lemma rel_option_same_bindI:
  "(\<And>x. m = Some x \<Longrightarrow> rel_option Q (f x) (g x)) \<Longrightarrow> rel_option Q (Option.bind m f) (Option.bind m g)"
  by (cases m) auto

lemma socket_recv_alike:
  assumes "indistinct s t"
  obtains r s' t' where "socket_recv n s = Some (r, s')" "socket_recv n t = Some (r, t')"
    "r \<noteq> None \<longrightarrow> indistinct s' t'"
proof (cases "n \<le> length (stream (sk_rx s))")
  case True
  then have "n \<le> length (stream (sk_rx t))" using assms by (simp add: indistinct_def)
  with True show ?thesis
    using assms that
    by (cases rule: socket_recv_cases [of n s]; cases rule: socket_recv_cases [of n t]) (auto simp: indistinct_def)
next
  case False
  then have "\<not> n \<le> length (stream (sk_rx t))" using assms by (simp add: indistinct_def)
  with False show ?thesis
    using that by (cases rule: socket_recv_cases [of n s]; cases rule: socket_recv_cases [of n t]) auto
qed

text \<open>Sending depends on the sending side alone.\<close>

lemma send_alike:
  assumes "sk_tx s = sk_tx t" "send bs s = (r, s')"
  shows "\<exists>t'. send bs t = (r, t') \<and> sk_tx s' = sk_tx t'"
  using assms by (auto simp: send_def split: list.splits send_event.splits)

lemma send_all_same_script:
  "sk_tx s = sk_tx t \<Longrightarrow>
   fst (send_all buffer n s) = fst (send_all buffer n t) \<and>
   sk_tx (snd (send_all buffer n s)) = sk_tx (snd (send_all buffer n t))"
proof (induction buffer n s arbitrary: t rule: send_all.induct)
  case (1 buffer n s)
  obtain r s1 where r: "send (drop n buffer) s = (r, s1)" by fastforce
  obtain t1 where t1: "send (drop n buffer) t = (r, t1)" "sk_tx s1 = sk_tx t1"
    using send_alike [OF 1(3) r] by blast
  show ?case
    using 1(1) [OF _ r [symmetric] _ _ t1(2)] 1(2) [OF _ r [symmetric] _ t1(2)] 1(3) r t1
    by (cases r) (simp_all add: send_all.simps [of _ _ s] send_all.simps [of _ _ t])
qed

lemma send_all_alike:
  assumes "indistinct s t"
  shows "same_answer (send_all buffer 0 s) (send_all buffer 0 t)"
proof -
  obtain a s' b t' where st: "send_all buffer 0 s = (a, s')" "send_all buffer 0 t = (b, t')" by fastforce
  have rx: "sk_rx s' = sk_rx s" "sk_rx t' = sk_rx t"
    and ready: "sends_ready (sk_tx s) \<Longrightarrow> a \<and> sends_ready (sk_tx s')"
      "sends_ready (sk_tx t) \<Longrightarrow> b \<and> sends_ready (sk_tx t')"
    using send_all_spec [of 0 buffer s] send_all_spec [of 0 buffer t] st by auto
  show ?thesis
    using assms rx ready send_all_same_script [of s t buffer 0] st
    by (auto simp: indistinct_def same_answer_def)
qed
lemma sent_alike:
  "send_all buffer 0 s = (a, s') \<Longrightarrow> send_all buffer 0 t = (b, t') \<Longrightarrow> indistinct s t \<Longrightarrow>
   a = b \<and> (b \<longrightarrow> indistinct s' t')"
  using send_all_alike [of s t buffer] by (simp add: same_answer_def)

section \<open>Receiving and the handshake\<close>

lemma receive_payload_alike:
  assumes "indistinct s t"
  obtains m s' h' t' where "receive_payload i l s h = Some (m, s', h')" "receive_payload i l t h = Some (m, t', h')"
    "m \<noteq> None \<longrightarrow> indistinct s' t'"
proof -
  obtain r s1 t1 where recv: "socket_recv (unat l) s = Some (r, s1)" "socket_recv (unat l) t = Some (r, t1)"
    "r \<noteq> None \<longrightarrow> indistinct s1 t1"
    using socket_recv_alike [OF assms] .
  obtain granted h1 where m: "malloc h = (granted, h1)" by fastforce
  show ?thesis
  proof (cases "l \<noteq> 0 \<and> granted")
    case True
    then show ?thesis using that recv m by (cases r) (simp_all add: receive_payload_def)
  next
    case False
    then show ?thesis using that assms m by (cases "l = 0") (simp_all add: receive_payload_def)
  qed
qed

lemma receive_body_alike:
  assumes "indistinct s t"
  obtains m s' h' t' where "receive_body l s h = Some (m, s', h')" "receive_body l t h = Some (m, t', h')"
    "m \<noteq> None \<longrightarrow> indistinct s' t'"
proof -
  obtain r s1 t1 where recv: "socket_recv 1 s = Some (r, s1)" "socket_recv 1 t = Some (r, t1)"
    "r \<noteq> None \<longrightarrow> indistinct s1 t1"
    using socket_recv_alike [OF assms] .
  show ?thesis
  proof (cases r)
    case None
    then show ?thesis using that recv by (simp add: receive_body_def)
  next
    case (Some bs)
    let ?l = "(ucast l :: size_t) - 1" and ?i = "message_id_of (bs ! 0)"
    have "indistinct s1 t1" using recv(3) Some by simp
    then obtain m s' h' t' where "receive_payload ?i ?l s1 h = Some (m, s', h')" "receive_payload ?i ?l t1 h = Some (m, t', h')"
      "m \<noteq> None \<longrightarrow> indistinct s' t'"
      by (rule receive_payload_alike [of s1 t1 ?i ?l h])
    note run = this
    show ?thesis
    proof (cases "message_code PEER_MESSAGE_INVALID \<le> bs ! 0 \<or> MAX_PAYLOAD_LENGTH < ?l \<or>
        \<not> is_valid_payload_length_for_message ?l ?i")
      case True
      then have "receive_body l s h = Some (None, s1, h)" "receive_body l t h = Some (None, t1, h)"
        using recv(1,2) Some by (auto simp: receive_body_def Let_def)
      then show ?thesis by (rule that) simp
    next
      case False
      then have "receive_body l s h = Some (m, s', h')" "receive_body l t h = Some (m, t', h')"
        using recv(1,2) run(1,2) Some by (simp_all add: receive_body_def Let_def)
      then show ?thesis using run(3) by (rule that)
    qed
  qed
qed

lemma receive_alike:
  assumes "indistinct s t"
  obtains ok m s' h' t' where "receive_peer_wire_message fd out s h = Some (ok, m, s', h')"
    "receive_peer_wire_message fd out t h = Some (ok, m, t', h')" "ok \<longrightarrow> indistinct s' t'"
proof (cases "\<exists>old. out = Some old \<and> 0 \<le> fd \<and> msg_id old = PEER_MESSAGE_INVALID \<and> \<not> msg_is_keep_alive old \<and>
    msg_payload old = None \<and> msg_payload_length old = 0")
  case False
  then have "receive_peer_wire_message fd out s h = Some (False, out, s, h)" for s
    by (cases out) (auto simp: receive_peer_wire_message_def)
  then show ?thesis using that assms by metis
next
  case True
  then obtain old where out: "out = Some old" "\<not> fd < 0" "msg_id old = PEER_MESSAGE_INVALID" "\<not> msg_is_keep_alive old"
    "msg_payload old = None" "msg_payload_length old = 0" by auto
  obtain r s1 t1 where recv: "socket_recv 4 s = Some (r, s1)" "socket_recv 4 t = Some (r, t1)"
    "r \<noteq> None \<longrightarrow> indistinct s1 t1"
    using socket_recv_alike [OF assms] .
  show ?thesis
  proof (cases r)
    case None
    then have "receive_peer_wire_message fd out s h = Some (False, out, s1, h)"
      "receive_peer_wire_message fd out t h = Some (False, out, t1, h)"
      using recv(1,2) out by (simp_all add: receive_peer_wire_message_def)
    then show ?thesis by (rule that) simp
  next
    case (Some bs)
    have now: "indistinct s1 t1" using recv(3) Some by simp
    then obtain m s' h' t' where "receive_body (read_uint32 bs) s1 h = Some (m, s', h')"
      "receive_body (read_uint32 bs) t1 h = Some (m, t', h')" "m \<noteq> None \<longrightarrow> indistinct s' t'"
      by (rule receive_body_alike [of s1 t1 "read_uint32 bs" h])
    note run = this and code = receive_peer_wire_message_def recv(1,2) Some out
    show ?thesis
    proof (cases "read_uint32 bs = 0")
      case True
      then show ?thesis
        using now that [of True "Some (blank_message\<lparr>msg_is_keep_alive := True\<rparr>)" s1 h t1]
        by (simp add: code blank_message_def)
    next
      case False
      show ?thesis
      proof (cases m)
        case None
        then have "receive_peer_wire_message fd out s h = Some (False, out, s', h')"
          "receive_peer_wire_message fd out t h = Some (False, out, t', h')"
          using run(1,2) False by (simp_all add: code)
        then show ?thesis by (rule that) simp
      next
        case (Some message)
        then show ?thesis using run False that [of True m s' h' t'] by (simp add: code)
      qed
    qed
  qed
qed

lemma handshake_alike:
  assumes "indistinct s t"
  shows "rel_option same_answer (handshake_with_peer ih pid s) (handshake_with_peer ih pid t)"
proof -
  have rest: "rel_option same_answer
      (do { (received, s) \<leftarrow> socket_recv 68 s;
            case received of None \<Rightarrow> Some (False, s)
            | Some r \<Rightarrow> do { valid \<leftarrow> validate_handshake_response (Some r) ih; if \<not> valid then Some (False, s) else Some (True, s) } })
      (do { (received, t) \<leftarrow> socket_recv 68 t;
            case received of None \<Rightarrow> Some (False, t)
            | Some r \<Rightarrow> do { valid \<leftarrow> validate_handshake_response (Some r) ih; if \<not> valid then Some (False, t) else Some (True, t) } })"
    if "indistinct s t" for s t
    by (rule socket_recv_alike [OF that, of 68])
      (auto simp: same_answer_def split: option.splits intro!: rel_option_same_bindI)
  show ?thesis
    using assms unfolding handshake_with_peer_def
    by (intro rel_option_same_bindI)
      (auto simp: same_answer_def split: prod.splits dest: sent_alike intro!: rel_option_same_bindI rest)
qed

section \<open>Sessions that cannot be told apart\<close>

definition alike :: "session \<Rightarrow> session \<Rightarrow> bool" where
  "alike s t \<longleftrightarrow> t = s\<lparr>ss_socket := ss_socket t\<rparr> \<and> indistinct (ss_socket s) (ss_socket t)"

text \<open>Out of the loop the socket is closed, and no longer matters.\<close>

definition parted :: "session \<Rightarrow> session \<Rightarrow> bool" where
  "parted s t \<longleftrightarrow> t = s\<lparr>ss_socket := ss_socket t\<rparr>"

fun alike_flow :: "flow \<Rightarrow> flow \<Rightarrow> bool" where
  "alike_flow (Go s) (Go t) \<longleftrightarrow> alike s t"
| "alike_flow (Leave s) (Leave t) \<longleftrightarrow> parted s t"
| "alike_flow _ _ \<longleftrightarrow> False"

lemma alike_cases:
  assumes "alike s t"
  obtains x where "t = s\<lparr>ss_socket := x\<rparr>" "indistinct (ss_socket s) x"
  using assms by (auto simp: alike_def)

lemma alikeI [intro!]: "indistinct (ss_socket s) x \<Longrightarrow> alike s (s\<lparr>ss_socket := x\<rparr>)"
  and partedI [intro!]: "parted s (s\<lparr>ss_socket := x\<rparr>)"
  by (simp_all add: alike_def parted_def)
section \<open>The loop over the messages\<close>

lemma dispatch_message_socket_update:
  "dispatch_message ctx (s\<lparr>ss_socket := x\<rparr>) =
   map_option (\<lambda>(ok, t). (ok, t\<lparr>ss_socket := x\<rparr>)) (dispatch_message ctx s)"
  by (cases "msg_id (ss_message s)") (auto simp: dispatch_message_def map_option_bind split: prod.splits intro!: bind_option_cong)

text \<open>The parts of the body that do not touch the socket commute with a change of it.\<close>

fun on_socket :: "socket \<Rightarrow> flow \<Rightarrow> flow" where
  "on_socket x (Go s) = Go (s\<lparr>ss_socket := x\<rparr>)"
| "on_socket x (Leave s) = Leave (s\<lparr>ss_socket := x\<rparr>)"

lemma next_piece_socket_update: "next_piece ctx (s\<lparr>ss_socket := x\<rparr>) = on_socket x (next_piece ctx s)"
  by (simp add: next_piece_def Let_def)

lemma complete_piece_socket_update:
  "complete_piece ctx (s\<lparr>ss_socket := x\<rparr>) = map_option (on_socket x) (complete_piece ctx s)"
proof -
  have next_piece: "next_piece ctx (s\<lparr>ss_socket := x, ss_disk := d, ss_piece := st\<rparr>) =
      on_socket x (next_piece ctx (s\<lparr>ss_disk := d, ss_piece := st\<rparr>))" for d st
    by (cases s) (simp add: next_piece_socket_update [symmetric])
  show ?thesis
    by (simp add: complete_piece_def Let_def next_piece split: prod.split Option.bind_split)
qed
text \<open>The parts that send, and then the whole body.\<close>

lemma send_next_request_alike:
  assumes fd: "0 \<le> fd" and st: "alike s t"
  shows "rel_option alike_flow (send_next_request fd s) (send_next_request fd t)"
proof -
  obtain x where t: "t = s\<lparr>ss_socket := x\<rparr>" and x: "indistinct (ss_socket s) x" using alike_cases [OF st] .
  show ?thesis
    using x unfolding t
    by (simp add: send_next_request_def Let_def peer_send_request_eq [OF fd] alike_def parted_def split: prod.split)
      (auto dest: sent_alike)
qed

lemma request_block_alike:
  assumes fd: "0 \<le> fd" and st: "alike s t"
  shows "rel_option alike_flow (request_block ctx fd s) (request_block ctx fd t)"
proof -
  obtain x where t: "t = s\<lparr>ss_socket := x\<rparr>" and x: "indistinct (ss_socket s) x" using alike_cases [OF st] .
  show ?thesis
    using x unfolding t
    by (auto simp: request_block_def Let_def peer_send_interested_eq [OF fd] alike_def parted_def
        split: prod.splits option.splits dest: sent_alike intro!: rel_option_same_bindI send_next_request_alike [OF fd])
qed

lemma handle_message_alike:
  assumes fd: "0 \<le> fd" and st: "alike s t"
  shows "rel_option alike_flow (handle_message ctx fd s) (handle_message ctx fd t)"
proof -
  obtain x where t: "t = s\<lparr>ss_socket := x\<rparr>" and x: "indistinct (ss_socket s) x" using alike_cases [OF st] .
  have after: "rel_option alike_flow (after_switch ctx fd s) (after_switch ctx fd (s\<lparr>ss_socket := x\<rparr>))"
    if "indistinct (ss_socket s) x" for s
  proof (cases "complete_piece ctx s")
    case (Some f)
    then show ?thesis
      using complete_piece_socket [of ctx s] that
      by (cases f) (auto simp: after_switch_def complete_piece_socket_update intro!: request_block_alike [OF fd] alikeI)
  qed (simp add: after_switch_def complete_piece_socket_update)
  show ?thesis
  proof (cases "dispatch_message ctx s")
    case (Some r)
    then show ?thesis
      using dispatch_message_socket [of ctx s] x unfolding t
      by (cases r) (auto simp: handle_message_def dispatch_message_socket_update intro!: after)
  qed (simp add: t handle_message_def dispatch_message_socket_update)
qed

lemma iteration_alike:
  assumes fd: "0 \<le> fd" and st: "alike s t"
  shows "rel_option alike_flow (iteration ctx fd s) (iteration ctx fd t)"
proof -
  obtain x where t: "t = s\<lparr>ss_socket := x\<rparr>" and x: "indistinct (ss_socket s) x" using alike_cases [OF st] .
  let ?h = "free (msg_payload (ss_message s) = None) (ss_heap s)"
  obtain ok m a h b where r: "receive_peer_wire_message fd (Some blank_message) (ss_socket s) ?h = Some (ok, m, a, h)"
    "receive_peer_wire_message fd (Some blank_message) x ?h = Some (ok, m, b, h)" "ok \<longrightarrow> indistinct a b"
    using receive_alike [OF x, of fd "Some blank_message" ?h] .
  have "rel_option alike_flow (handle_message ctx fd (s\<lparr>ss_message := k, ss_socket := a, ss_heap := h\<rparr>))
      (handle_message ctx fd (s\<lparr>ss_message := k, ss_socket := b, ss_heap := h\<rparr>))" if "indistinct a b" for k
    using that by (intro handle_message_alike [OF fd]) (simp add: alike_def)
  then show ?thesis
    using r unfolding t
    by (cases m) (auto simp: iteration_def free_peer_wire_message_def Let_def alike_def parted_def)
qed

text \<open>So two sessions that start alike end with the same state, up to the socket that is closed next.\<close>

lemma session_loop_alike:
  "0 \<le> fd \<Longrightarrow> alike s t \<Longrightarrow> rel_option parted (session_loop ctx fd s) (session_loop ctx fd t)"
proof (induction ctx fd s arbitrary: t rule: session_loop.induct)
  case (1 ctx fd s)
  have "rel_option alike_flow (iteration ctx fd s) (iteration ctx fd t)"
    by (rule iteration_alike [OF 1(2,3)])
  then show ?case
    using 1(1) 1(2)
    by (auto simp: session_loop.simps [of ctx fd s] session_loop.simps [of ctx fd t] option_rel_Some1
        split: option.splits flow.splits)
qed

lemma leave_peer_socket_update: "leave_peer fd (s\<lparr>ss_socket := x\<rparr>) fds = leave_peer fd s fds"
  by (simp add: leave_peer_def)

lemma leave_peer_parted: "parted s t \<Longrightarrow> leave_peer fd s fds = leave_peer fd t fds"
  by (metis (no_types) leave_peer_socket_update parted_def)
section \<open>The whole program\<close>

text \<open>Networks that reach the same peers, through sockets that cannot be told apart.\<close>

definition same_network :: "peer_network \<Rightarrow> peer_network \<Rightarrow> bool" where
  "same_network nw nw' \<longleftrightarrow> pn_connect nw = pn_connect nw' \<and> indistinct (pn_socket nw) (pn_socket nw')"

lemma fetch_from_peer_same:
  assumes "same_network nw nw'"
  shows "fetch_from_peer ctx p nw d = fetch_from_peer ctx p nw' d"
proof -
  obtain fd fds where c: "connect_to_peer (pn_connect nw') (Some p) (dl_fds d) = (fd, fds)" by fastforce
  show ?thesis
  proof (cases "fd < 0")
    case True
    then show ?thesis using c assms by (simp add: fetch_from_peer_def same_network_def)
  next
    case False
    let ?rest = "\<lambda>(handshake_success, sock).
        if \<not> handshake_success then Some (d\<lparr>dl_piece := reset_piece (dl_piece d), dl_fds := close_fd fd fds\<rparr>)
        else do { s \<leftarrow> session_loop ctx fd (enter_peer fd p sock d); Some (leave_peer fd s fds) }"
    have loop: "rel_option (=) (do { s \<leftarrow> session_loop ctx fd (enter_peer fd p a d); Some (leave_peer fd s fds) })
        (do { s \<leftarrow> session_loop ctx fd (enter_peer fd p b d); Some (leave_peer fd s fds) })" if "indistinct a b" for a b
    proof (rule rel_option_bindI)
      show "rel_option parted (session_loop ctx fd (enter_peer fd p a d)) (session_loop ctx fd (enter_peer fd p b d))"
        using False that by (intro session_loop_alike) (simp_all add: alike_def enter_peer_def)
    qed (simp add: leave_peer_parted)
    have "rel_option (=)
        (Option.bind (handshake_with_peer (Some (dc_info_hash ctx)) (Some (dc_peer_id ctx)) (pn_socket nw)) ?rest)
        (Option.bind (handshake_with_peer (Some (dc_info_hash ctx)) (Some (dc_peer_id ctx)) (pn_socket nw')) ?rest)"
    proof (rule rel_option_bindI [OF handshake_alike])
      show "indistinct (pn_socket nw) (pn_socket nw')" using assms by (simp add: same_network_def)
    qed (auto simp: same_answer_def intro: loop)
    then show ?thesis
      using c False assms by (simp add: fetch_from_peer_def same_network_def option.rel_eq)
  qed
qed

lemma peers_loop_same:
  "list_all2 (\<lambda>(p, nw) (q, nw'). p = q \<and> same_network nw nw') ps qs \<Longrightarrow> peers_loop ctx ps d = peers_loop ctx qs d"
proof (induction arbitrary: d rule: list_all2_induct)
  case (Cons x xs y ys)
  obtain p nw nw' where xy: "x = (p, nw)" "y = (p, nw')" "same_network nw nw'"
    using Cons.hyps(1) by (cases x; cases y) auto
  have "peers_loop ctx xs = peers_loop ctx ys" using Cons.IH by blast
  then show ?case using xy fetch_from_peer_same [OF xy(3)] by simp
qed simp

lemma main_download_same:
  assumes "\<And>i. same_network (env_network env i) (nw i)"
  shows "main_download (env\<lparr>env_network := nw\<rparr>) info ih pid peers release h r =
    main_download env info ih pid peers release h r"
proof -
  have ctx: "context_of (env\<lparr>env_network := nw\<rparr>) info ih pid = context_of env info ih pid"
    "first_download (env\<lparr>env_network := nw\<rparr>) = first_download env"
    "fclose (env\<lparr>env_network := nw\<rparr>) = fclose env"
    by (simp_all add: context_of_def first_download_def fclose_def fun_eq_iff)
  then have finish: "finish_download (env\<lparr>env_network := nw\<rparr>) = finish_download env"
    by (simp add: finish_download_def fun_eq_iff)
  have tries: "Option.bind (peers_to_try (env\<lparr>env_network := nw\<rparr>) peers) (\<lambda>tries. Option.bind (peers_loop c tries d) f) =
      Option.bind (peers_to_try env peers) (\<lambda>tries. Option.bind (peers_loop c tries d) f)" for c d f
  proof -
    have "list_all2 (\<lambda>(p, nw) (q, nw'). p = q \<and> same_network nw nw')
        (map (\<lambda>i. (known ! i, env_network env i)) is) (map (\<lambda>i. (known ! i, nw i)) is)" for known "is"
      using assms by (simp add: list_all2_conv_all_nth)
    note peers_loop_same [OF this]
    then show ?thesis by (simp add: peers_to_try_def Let_def)
  qed
  show ?thesis
    by (simp add: main_download_def Let_def ctx finish tries cong: if_cong bool.case_cong split: prod.split)
qed

lemma main_program_same:
  assumes "\<And>i. same_network (env_network env i) (nw i)"
  shows "main_program (env\<lparr>env_network := nw\<rparr>) r = main_program env r"
proof -
  note down = main_download_same [OF assms]
  have "main_peers (env\<lparr>env_network := nw\<rparr>) = main_peers env"
    by (intro ext) (simp add: main_peers_def down assms cong: if_cong)
  then have "main_tracker (env\<lparr>env_network := nw\<rparr>) = main_tracker env"
    by (intro ext) (simp add: main_tracker_def Let_def cong: if_cong option.case_cong)
  then have "main_announce (env\<lparr>env_network := nw\<rparr>) = main_announce env"
    by (intro ext) (simp add: main_announce_def Let_def cong: if_cong option.case_cong)
  then have "main_torrent (env\<lparr>env_network := nw\<rparr>) = main_torrent env"
    by (intro ext) (simp add: main_torrent_def Let_def cong: if_cong option.case_cong)
  then have "main_parse (env\<lparr>env_network := nw\<rparr>) = main_parse env"
    by (intro ext) (simp add: main_parse_def Let_def cong: if_cong option.case_cong)
  then show ?thesis by (simp add: main_program_def Let_def cong: if_cong)
qed

section \<open>Connections that come to an end\<close>

text \<open>
  A connection that ends, because the peer closes it or it breaks, cannot be told apart from one
  whose script goes on after that. So nothing below depends on what the model lets happen when a
  script is used up.
\<close>

definition prolonged :: "socket \<Rightarrow> recv_event list \<Rightarrow> socket" where
  "prolonged s later = s\<lparr>sk_rx := sk_rx s @ later\<rparr>"

lemma prolonged_indistinct: "ends (sk_rx s) \<Longrightarrow> indistinct s (prolonged s later)"
  by (simp add: indistinct_def prolonged_def stream_ends)

abbreviation prolonged_network :: "peer_network \<Rightarrow> recv_event list \<Rightarrow> peer_network" where
  "prolonged_network net later \<equiv> net\<lparr>pn_socket := prolonged (pn_socket net) later\<rparr>"

lemma prolonged_same: "ends (sk_rx (pn_socket net)) \<Longrightarrow> same_network net (prolonged_network net later)"
  by (simp add: same_network_def prolonged_indistinct)

section \<open>Properties\<close>

text \<open>
  C33: on a connection that comes to an end, \<open>receive_peer_wire_message\<close> has a defined result,
  whatever arrives before the end and whatever the allocator answers: a message it hands over has a payload of the
  recorded length in a size its id allows, and on failure the message variable stays blank and
  nothing stays allocated. The result does not depend on anything after the end of the connection.
\<close>

theorem receive_message_safe:
  assumes "0 \<le> fd" and "ends (sk_rx s)"
  shows "\<exists>ok m s' h'. receive_peer_wire_message fd (Some blank_message) s h = Some (ok, Some m, s', h') \<and>
    wf_message m \<and> live h' = live h + message_blocks m \<and>
    (if ok then valid_frame (frame_of m) \<and> script_size (sk_rx s') < script_size (sk_rx s) else m = blank_message) \<and>
    (\<forall>later. \<exists>s''. receive_peer_wire_message fd (Some blank_message) (prolonged s later) h = Some (ok, Some m, s'', h'))"
proof -
  obtain ok m s' h' where run: "receive_peer_wire_message fd (Some blank_message) s h = Some (ok, Some m, s', h')"
    "wf_message m \<and> live h' = live h + message_blocks m \<and>
     (if ok then valid_frame (frame_of m) \<and> script_size (sk_rx s') < script_size (sk_rx s) else m = blank_message)"
    using receive_message_run [OF assms(1), of s h] by blast
  have "\<exists>s''. receive_peer_wire_message fd (Some blank_message) (prolonged s later) h = Some (ok, Some m, s'', h')" for later
    using receive_alike [OF prolonged_indistinct [OF assms(2)], of fd "Some blank_message" h later] run(1) by auto
  then show ?thesis using run by blast
qed

theorem receive_message_safe_witness:
  "\<exists>m s' h'. receive_peer_wire_message 3 (Some blank_message) (socket_with [Data [0, 0, 0, 9, 7, 1], Closed]) tight_heap =
      Some (False, Some m, s', h') \<and> m = blank_message \<and> live h' = 0"
proof -
  let ?s = "socket_with [Data [0, 0, 0, 9, 7, 1], Closed]"
  have "map_option fst (receive_peer_wire_message 3 (Some blank_message) ?s tight_heap) = Some False" by code_simp
  moreover have "ends (sk_rx ?s)" by (simp add: ends_def socket_with_def)
  ultimately show ?thesis
    using receive_message_safe [of 3 ?s tight_heap] by (auto simp: tight_heap_def message_blocks_def blank_message_def)
qed

text \<open>
  C19: when the connection to a peer comes to an end, what was taken for it is given back, on each
  path out of connecting, the handshake and the message loop: the descriptor is closed, the bitfield and the last message are freed,
  and the piece state is reset. This needs of the torrent only that its last piece fits the
  buffer; it may be inconsistent otherwise, and every check and overflow guard of the loop may fire.
\<close>

theorem peer_leaves_nothing:
  assumes "wf_context ctx" and "fits (layout_of ctx)" and "guarded_download ctx d" and "\<not> dl_complete d"
    and "fresh_socket net (dl_fds d)" and "ends (sk_rx (pn_socket net))"
  shows "\<exists>d'. fetch_from_peer ctx p net d = Some d' \<and> dl_fds d' = dl_fds d \<and> live (dl_heap d') = live (dl_heap d) \<and>
    ds_bytes_received (dl_piece d') = 0 \<and> \<not> ds_request_pending (dl_piece d') \<and>
    (\<forall>later. fetch_from_peer ctx p (prolonged_network net later) d = Some d')"
proof -
  obtain d' where d': "fetch_from_peer ctx p net d = Some d'" "gave_back ctx d d'"
    using fetch_from_peer_safe [OF assms(1-5)] by blast
  moreover have "ds_bytes_received (dl_piece d') = 0 \<and> \<not> ds_request_pending (dl_piece d')"
    using d'(1) by (auto simp: fetch_from_peer_def leave_peer_def reset_piece_eq Let_def bind_eq_Some_conv
        free_peer_wire_message_def
        split: prod.splits if_splits)
  moreover have "\<forall>later. fetch_from_peer ctx p (prolonged_network net later) d = Some d'"
    using fetch_from_peer_same [OF prolonged_same [OF assms(6)]] d'(1) by metis
  ultimately show ?thesis by (auto simp: gave_back_def)
qed

text \<open>
  The file of the short torrent ends before its last piece: the peer delivers the first piece, and
  the check of the offset makes the client leave it.
\<close>

theorem peer_leaves_nothing_witness:
  "\<exists>d'. fetch_from_peer short_context zero_peer sample_network sample_download = Some d' \<and> dl_fds d' = {} \<and>
     live (dl_heap d') = 0"
proof -
  have ctx: "wf_context short_context" "fits (layout_of short_context)"
    using sample_context_ok by (simp_all add: wf_context_def short_context_def sample_context_def fits_def valid_segment_def)
  have d: "guarded_download short_context sample_download" "\<not> dl_complete sample_download"
    by (simp_all add: guarded_download_def guarded_def sample_download_def first_piece_state_def piece_room_def
        short_context_def sample_context_def)
  have net: "fresh_socket sample_network (dl_fds sample_download)" "ends (sk_rx (pn_socket sample_network))"
    by (simp_all add: fresh_socket_def sample_download_def ends_def sample_network_def socket_with_def)
  have "dl_fds sample_download = {}" "live (dl_heap sample_download) = 0"
    by (simp_all add: sample_download_def fresh_heap_def)
  then show ?thesis using peer_leaves_nothing [OF ctx d net, of zero_peer] by auto
qed

text \<open>
  C7: what the program does does not depend on how the network cuts the bytes: with peers that say
  the same, in other fragments, with other interruptions and with sockets that take what is sent in
  other parts, the program ends in the same way, with the same exit code, the same file and the
  same resources.
\<close>

theorem fragmentation_invisible:
  assumes "\<forall>i. same_network (env_network env i) (nw i)"
  shows "main_program (env\<lparr>env_network := nw\<rparr>) r = main_program env r"
  using assms by (intro main_program_same) blast

text \<open>The sample peer on a slow line: every byte alone and after an interruption, in both directions.\<close>

definition byte_by_byte :: "byte list \<Rightarrow> recv_event list" where
  "byte_by_byte bs = concat (map (\<lambda>b. [Recv_Interrupted, Data [b]]) bs)"

lemma stream_byte_by_byte [simp]: "stream (byte_by_byte bs) = bs"
  by (induction bs) (simp_all add: byte_by_byte_def)

definition slow_network :: peer_network where
  "slow_network = sample_network\<lparr>pn_socket :=
     \<lparr>sk_rx = byte_by_byte (stream (sk_rx (pn_socket sample_network))),
      sk_tx = concat (replicate 200 [Send_Interrupted, Takes 1]), sk_sent = []\<rparr>\<rparr>"

theorem fragmentation_invisible_witness:
  "\<exists>oc. main_program (sample_env\<lparr>env_network := (\<lambda>i. slow_network)\<rparr>) sample_resources = Some oc \<and>
     oc_exit oc = 0 \<and> oc_file oc = Some [1, 2, 3]"
proof -
  have "sends_ready (concat (replicate n [Send_Interrupted, Takes 1]))" for n
    by (induction n) (simp_all add: sends_ready_def)
  then have "same_network sample_network slow_network"
    using sample_network_ready(2) by (simp add: same_network_def slow_network_def indistinct_def)
  then have "\<forall>i. same_network (env_network sample_env i) slow_network" by (simp add: sample_env_def)
  from fragmentation_invisible [OF this]
  have "main_program (sample_env\<lparr>env_network := (\<lambda>i. slow_network)\<rparr>) sample_resources =
      main_program sample_env sample_resources" .
  then show ?thesis
    using main_program_succeeds [OF sample_documented sample_working(1-3) sample_in sample_working(4) sample_answers
        sample_working(5) sample_downloadable]
    by simp
qed

end
