(* ===== verification/Main_Correct.thy ===== *)
theory Main_Correct
  imports Fragmentation
begin

text \<open>
  What the whole program guarantees whatever goes wrong outside it: what exit code 0 means, and that
  everything is given back. Both hold for each torrent whose last piece fits the buffer. The last
  section shows that the program does not notice when \<open>fclose\<close> fails.
\<close>

section \<open>Every connection comes to an end\<close>

definition connections_end :: "environment \<Rightarrow> bool" where
  "connections_end env \<longleftrightarrow> (\<forall>i. ends (sk_rx (pn_socket (env_network env i))))"

text \<open>The same environment, with something after the end of each connection.\<close>

definition prolonged_env :: "environment \<Rightarrow> (nat \<Rightarrow> recv_event list) \<Rightarrow> environment" where
  "prolonged_env env later = env\<lparr>env_network := (\<lambda>i. prolonged_network (env_network env i) (later i))\<rparr>"

lemma main_program_prolonged:
  "connections_end env \<Longrightarrow> main_program (prolonged_env env later) r = main_program env r"
  unfolding prolonged_env_def by (intro main_program_same prolonged_same) (simp add: connections_end_def)

section \<open>Properties\<close>

text \<open>
  C1: when the libraries behave as documented, every connection comes to an end and the last piece
  of the torrent is not longer than the others, the program ends with exit code 0, 1 or -1 and
  with no access outside its memory, whatever the peers, the tracker, the disk and the allocator do.
  If the exit code is 0 and the lengths in the torrent fit together, what has been written to the
  output file has the length and the piece hashes of the torrent; the file on disk is what \<open>fclose\<close>
  makes of it, as main does not check that.
\<close>

theorem program_delivers:
  assumes "documented env r" and "connections_end env"
    and "\<forall>t. torrent_in (torrent_file env) t \<longrightarrow> torrent_fits t"
  shows "\<exists>oc. main_program env r = Some oc \<and> oc_exit oc \<in> {0, 1, - 1} \<and>
    (\<forall>later. main_program (prolonged_env env later) r = Some oc) \<and>
    (oc_exit oc = 0 \<longrightarrow> (\<exists>t f. torrent_in (torrent_file env) t \<and> oc_file oc = Some (snd (env_close env f)) \<and>
       (torrent_consistent t \<longrightarrow> file_matches (torrent_layout (env_sha1 env) t) f)))"
  using main_program_stage [OF assms(1)] assms(3) main_program_prolonged [OF assms(2)]
  by (auto simp: stage_def ends_well_def refused_def exits_def)

lemma sample_ends: "connections_end sample_env"
  by (simp add: connections_end_def sample_env_def sample_network_def socket_with_def ends_def)

lemma sample_fits: "\<forall>t. torrent_in (torrent_file sample_env) t \<longrightarrow> torrent_fits t"
proof (intro allI impI)
  fix t
  assume "torrent_in (torrent_file sample_env) t"
  then have "t = sample_torrent_of"
    using sample_in by (intro torrent_in_unique [of "torrent_file sample_env"])
      (simp_all add: torrent_file_def sample_env_def sample_torrent_bytes)
  then show "torrent_fits t" by (simp add: torrent_fits_def sample_torrent_of_def torrent_layout_def fits_def)
qed

theorem program_delivers_witness:
  "\<exists>oc f. main_program sample_env sample_resources = Some oc \<and> oc_exit oc = 0 \<and> oc_file oc = Some f \<and>
     file_matches (torrent_layout pad_hash sample_torrent_of) f"
proof -
  obtain oc where oc: "main_program sample_env sample_resources = Some oc" "oc_exit oc = 0"
    using main_program_succeeds [OF sample_documented sample_working(1-3) sample_in sample_working(4) sample_answers
        sample_working(5) sample_downloadable] by blast
  obtain t f where f: "torrent_in (torrent_file sample_env) t" "oc_file oc = Some (snd (env_close sample_env f))"
    "torrent_consistent t \<longrightarrow> file_matches (torrent_layout (env_sha1 sample_env) t) f"
    using program_delivers [OF sample_documented sample_ends sample_fits] oc by auto
  have "t = sample_torrent_of"
    using f(1) sample_in by (intro torrent_in_unique [of "torrent_file sample_env"])
      (simp_all add: torrent_file_def sample_env_def sample_torrent_bytes)
  moreover have "env_sha1 sample_env = pad_hash" "env_close sample_env f = (0, f)" by (simp_all add: sample_env_def)
  ultimately show ?thesis using oc f sample_consistent by auto
qed

text \<open>
  C4: when the libraries behave as documented, every connection comes to an end and the last piece of
  the torrent is not longer than the others, then on every path through the program, successful or
  not, all that was taken is given back: as many blocks are freed as were allocated, the files are closed, the digest
  context is released and no socket is left open. The torrent may be inconsistent in other ways.
\<close>

theorem program_gives_back:
  assumes "documented env r" and "connections_end env"
    and "\<forall>t. torrent_in (torrent_file env) t \<longrightarrow> torrent_fits t"
  shows "\<exists>oc. main_program env r = Some oc \<and> gives_back r oc \<and>
    (\<forall>later. main_program (prolonged_env env later) r = Some oc)"
  using main_program_stage [OF assms(1)] assms(3) main_program_prolonged [OF assms(2)]
  by (auto simp: stage_def refused_def exits_def gives_back_def)

text \<open>A torrent whose file ends before its last piece.\<close>

definition short_value :: bvalue where
  "short_value = BDict
     [(bytes_of ''announce'', BString (bytes_of ''url'')),
      (bytes_of ''info'', BDict
         [(bytes_of ''length'', BInt 1), (bytes_of ''name'', BString (bytes_of ''f'')),
          (bytes_of ''piece length'', BInt 2), (bytes_of ''pieces'', BString (pad_hash [1, 2] @ pad_hash [3]))])]"

definition short_env :: environment where
  "short_env = sample_env\<lparr>env_open := (\<lambda>path. \<lparr>if_opens = True, if_contents = encode short_value, if_seek_end = True,
     if_tell = True, if_seek_set = True, if_read_limit = None\<rparr>)\<rparr>"

lemma short_bytes: "encode short_value \<noteq> []" "length (encode short_value) = 114"
  by code_simp+

lemma short_documented: "documented short_env sample_resources"
  using sample_documented by (simp add: documented_def short_env_def regular_file_def short_bytes)

lemma short_in: "torrent_in (torrent_file short_env) (sample_torrent_of\<lparr>file_length := 1\<rparr>)"
proof -
  have "wf_value short_value" by (simp add: short_value_def bytes_of_def chr_def)
  then have "bencodes short_value (take 114 (encode short_value))"
    using encode_bencodes(1) short_bytes(2) by simp
  moreover have "torrent_of short_value = Some (sample_torrent_of\<lparr>file_length := 1\<rparr>)" by code_simp
  moreover have "torrent_file short_env = encode short_value" by (simp add: torrent_file_def short_env_def)
  ultimately show ?thesis by (auto simp: torrent_in_def)
qed

theorem program_gives_back_witness:
  "\<not> torrent_consistent (sample_torrent_of\<lparr>file_length := 1\<rparr>) \<and>
   (\<exists>oc. main_program short_env sample_resources = Some oc \<and> gives_back sample_resources oc)"
proof
  show "\<not> torrent_consistent (sample_torrent_of\<lparr>file_length := 1\<rparr>)"
    by (simp add: torrent_consistent_def sample_torrent_of_def torrent_layout_def consistent_def piece_start_def)
  have "torrent_fits t" if "torrent_in (torrent_file short_env) t" for t
  proof -
    have "t = sample_torrent_of\<lparr>file_length := 1\<rparr>"
      using that short_in by (intro torrent_in_unique [of "torrent_file short_env"])
        (simp_all add: torrent_file_def short_env_def short_bytes)
    then show ?thesis by (simp add: torrent_fits_def sample_torrent_of_def torrent_layout_def fits_def)
  qed
  moreover have "connections_end short_env" using sample_ends by (simp add: connections_end_def short_env_def)
  ultimately show "\<exists>oc. main_program short_env sample_resources = Some oc \<and> gives_back sample_resources oc"
    using program_gives_back [OF short_documented] by blast
qed

section \<open>fclose is not checked\<close>

text \<open>Two runs that end with the same exit code and the same resources.\<close>

definition same_end :: "outcome option \<Rightarrow> outcome option \<Rightarrow> bool" where
  "same_end x y \<longleftrightarrow> rel_option (\<lambda>oc oc'. oc_exit oc = oc_exit oc' \<and> oc_resources oc = oc_resources oc') x y"

lemma same_end_refl [simp]: "same_end x x"
  by (cases x) (simp_all add: same_end_def)

lemma same_end_exits [simp]: "same_end (exits code f h r) (exits code f' h r)"
  by (simp add: same_end_def exits_def)

lemma same_end_bindI:
  "(\<And>x. m = Some x \<Longrightarrow> same_end (f x) (g x)) \<Longrightarrow> same_end (Option.bind m f) (Option.bind m g)"
  unfolding same_end_def by (rule rel_option_same_bindI)

lemma finish_download_close:
  "same_end (finish_download (env\<lparr>env_close := c\<rparr>) d release r) (finish_download env d release r)"
  by (simp add: finish_download_def fclose_eq)

lemma main_download_close:
  "same_end (main_download (env\<lparr>env_close := c\<rparr>) info ih pid peers release h r)
     (main_download env info ih pid peers release h r)"
proof -
  have env: "context_of (env\<lparr>env_close := c\<rparr>) info ih pid = context_of env info ih pid"
    "first_download (env\<lparr>env_close := c\<rparr>) = first_download env"
    "peers_to_try (env\<lparr>env_close := c\<rparr>) = peers_to_try env"
    by (simp_all add: context_of_def first_download_def peers_to_try_def Let_def fun_eq_iff)
  obtain ok h' where "malloc h = (ok, h')" by fastforce
  then show ?thesis
    by (cases ok) (auto simp: main_download_def env Let_def fclose_eq finish_download_close intro!: same_end_bindI)
qed

lemma main_stages_close:
  "same_end (main_peers (env\<lparr>env_close := c\<rparr>) info ih pid obj buffer response x y h r)
     (main_peers env info ih pid obj buffer response x y h r)"
  "same_end (main_tracker (env\<lparr>env_close := c\<rparr>) info ih pid obj buffer response h r)
     (main_tracker env info ih pid obj buffer response h r)"
  "same_end (main_announce (env\<lparr>env_close := c\<rparr>) m ih pid obj buffer h r)
     (main_announce env m ih pid obj buffer h r)"
  "same_end (main_torrent (env\<lparr>env_close := c\<rparr>) buffer obj h r) (main_torrent env buffer obj h r)"
  "same_end (main_parse (env\<lparr>env_close := c\<rparr>) buffer h r) (main_parse env buffer h r)"
proof -
  show peers: "same_end (main_peers (env\<lparr>env_close := c\<rparr>) info ih pid obj buffer response x y h r)
     (main_peers env info ih pid obj buffer response x y h r)" for info ih pid obj buffer response x y h r
    by (auto simp: main_peers_def Let_def main_download_close intro!: same_end_bindI)
  show tracker: "same_end (main_tracker (env\<lparr>env_close := c\<rparr>) info ih pid obj buffer response h r)
     (main_tracker env info ih pid obj buffer response h r)" for info ih pid obj buffer response h r
    by (auto simp: main_tracker_def Let_def peers intro!: same_end_bindI)
  show announce: "same_end (main_announce (env\<lparr>env_close := c\<rparr>) m ih pid obj buffer h r)
     (main_announce env m ih pid obj buffer h r)" for m ih pid obj buffer h r
    by (auto simp: main_announce_def Let_def tracker intro!: same_end_bindI)
  show torrent: "same_end (main_torrent (env\<lparr>env_close := c\<rparr>) buffer obj h r) (main_torrent env buffer obj h r)"
    for buffer obj h r
    by (auto simp: main_torrent_def Let_def announce intro!: same_end_bindI)
  show "same_end (main_parse (env\<lparr>env_close := c\<rparr>) buffer h r) (main_parse env buffer h r)"
    by (auto simp: main_parse_def torrent split: option.split intro!: same_end_bindI)
qed

text \<open>
  The exit code and what is held at the end do not depend on what \<open>fclose\<close> reports, nor on whether the
  data reaches the disk: a download whose last bytes are lost ends with exit code 0.
\<close>

theorem close_failure_unnoticed: "same_end (main_program (env\<lparr>env_close := c\<rparr>) r) (main_program env r)"
  by (auto simp: main_program_def Let_def main_stages_close intro!: same_end_bindI)

end
