(* ===== verification/Spec2Isabelle.thy ===== *)
theory Spec2Isabelle
  imports Main_Correct
begin

text \<open>
  loco is a command-line BitTorrent client in C. It reads a torrent file, asks the tracker for
  peers and fetches the one file of the torrent from them, piece by piece and from one peer at a
  time. This library models the program, src/src/*.c and src/include/*.h, from the bytes it reads
  to the exit code, and proves what its parts and the whole of it guarantee.

  \<^bold>\<open>How C is modelled.\<close>
  \<open>size_t\<close>, \<open>uint64_t\<close> and \<open>int64_t\<close> are 64-bit words (LP64), \<open>uint32_t\<close>, \<open>uint16_t\<close> and
  \<open>unsigned char\<close> words of their width: arithmetic wraps as in C. A pointer is \<open>NULL\<close> or a block
  with an offset; every read and write is checked against the block and gives \<open>None\<close> outside it.
  So a result \<open>Some _\<close> says that no access was out of bounds, and \<open>None\<close> is undefined
  behaviour. The allocator (\<open>heap\<close>) has a script of the requests it is going to refuse and counts
  the live blocks; it does not tell blocks apart, so what is proved about it is that the counts
  balance on every path. Out-parameters are options, where \<open>None\<close> is a NULL argument. Structures
  are records and tagged unions datatypes, with the names of the source.

  \<^bold>\<open>Parts.\<close>
  \<^item> Loco_Prelude: machine words, pointers, byte strings and the rules all theories share.
  \<^item> Byte_Order: the big-endian fields of src/src/peer_connection.c and src/src/tracker.c, and the
    contracts of fields and records of fixed width.
  \<^item> Bencode_Types, Decimal_Text, Bencode_Scan, Bencode_Scan_Facts, Bencode_Parser: the types of
    src/include/bencode_types.h with the allocator, and every function of src/src/bencode_parser.c.
    Bencode_Spec has the values and the grammar they are written in; Bencode_Safety,
    Bencode_Complete and Bencode_Correct prove that the parser is that grammar: it always returns,
    succeeds exactly on the encodings, keeps the offsets it reports, frees what it took on
    failure. The recursive parser runs on fuel, one more than the bytes that are left; each
    recursive call has consumed a byte, so the fuel is never used up (\<open>parse_defined\<close>).
  \<^item> Dictionary_Lookup, Torrent_Metadata: src/src/torrent_metadata.c and its contract \<open>torrent_of\<close>,
    what a bencoded value says of a torrent.
  \<^item> Tracker_Response, Buffer_Writer, Tracker_Request: src/src/tracker.c, the peers and the
    response on one side, the announce URL and the transfer on the other. libcurl and \<open>inet_pton\<close>
    are parameters.
  \<^item> Wire_Socket, Peer_Messages, Peer_State: src/src/peer_connection.c: the loops around \<open>recv\<close> and
    \<open>send\<close>, connecting, the handshake, messages, the set of pieces a peer has, and the piece being
    fetched. A socket is a script of what the kernel answers, in fragments of any size.
  \<^item> Output_File, Download: the file and the two loops of src/src/main.c, over the peers and over the
    messages of one. Download_Spec is the state machine the loops implement (ask, take a block,
    verify, drop), Download_Steps the simulation of each part of the loop's body. Download_Safety
    shows that each part stays inside its memory and gives back what it took, whether or not the
    lengths in the torrent fit together; Download_Correct has what follows for the whole download,
    Download_Live that a peer that has the file and serves it brings the download to completion, and
    what happens to a request that is choked.
  \<^item> Local_Inputs: src/src/cli.c, src/src/file_reader.c, src/src/info_hash.c and src/src/peer_id.c, with
    OpenSSL and the C library's files as parameters.
  \<^item> Main_Program: \<open>main\<close> as a whole, stage by stage with each error path, its clean-up and its exit
    code, in an \<open>environment\<close> of everything outside the program; Main_Live: that it downloads the file.
  \<^item> Fragmentation: two runs side by side, on networks that cut the same bytes differently. Each
    function of src/src/peer_connection.c, each part of the loop's body and each stage of \<open>main\<close> keeps
    them together. A connection that comes to an end is the case in which the second network goes on
    after the end of the first.
  \<^item> Main_Correct: what exit code 0 means, that everything is given back, and that a failure of
    \<open>fclose\<close> goes unnoticed.

  The parts meet in main: the file is parsed (\<open>parse_bencode_buffer\<close>), its metadata extracted
  (\<open>torrent_metadata_extract\<close>), the info dictionary's bytes hashed, the tracker asked
  (\<open>tracker_announce\<close>) and its response decoded (\<open>tracker_response_parse\<close>, \<open>find_peers\<close>, \<open>extract_peers\<close>),
  and the peers are tried in order (\<open>peers_loop\<close>). The interfaces between the parts are locales,
  interpreted on the model's own definitions: fixed-width codecs, parsers that restore or describe
  what they read, dictionary searches, buffers that are appended to, and the output file as a
  store of slices.

  \<^bold>\<open>What the theorems show.\<close>
  \<^item> The program: if every connection comes to an end and the last piece of the torrent fits the
    piece buffer, the program ends with a defined result, and exit code 0 means, for lengths that fit
    together, that what was written to the output file has the length and the piece hashes of the
    torrent (\<open>program_delivers\<close>); it gives back all it took (\<open>program_gives_back\<close>); it refuses a file
    that is no torrent (\<open>program_refuses\<close>); with a peer that serves the file it completes
    (\<open>program_completes\<close>); how the network fragments and interrupts what is sent has no influence on
    the outcome (\<open>fragmentation_invisible\<close>).
  \<^item> The download: for lengths that fit together the loops refine the state machine
    (\<open>download_refines_machine\<close>), what is in the file is verified at all times (\<open>progress_verified\<close>,
    \<open>download_verified\<close>) and the client only says what the protocol allows (\<open>client_keeps_protocol\<close>).
    A connection that ends is cleaned up (\<open>peer_leaves_nothing\<close>). A request that stays without an
    answer is not repeated on its connection, whatever else the peer says (\<open>choke_forgets_request\<close>).
  \<^item> The codecs: exact characterisations of the parser, the metadata, the responses, the announce
    URL, the handshake, the framing, bitfields and blocks, with the round trips.

  \<^bold>\<open>What is assumed.\<close>
  \<open>documented\<close> collects what the C library, OpenSSL, libcurl and the kernel document: a SHA-1 has 20
  bytes, \<open>RAND_bytes\<close> fills its 12 bytes, an escaped string has no NUL and at most three characters
  a byte, libcurl passes no empty chunk but for an empty file, \<open>socket\<close> returns a descriptor that
  is not open, a file's size fits a \<open>long\<close>. The completeness of the parser and of what builds on
  it is proved for inputs below \<open>2 ^ 57\<close> bytes, where the capacity of an array cannot overflow.

  \<^bold>\<open>Inconsistent torrents.\<close>
  main does not check that the length, the piece length and the number of hashes of a torrent fit
  together (\<open>consistent\<close>). What the download writes is proved correct when they do. That it stays
  inside its memory and gives everything back needs less, \<open>fits\<close>: the last piece is not longer than
  the others (in the program, \<open>torrent_fits\<close>). Without \<open>fits\<close> the size of the last piece exceeds the
  buffer, a request for bytes behind the buffer goes out, and the answer to it is undefined
  behaviour (\<open>overlong_torrent_overflows\<close>, for every such torrent; the access at fault is the copy of the
  block, \<open>answer_store_beyond\<close>; \<open>inconsistent_torrent_overflows\<close> runs the loop over the peers on one).
  With a file that is too short the client asks for bytes behind its end
  (\<open>short_torrent_asks_beyond\<close>).

  \<^bold>\<open>Not modelled.\<close>
  Output to the terminal (\<open>printf\<close>, \<open>fprintf\<close>, \<open>perror\<close>, the progress in percent) and the stack:
  the variable-length array that holds the file name and the depth of the recursive parser, for
  which the stack is taken to suffice. Time: a peer that stays silent without closing the connection
  blocks the client for ever, as the sockets have no timeout after connecting. A socket's script is
  finite, and a script that is used up reads like the end of the stream; what is said of
  returning is therefore only said of connections that end in their script (\<open>ends\<close>: the peer closes
  or \<open>recv\<close> fails), together with the fact that what follows such an end makes no difference. In the
  same way \<open>send\<close> answers at some time. What reaches the disk is up to the environment (\<open>env_close\<close>): it
  may differ from what was written, as buffered bytes can be lost, and main ignores the result of
  \<open>fclose\<close>, so that neither the exit code nor anything else depends on it (\<open>close_failure_unnoticed\<close>).
  SHA-1 is any function with results of 20 bytes: that equal hashes mean equal pieces is not
  claimed. The unit tests, the build files and the vendored test framework are not part of the
  program.
\<close>

end
